(* ===== verification/Prelude.thy ===== *)
theory Prelude
  imports Main "HOL-Library.AList" "HOL-Library.Word" "HOL-Library.Sublist"
begin

text \<open>
  What the component theories share: the typed HTTP errors of the server
  (\<^verbatim>\<open>server/src/lib/errors.ts\<close>), JavaScript's insertion-ordered keyed collections
  (\<^verbatim>\<open>Map\<close>, \<^verbatim>\<open>Set\<close> and plain objects) as association lists with the interface they are
  used through, \<^verbatim>\<open>Array.prototype.splice\<close>, and the fact collections of the component proofs.
\<close>

named_theorems keyed_simps "rewriting of lookups after an update or a deletion"
named_theorems rect_simps "unfolding of rectangle predicates"
named_theorems chain_simps "unfolding of hash chains"

section \<open>Typed HTTP errors\<close>

text \<open>An \<^verbatim>\<open>ApiError\<close> is its status and its stable code; the localised message is not modelled.\<close>

datatype api_error = ApiError (statusCode: nat) (code: string)

definition badRequest :: api_error where "badRequest = ApiError 400 ''bad_request''"
definition unauthorized :: api_error where "unauthorized = ApiError 401 ''unauthorized''"
definition forbidden :: api_error where "forbidden = ApiError 403 ''forbidden''"
definition notFound :: api_error where "notFound = ApiError 404 ''not_found''"
definition conflict :: api_error where "conflict = ApiError 409 ''conflict''"
definition tooLarge :: api_error where "tooLarge = ApiError 413 ''payload_too_large''"
definition rateLimited :: api_error where "rateLimited = ApiError 429 ''rate_limited''"
definition insufficientStorage :: api_error where "insufficientStorage = ApiError 507 ''insufficient_storage''"

lemmas api_error_defs = badRequest_def unauthorized_def forbidden_def notFound_def
  conflict_def rateLimited_def tooLarge_def insufficientStorage_def

section \<open>Keyed collections\<close>

text \<open>
  A \<^verbatim>\<open>Map\<close> (or object with string keys) is an association list in insertion order: setting a
  present key overwrites in place, setting a new one appends. These are the library's
  \<^const>\<open>AList.update\<close> and \<^const>\<open>AList.delete\<close>. Components rely on them only through the
  laws below.
\<close>

locale keyed_store =
  fixes get :: "'s \<Rightarrow> 'k \<Rightarrow> 'v option"
    and put :: "'k \<Rightarrow> 'v \<Rightarrow> 's \<Rightarrow> 's"
    and del :: "'k \<Rightarrow> 's \<Rightarrow> 's"
  assumes get_put: "get (put k v s) k' = (if k' = k then Some v else get s k')"
    and get_del: "get (del k s) k' = (if k' = k then None else get s k')"
begin

lemma get_put_same: "get (put k v s) k = Some v"
  by (simp add: get_put)

lemma get_put_other: "k' \<noteq> k \<Longrightarrow> get (put k v s) k' = get s k'"
  by (simp add: get_put)

lemma get_del_same: "get (del k s) k = None"
  by (simp add: get_del)

lemma get_del_other: "k' \<noteq> k \<Longrightarrow> get (del k s) k' = get s k'"
  by (simp add: get_del)

lemma del_put: "get (del k (put k v s)) = get (del k s)"
  by (rule ext) (simp add: get_put get_del)

end

interpretation al: keyed_store map_of AList.update AList.delete
  by unfold_locales (simp_all add: update_conv delete_conv)

lemmas [keyed_simps] = al.get_put al.get_del

text \<open>A \<^verbatim>\<open>Set\<close> is the list of its elements in insertion order.\<close>

definition set_add :: "'a \<Rightarrow> 'a list \<Rightarrow> 'a list" where
  "set_add x xs = (if x \<in> set xs then xs else xs @ [x])"

definition set_of_list :: "'a list \<Rightarrow> 'a list" where
  "set_of_list xs = fold set_add xs []"

lemma set_set_add [simp]: "set (set_add x xs) = insert x (set xs)"
  by (auto simp: set_add_def)

lemma distinct_set_add [simp]: "distinct (set_add x xs) = distinct xs"
  by (auto simp: set_add_def)

lemma set_fold_set_add: "set (fold set_add xs ys) = set xs \<union> set ys"
  by (induction xs arbitrary: ys) auto

lemma distinct_fold_set_add: "distinct ys \<Longrightarrow> distinct (fold set_add xs ys)"
  by (induction xs arbitrary: ys) auto

lemma set_set_of_list [simp]: "set (set_of_list xs) = set xs"
  by (simp add: set_of_list_def set_fold_set_add)

lemma distinct_set_of_list [simp]: "distinct (set_of_list xs)"
  by (simp add: set_of_list_def distinct_fold_set_add)

lemma fold_set_add_distinct:
  "distinct (ys @ xs) \<Longrightarrow> fold set_add xs ys = ys @ xs"
  by (induction xs arbitrary: ys) (auto simp: set_add_def)

lemma set_of_list_distinct: "distinct xs \<Longrightarrow> set_of_list xs = xs"
  by (simp add: set_of_list_def fold_set_add_distinct)

section \<open>Arrays\<close>

definition splice_insert :: "nat \<Rightarrow> 'a list \<Rightarrow> 'a list \<Rightarrow> 'a list" where
  "splice_insert i new xs = take i xs @ new @ drop i xs"

definition splice_remove :: "nat \<Rightarrow> 'a list \<Rightarrow> 'a list" where
  "splice_remove i xs = take i xs @ drop (Suc i) xs"

lemma length_splice_insert [simp]:
  "length (splice_insert i new xs) = length new + length xs"
  by (simp add: splice_insert_def)

lemma set_splice_insert [simp]: "set (splice_insert i new xs) = set new \<union> set xs"
  unfolding splice_insert_def by (metis Un_left_commute append_take_drop_id set_append)

lemma length_splice_remove [simp]:
  "i < length xs \<Longrightarrow> length (splice_remove i xs) = length xs - 1"
  by (simp add: splice_remove_def)

lemma splice_remove_insert:
  "i \<le> length xs \<Longrightarrow> splice_remove i (splice_insert i [x] xs) = xs"
  by (simp add: splice_remove_def splice_insert_def)

lemma nth_splice_insert:
  assumes "i \<le> length xs" "j \<le> length xs"
  shows "splice_insert i [x] xs ! j = (if j < i then xs ! j else if j = i then x else xs ! (j - 1))"
proof -
  have "\<lbrakk>i < j; j - i = Suc m\<rbrakk> \<Longrightarrow> i + m = j - 1" for m by arith
  then show ?thesis
    using assms by (auto simp: splice_insert_def nth_append nth_Cons split: nat.splits)
qed

lemma findIndex_eq:
  "find P xs = Some x \<Longrightarrow> x \<in> set xs \<and> P x"
  by (auto simp: find_Some_iff)

section \<open>Strings\<close>

text \<open>
  A JavaScript string is the list of its code units; the models use \<^typ>\<open>string\<close>, so only code
  units below 256. White space in that range, as \<^verbatim>\<open>trim\<close> and the regular expression class
  \<^verbatim>\<open>\s\<close> see it: tab, line feed, vertical tab, form feed, carriage return, space and the
  no-break space.
\<close>

definition js_space :: "char \<Rightarrow> bool" where
  "js_space c \<longleftrightarrow> (let n = of_char c :: nat in 9 \<le> n \<and> n \<le> 13 \<or> n = 32 \<or> n = 160)"

definition js_trim :: "string \<Rightarrow> string" where
  "js_trim s = rev (dropWhile js_space (rev (dropWhile js_space s)))"

definition is_digit :: "char \<Rightarrow> bool" where
  "is_digit c \<longleftrightarrow> (let n = of_char c :: nat in 48 \<le> n \<and> n \<le> 57)"

definition is_upper :: "char \<Rightarrow> bool" where
  "is_upper c \<longleftrightarrow> (let n = of_char c :: nat in 65 \<le> n \<and> n \<le> 90)"

definition is_lower :: "char \<Rightarrow> bool" where
  "is_lower c \<longleftrightarrow> (let n = of_char c :: nat in 97 \<le> n \<and> n \<le> 122)"

definition is_alpha :: "char \<Rightarrow> bool" where
  "is_alpha c \<longleftrightarrow> is_upper c \<or> is_lower c"

definition to_lower :: "char \<Rightarrow> char" where
  "to_lower c = (if is_upper c then char_of (of_char c + 32 :: nat) else c)"

definition to_upper :: "char \<Rightarrow> char" where
  "to_upper c = (if is_lower c then char_of (of_char c - 32 :: nat) else c)"

fun js_join :: "string \<Rightarrow> string list \<Rightarrow> string" where
  "js_join sep [] = []"
| "js_join sep [x] = x"
| "js_join sep (x # y # ys) = x @ sep @ js_join sep (y # ys)"

fun js_split :: "char \<Rightarrow> string \<Rightarrow> string list" where
  "js_split d [] = [[]]"
| "js_split d (c # cs) =
     (if c = d then [] # js_split d cs
      else (case js_split d cs of [] \<Rightarrow> [[c]] | x # xs \<Rightarrow> (c # x) # xs))"

lemma js_split_nonempty [simp]: "js_split d s \<noteq> []"
  by (induction s) (auto split: list.splits)

text \<open>Writing at an index of an array of strings: past the end it extends the array, and the
  holes read as the empty string wherever the code reads them (\<^verbatim>\<open>?? ""\<close>).\<close>

definition js_set :: "nat \<Rightarrow> string \<Rightarrow> string list \<Rightarrow> string list" where
  "js_set i v xs = (if i < length xs then xs[i := v] else xs @ replicate (i - length xs) [] @ [v])"

lemma length_js_set [simp]: "i < length xs \<Longrightarrow> length (js_set i v xs) = length xs"
  by (simp add: js_set_def)

text \<open>The decimal writing of a natural number (\<^verbatim>\<open>toString\<close>).\<close>

definition digit_char :: "nat \<Rightarrow> char" where
  "digit_char d = char_of (48 + d)"

fun dec_digits :: "nat \<Rightarrow> string" where
  "dec_digits n = (if n < 10 then [digit_char n] else dec_digits (n div 10) @ [digit_char (n mod 10)])"

declare dec_digits.simps [simp del]

lemma is_digit_char: "d < 10 \<Longrightarrow> is_digit (digit_char d)"
  by (simp add: is_digit_def digit_char_def Let_def)

lemma dec_digits_digits: "list_all is_digit (dec_digits n)"
proof (induction n rule: dec_digits.induct)
  case (1 n)
  then show ?case
    by (subst dec_digits.simps) (auto simp: is_digit_char)
qed

text \<open>The text of an integer, and the integer of a text of digits.\<close>

definition int_text :: "int \<Rightarrow> string" where
  "int_text i = (if i < 0 then CHR ''-'' # dec_digits (nat (- i)) else dec_digits (nat i))"

definition parse_dec :: "string \<Rightarrow> int" where
  "parse_dec s = fold (\<lambda>c n. n * 10 + (of_char c - 48)) s 0"

lemma of_char_int: "(of_char c :: int) = int (of_char c :: nat)"
  by (rule of_nat_of_char[symmetric])

definition dec_run :: "string \<Rightarrow> int \<Rightarrow> int" where
  "dec_run s = fold (\<lambda>c n. n * 10 + (of_char c - 48)) s"

lemma dec_run_append [simp]: "dec_run (s @ t) n = dec_run t (dec_run s n)"
  by (simp add: dec_run_def)

lemma digit_char_value: "d < 10 \<Longrightarrow> (of_char (digit_char d) :: int) = 48 + int d"
  unfolding of_char_int by (simp add: digit_char_def)

lemma dec_run_digits: "dec_run (dec_digits n) 0 = int n"
proof (induction n rule: dec_digits.induct)
  case (1 n)
  show ?case
  proof (cases "n < 10")
    case True
    then show ?thesis by (subst dec_digits.simps) (simp add: dec_run_def digit_char_value)
  next
    case False
    have "dec_run (dec_digits n) 0 = int (n div 10) * 10 + int (n mod 10)"
      using False 1 by (subst dec_digits.simps) (simp add: dec_run_def digit_char_value)
    then show ?thesis by (metis div_mult_mod_eq of_nat_add of_nat_mult of_nat_numeral)
  qed
qed

lemma dec_digits_nonempty [simp]: "dec_digits n \<noteq> []"
  by (subst dec_digits.simps) simp

lemma parse_int_text: "0 \<le> i \<Longrightarrow> parse_dec (int_text i) = i"
  using dec_run_digits[of "nat i"] by (simp add: parse_dec_def int_text_def dec_run_def)

lemma int_text_digits: "0 \<le> i \<Longrightarrow> list_all is_digit (int_text i) \<and> int_text i \<noteq> []"
  by (simp add: int_text_def dec_digits_digits)

section \<open>Options\<close>

lemma option_all_bind:
  "Option.bind x f = Some y \<longleftrightarrow> (\<exists>z. x = Some z \<and> f z = Some y)"
  by (cases x) auto

end
