(* ===== verification/Canonical.thy ===== *)
theory Canonical
  imports Prelude "HOL-Library.Multiset" "HOL-Library.List_Lexorder" "HOL-Library.Char_ord"
begin

text \<open>
  Canonical serialisation, \<^verbatim>\<open>web-studio/src/format/canonical.ts\<close>: hexadecimal, and the JSON form that
  is hashed. A JavaScript object is the list of its own properties in enumeration order; assigning
  properties to a fresh object and enumerating it follow the language's rules (array indices first
  in ascending order, and an assignment to \<^verbatim>\<open>__proto__\<close> that creates no property). The type of
  numbers, their finiteness and their decimal text are parameters; an exception is \<open>None\<close>.
\<close>

section \<open>Hexadecimal\<close>

definition hex_digit :: "nat \<Rightarrow> char" where
  "hex_digit d = ''0123456789abcdef'' ! d"

definition HEX_BYTE :: "8 word \<Rightarrow> string" where
  "HEX_BYTE b = [hex_digit (unat b div 16), hex_digit (unat b mod 16)]"

definition toHex :: "8 word list \<Rightarrow> string" where
  "toHex bytes = concat (map HEX_BYTE bytes)"

definition hex_value :: "char \<Rightarrow> nat option" where
  "hex_value c =
     (if is_digit c then Some (of_char c - 48)
      else if is_lower c \<and> (of_char c :: nat) \<le> 102 then Some (of_char c - 87)
      else if is_upper c \<and> (of_char c :: nat) \<le> 70 then Some (of_char c - 55)
      else None)"

fun hex_pairs :: "string \<Rightarrow> 8 word list option" where
  "hex_pairs [] = Some []"
| "hex_pairs [c] = None"
| "hex_pairs (c # d # cs) =
     (case (hex_value c, hex_value d, hex_pairs cs) of
        (Some h, Some l, Some bs) \<Rightarrow> Some (word_of_nat (16 * h + l) # bs)
      | _ \<Rightarrow> None)"

definition fromHex :: "string \<Rightarrow> 8 word list option" where
  "fromHex hex = hex_pairs (js_trim hex)"

text \<open>\<^verbatim>\<open>Buffer.from(s, "hex")\<close> stops before an incomplete pair.\<close>

definition hex_buffer :: "string \<Rightarrow> 8 word list" where
  "hex_buffer s = (case hex_pairs (take (2 * (length s div 2)) s) of None \<Rightarrow> [] | Some bs \<Rightarrow> bs)"

section \<open>JSON values\<close>

datatype 'n json =
    JUndef
  | JNull
  | JBool bool
  | JNum 'n
  | JStr string
  | JArr "'n json list"
  | JObj "(string \<times> 'n json) list"

text \<open>Reading a property of a value that is neither \<^verbatim>\<open>null\<close> nor \<^verbatim>\<open>undefined\<close>: an object's own property, or
  \<^verbatim>\<open>undefined\<close>.\<close>

definition prop_of :: "'n json \<Rightarrow> string \<Rightarrow> 'n json" where
  "prop_of v k = (case v of JObj kvs \<Rightarrow> (case map_of kvs k of Some w \<Rightarrow> w | None \<Rightarrow> JUndef) | _ \<Rightarrow> JUndef)"

definition str_of :: "'n json \<Rightarrow> string" where
  "str_of v = (case v of JStr s \<Rightarrow> s | _ \<Rightarrow> [])"

text \<open>Array indices are the decimal integers below \<open>2 ^ 32 - 1\<close> without leading zeros.\<close>

definition dec_value :: "string \<Rightarrow> nat" where
  "dec_value s = foldl (\<lambda>n c. 10 * n + (of_char c - 48)) 0 s"

definition is_index :: "string \<Rightarrow> bool" where
  "is_index s \<longleftrightarrow> s \<noteq> [] \<and> list_all is_digit s \<and> (hd s = CHR ''0'' \<longrightarrow> length s = 1) \<and> dec_value s < 2 ^ 32 - 1"

definition enumeration :: "(string \<times> 'a) list \<Rightarrow> (string \<times> 'a) list" where
  "enumeration kvs =
     sort_key (\<lambda>(k, v). dec_value k) (filter (\<lambda>(k, v). is_index k) kvs) @ filter (\<lambda>(k, v). \<not> is_index k) kvs"

text \<open>The object \<open>out\<close> after assigning the properties one by one.\<close>

definition assign_all :: "(string \<times> 'a) list \<Rightarrow> (string \<times> 'a) list" where
  "assign_all kvs = enumeration (filter (\<lambda>(k, v). k \<noteq> ''__proto__'') kvs)"

fun sortDeep :: "('n \<Rightarrow> bool) \<Rightarrow> 'n json \<Rightarrow> 'n json option" where
  "sortDeep fin (JArr xs) = map_option JArr (those (map (sortDeep fin) xs))"
| "sortDeep fin (JObj kvs) =
     map_option (JObj \<circ> assign_all)
       (those (map (\<lambda>kv. map_option (Pair (fst kv)) (sortDeep fin (snd kv)))
          (filter (\<lambda>kv. snd kv \<noteq> JUndef) (sort_key fst kvs))))"
| "sortDeep fin (JNum n) = (if fin n then Some (JNum n) else None)"
| "sortDeep fin v = Some v"

section \<open>Text\<close>

definition json_escape :: "char \<Rightarrow> string" where
  "json_escape c =
     (if c = CHR 0x22 \<or> c = CHR 0x5C then [CHR 0x5C, c]
      else if c = CHR 0x08 then [CHR 0x5C, CHR ''b'']
      else if c = CHR 0x09 then [CHR 0x5C, CHR ''t'']
      else if c = CHR 0x0A then [CHR 0x5C, CHR ''n'']
      else if c = CHR 0x0C then [CHR 0x5C, CHR ''f'']
      else if c = CHR 0x0D then [CHR 0x5C, CHR ''r'']
      else if (of_char c :: nat) < 32
      then CHR 0x5C # ''u00'' @ [hex_digit (of_char c div 16), hex_digit (of_char c mod 16)]
      else [c])"

definition json_string :: "string \<Rightarrow> string" where
  "json_string s = CHR 0x22 # concat (map json_escape s) @ [CHR 0x22]"

fun stringify :: "('n \<Rightarrow> string) \<Rightarrow> 'n json \<Rightarrow> string" where
  "stringify nt JUndef = ''null''"
| "stringify nt JNull = ''null''"
| "stringify nt (JBool b) = (if b then ''true'' else ''false'')"
| "stringify nt (JNum n) = nt n"
| "stringify nt (JStr s) = json_string s"
| "stringify nt (JArr xs) = ''['' @ js_join '','' (map (stringify nt) xs) @ '']''"
| "stringify nt (JObj kvs) =
     ''{'' @ js_join '','' (map (\<lambda>kv. json_string (fst kv) @ '':'' @ stringify nt (snd kv)) kvs) @ ''}''"

definition canonicalJSON :: "('n \<Rightarrow> bool) \<Rightarrow> ('n \<Rightarrow> string) \<Rightarrow> 'n json \<Rightarrow> string option" where
  "canonicalJSON fin nt v = map_option (stringify nt) (sortDeep fin v)"

text \<open>\<open>H\<close> is the SHA-256 digest of the UTF-8 encoding of a string.\<close>

definition sha256Hex :: "(string \<Rightarrow> 8 word list) \<Rightarrow> string \<Rightarrow> string" where
  "sha256Hex H data = toHex (H data)"

definition ZERO_HASH :: string where
  "ZERO_HASH = replicate 64 (CHR ''0'')"


section \<open>Hexadecimal round trip\<close>

lemma hex_digit_lt:
  assumes "d < 16"
  shows "hex_value (hex_digit d) = Some d" "\<not> js_space (hex_digit d)"
proof -
  have "list_all (\<lambda>d. hex_value (hex_digit d) = Some d \<and> \<not> js_space (hex_digit d)) [0..<16]"
    by code_simp
  moreover have "d \<in> set [0..<16]" using assms unfolding set_upt atLeastLessThan_iff by blast
  ultimately have "hex_value (hex_digit d) = Some d \<and> \<not> js_space (hex_digit d)"
    unfolding list_all_iff by (rule bspec)
  then show "hex_value (hex_digit d) = Some d" "\<not> js_space (hex_digit d)" by blast+
qed

lemma unat8_lt: "unat (b :: 8 word) div 16 < 16" "unat b mod 16 < 16"
proof -
  have "unat b < 2 ^ LENGTH(8)" by (rule unsigned_less)
  then have "unat b < 256" by simp
  then show "unat b div 16 < 16" by (simp add: less_mult_imp_div_less)
qed simp

lemma hex_pairs_toHex: "hex_pairs (toHex bytes) = Some bytes"
  by (induction bytes) (simp_all add: toHex_def HEX_BYTE_def hex_digit_lt unat8_lt)

lemma dropWhile_none: "\<forall>c\<in>set s. \<not> P c \<Longrightarrow> dropWhile P s = s"
  by (cases s) auto

lemma js_trim_id: "\<forall>c\<in>set s. \<not> js_space c \<Longrightarrow> js_trim s = s"
  by (simp add: js_trim_def dropWhile_none)

lemma toHex_no_space: "c \<in> set (toHex bytes) \<Longrightarrow> \<not> js_space c"
  by (auto simp: toHex_def HEX_BYTE_def hex_digit_lt unat8_lt)

lemma fromHex_toHex: "fromHex (toHex bytes) = Some bytes"
  using js_trim_id[of "toHex bytes"] toHex_no_space by (simp add: fromHex_def hex_pairs_toHex)

lemma length_toHex: "length (toHex bytes) = 2 * length bytes"
  by (induction bytes) (auto simp: toHex_def HEX_BYTE_def)

lemma toHex_inj: "toHex a = toHex b \<Longrightarrow> a = b"
  using fromHex_toHex by (metis option.inject)

section \<open>The text of a value determines the value\<close>

fun unescape :: "string \<Rightarrow> (char \<times> string) option" where
  "unescape [] = None"
| "unescape (b # rest) =
     (if b \<noteq> CHR 0x5C then Some (b, rest)
      else case rest of [] \<Rightarrow> None
        | e # r \<Rightarrow>
            if e = CHR ''b'' then Some (CHR 0x08, r)
            else if e = CHR ''t'' then Some (CHR 0x09, r)
            else if e = CHR ''n'' then Some (CHR 0x0A, r)
            else if e = CHR ''f'' then Some (CHR 0x0C, r)
            else if e = CHR ''r'' then Some (CHR 0x0D, r)
            else if e = CHR ''u''
            then Some (char_of (16 * the (hex_value (r ! 2)) + the (hex_value (r ! 3))), drop 4 r)
            else Some (e, r))"

lemma unescape_escape: "unescape (json_escape c @ x) = Some (c, x)"
proof (cases "c \<in> {CHR 0x22, CHR 0x5C, CHR 0x08, CHR 0x09, CHR 0x0A, CHR 0x0C, CHR 0x0D}")
  case True
  then show ?thesis
    unfolding insert_iff empty_iff by (elim disjE) (simp_all add: json_escape_def)
next
  case False
  then have esc: "json_escape c = (if (of_char c :: nat) < 32
      then CHR 0x5C # ''u00'' @ [hex_digit (of_char c div 16), hex_digit (of_char c mod 16)] else [c])"
    unfolding json_escape_def insert_iff empty_iff by (simp only: de_Morgan_disj simp_thms if_False)
  show ?thesis
  proof (cases "(of_char c :: nat) < 32")
    case True
    then have "of_char c div 16 < (16 :: nat)" "of_char c mod 16 < (16 :: nat)" by auto
    then have "hex_value (hex_digit (of_char c div 16)) = Some (of_char c div 16)"
      "hex_value (hex_digit (of_char c mod 16)) = Some (of_char c mod 16)"
      by (simp_all only: hex_digit_lt)
    moreover have "char_of (16 * (of_char c div 16) + of_char c mod (16 :: nat)) = c"
      by (simp only: mult_div_mod_eq char_of_char)
    ultimately show ?thesis
      unfolding esc using True by simp
  next
    case lt: False
    have "c \<noteq> CHR 0x5C" using False by blast
    then show ?thesis unfolding esc using lt by (simp only: if_False append.simps unescape.simps if_True not_False_eq_True simp_thms)
  qed
qed

lemma escape_quote: "json_escape c @ x \<noteq> CHR 0x22 # y"
  by (simp add: json_escape_def)

lemma escapes_unique:
  "concat (map json_escape s) @ CHR 0x22 # r = concat (map json_escape t) @ CHR 0x22 # r' \<Longrightarrow> s = t \<and> r = r'"
proof (induction s arbitrary: t)
  case Nil
  then show ?case using escape_quote by (cases t) (auto dest: sym)
next
  case (Cons c s)
  show ?case
  proof (cases t)
    case Nil
    with Cons.prems show ?thesis by (simp add: escape_quote)
  next
    case (Cons d t')
    with Cons.prems have "json_escape c @ concat (map json_escape s) @ CHR 0x22 # r =
        json_escape d @ concat (map json_escape t') @ CHR 0x22 # r'" by simp
    then have "c = d \<and> concat (map json_escape s) @ CHR 0x22 # r = concat (map json_escape t') @ CHR 0x22 # r'"
      by (metis unescape_escape option.inject prod.inject)
    with Cons Cons.IH show ?thesis by blast
  qed
qed

lemma json_string_unique: "json_string s @ r = json_string t @ r' \<Longrightarrow> s = t \<and> r = r'"
  using escapes_unique[of s r t r'] by (simp add: json_string_def)

definition delim :: "char \<Rightarrow> bool" where
  "delim c \<longleftrightarrow> c = CHR '','' \<or> c = CHR '']'' \<or> c = CHR ''}''"

definition num_char :: "char \<Rightarrow> bool" where
  "num_char c \<longleftrightarrow> is_digit c \<or> c = CHR ''+'' \<or> c = CHR ''-'' \<or> c = CHR ''.'' \<or> c = CHR ''e''"

lemma num_char_other:
  "num_char c \<Longrightarrow> \<not> delim c \<and> c \<noteq> CHR 0x22 \<and> c \<noteq> CHR ''['' \<and> c \<noteq> CHR ''{'' \<and> c \<noteq> CHR ''n'' \<and> c \<noteq> CHR ''t'' \<and> c \<noteq> CHR ''f''"
  by (auto simp: num_char_def delim_def is_digit_def)

lemma num_char_not_delim: "num_char c \<Longrightarrow> \<not> delim c"
  using num_char_other by blast

text \<open>What the text of finite numbers is taken to satisfy: distinct numbers have distinct texts,
  made of digits, signs, points and exponents.\<close>

definition number_format :: "('n \<Rightarrow> bool) \<Rightarrow> ('n \<Rightarrow> string) \<Rightarrow> bool" where
  "number_format fin nt \<longleftrightarrow> inj_on nt (Collect fin) \<and> (\<forall>n. fin n \<longrightarrow> nt n \<noteq> [] \<and> list_all num_char (nt n))"

definition stops :: "string \<Rightarrow> bool" where
  "stops r \<longleftrightarrow> (case r of [] \<Rightarrow> True | c # _ \<Rightarrow> delim c)"

fun printable :: "('n \<Rightarrow> bool) \<Rightarrow> 'n json \<Rightarrow> bool" where
  "printable fin JUndef = False"
| "printable fin (JNum n) = fin n"
| "printable fin (JArr xs) = list_all (printable fin) xs"
| "printable fin (JObj kvs) = list_all (\<lambda>kv. printable fin (snd kv)) kvs"
| "printable fin _ = True"

text \<open>The kind of a value shows in the first character of its text.\<close>

fun kind_char :: "'n json \<Rightarrow> char \<Rightarrow> bool" where
  "kind_char JUndef c = (c = CHR ''n'')"
| "kind_char JNull c = (c = CHR ''n'')"
| "kind_char (JBool b) c = (c = (if b then CHR ''t'' else CHR ''f''))"
| "kind_char (JNum n) c = num_char c"
| "kind_char (JStr s) c = (c = CHR 0x22)"
| "kind_char (JArr xs) c = (c = CHR ''['')"
| "kind_char (JObj kvs) c = (c = CHR ''{'')"

lemma stringify_head:
  assumes "number_format fin nt" "printable fin v"
  shows "\<exists>c cs. stringify nt v = c # cs \<and> kind_char v c"
proof (cases v)
  case (JNum n)
  then show ?thesis
    using assms by (cases "nt n") (auto simp: number_format_def)
qed (use assms in \<open>auto simp: json_string_def\<close>)

lemma kind_char_delim: "kind_char v c \<Longrightarrow> \<not> delim c"
proof (cases v)
  case (JNum n)
  then show "kind_char v c \<Longrightarrow> \<not> delim c" by (simp add: num_char_not_delim)
qed (auto simp: delim_def)

lemma number_end:
  "list_all num_char a \<Longrightarrow> list_all num_char b \<Longrightarrow> stops r \<Longrightarrow> stops r' \<Longrightarrow> a @ r = b @ r' \<Longrightarrow> a = b \<and> r = r'"
proof (induction a arbitrary: b)
  case Nil
  then show ?case by (cases b) (auto simp: stops_def dest: num_char_not_delim)
next
  case (Cons x a)
  then show ?case by (cases b) (auto simp: stops_def dest: num_char_not_delim)
qed

text \<open>Printing a list of items separated by commas and closed by a bracket.\<close>

definition unique_item :: "('a \<Rightarrow> string) \<Rightarrow> 'a set \<Rightarrow> 'a \<Rightarrow> bool" where
  "unique_item P ok x \<longleftrightarrow> (\<forall>y r r'. y \<in> ok \<longrightarrow> stops r \<longrightarrow> stops r' \<longrightarrow> P x @ r = P y @ r' \<longrightarrow> x = y \<and> r = r')"

lemma unique_itemD:
  "unique_item P ok x \<Longrightarrow> P x @ r = P y @ r' \<Longrightarrow> y \<in> ok \<Longrightarrow> stops r \<Longrightarrow> stops r' \<Longrightarrow> x = y \<and> r = r'"
  unfolding unique_item_def by blast

fun tail_items :: "('a \<Rightarrow> string) \<Rightarrow> 'a list \<Rightarrow> string \<Rightarrow> string" where
  "tail_items P [] z = z"
| "tail_items P (x # xs) z = CHR '','' # P x @ tail_items P xs z"

lemma js_join_tail: "js_join '','' (map P (x # xs)) @ z = P x @ tail_items P xs z"
  by (induction xs arbitrary: x) auto

lemma tail_items_stops: "delim c \<Longrightarrow> stops (tail_items P xs (c # z))"
  by (cases xs) (auto simp: stops_def delim_def)

lemma tail_items_unique:
  assumes "delim c" "c \<noteq> CHR '',''"
  shows "set xs \<subseteq> ok \<Longrightarrow> set ys \<subseteq> ok \<Longrightarrow> \<forall>x\<in>set xs. unique_item P ok x \<Longrightarrow>
    tail_items P xs (c # r) = tail_items P ys (c # r') \<Longrightarrow> xs = ys \<and> r = r'"
proof (induction xs arbitrary: ys)
  case Nil
  then show ?case using assms by (cases ys) auto
next
  case (Cons x xs)
  show ?case
  proof (cases ys)
    case Nil
    with Cons.prems assms show ?thesis by auto
  next
    case ys: (Cons y ys')
    have "x = y \<and> tail_items P xs (c # r) = tail_items P ys' (c # r')"
      using Cons.prems ys tail_items_stops[OF assms(1)] by (intro unique_itemD[of P ok]) auto
    with Cons.IH[of ys'] Cons.prems ys show ?thesis by auto
  qed
qed

lemma items_unique:
  assumes head: "\<And>y. y \<in> ok \<Longrightarrow> \<exists>d ds. P y = d # ds \<and> \<not> delim d" and c: "delim c" "c \<noteq> CHR '',''"
    and "set xs \<subseteq> ok" "set ys \<subseteq> ok" "\<forall>x\<in>set xs. unique_item P ok x"
    and eq: "js_join '','' (map P xs) @ c # r = js_join '','' (map P ys) @ c # r'"
  shows "xs = ys \<and> r = r'"
proof -
  have starts: "js_join '','' (map P (z # zs)) @ c # q \<noteq> c # q'" if "z \<in> ok" for z zs q q'
    using head[OF that] c unfolding js_join_tail by auto
  show ?thesis
  proof (cases xs)
    case Nil
    with eq starts assms(5) show ?thesis by (cases ys) (auto dest: sym)
  next
    case xs: (Cons x xs')
    show ?thesis
    proof (cases ys)
      case Nil
      with eq xs starts[of x xs'] assms(4) show ?thesis by auto
    next
      case ys: (Cons y ys')
      have "P x @ tail_items P xs' (c # r) = P y @ tail_items P ys' (c # r')"
        using eq unfolding xs ys js_join_tail .
      then have "x = y \<and> tail_items P xs' (c # r) = tail_items P ys' (c # r')"
        using assms(4-6) xs ys tail_items_stops[OF c(1)] by (intro unique_itemD[of P ok]) auto
      with tail_items_unique[OF c, of xs' ok ys' P r r'] assms(4-6) xs ys show ?thesis by auto
    qed
  qed
qed

lemma same_kind:
  assumes "number_format fin nt" "printable fin v" "printable fin w" "stringify nt v @ r = stringify nt w @ r'"
  shows "\<exists>c. kind_char v c \<and> kind_char w c"
  using stringify_head[OF assms(1,2)] stringify_head[OF assms(1,3)] assms(4) by auto

lemma stringify_unique:
  assumes nf: "number_format fin nt"
  shows "printable fin v \<Longrightarrow> printable fin w \<Longrightarrow> stops r \<Longrightarrow> stops r' \<Longrightarrow>
    stringify nt v @ r = stringify nt w @ r' \<Longrightarrow> v = w \<and> r = r'"
proof (induction v arbitrary: w r r')
  case (JNum n)
  obtain c where c: "num_char c" "kind_char w c" using same_kind[OF nf JNum(1,2,5)] by auto
  then obtain m where w: "w = JNum m" using JNum(2) by (cases w) (auto dest: num_char_other split: if_splits)
  with nf JNum have "nt n = nt m \<and> r = r'"
    by (intro number_end) (auto simp: number_format_def)
  with nf JNum w show ?case by (auto simp: number_format_def dest: inj_onD)
next
  case (JStr s)
  obtain t where w: "w = JStr t"
    using same_kind[OF nf JStr(1,2,5)] by (cases w) (auto dest: num_char_other split: if_splits)
  with JStr json_string_unique[of s r t r'] show ?case by simp
next
  case (JArr xs)
  obtain ys where w: "w = JArr ys"
    using same_kind[OF nf JArr.prems(1,2,5)] by (cases w) (auto dest: num_char_other split: if_splits)
  have "xs = ys \<and> r = r'"
  proof (rule items_unique[of "Collect (printable fin)" "stringify nt" "CHR '']''"])
    show "\<exists>d ds. stringify nt y = d # ds \<and> \<not> delim d" if "y \<in> Collect (printable fin)" for y
      using stringify_head[OF nf] kind_char_delim that by blast
    show "\<forall>x\<in>set xs. unique_item (stringify nt) (Collect (printable fin)) x"
      using JArr.IH JArr.prems(1)[unfolded printable.simps list_all_iff] unfolding unique_item_def by blast
  qed (use JArr.prems w in \<open>auto simp: delim_def list_all_iff\<close>)
  with w show ?case by simp
next
  case (JObj kvs)
  let ?P = "\<lambda>kv. json_string (fst kv) @ '':'' @ stringify nt (snd kv)"
  obtain lvs where w: "w = JObj lvs"
    using same_kind[OF nf JObj.prems(1,2,5)] by (cases w) (auto dest: num_char_other split: if_splits)
  have "kvs = lvs \<and> r = r'"
  proof (rule items_unique[of "{kv. printable fin (snd kv)}" ?P "CHR ''}''"])
    show "\<forall>kv\<in>set kvs. unique_item ?P {kv. printable fin (snd kv)} kv"
      unfolding unique_item_def
    proof (intro ballI allI impI)
      fix kv y r r'
      assume kv: "kv \<in> set kvs" and y: "y \<in> {kv. printable fin (snd kv)}" "stops r" "stops r'" "?P kv @ r = ?P y @ r'"
      then have k: "fst kv = fst y \<and> stringify nt (snd kv) @ r = stringify nt (snd y) @ r'"
        using json_string_unique[of "fst kv" "'':'' @ stringify nt (snd kv) @ r" "fst y" "'':'' @ stringify nt (snd y) @ r'"] by simp
      moreover have "printable fin (snd kv)" using kv JObj.prems(1) by (auto simp: list_all_iff)
      ultimately have "snd kv = snd y \<and> r = r'"
        using JObj.IH[of kv "snd kv" "snd y" r r'] kv y by (simp add: snds.intros)
      with k show "kv = y \<and> r = r'" by (auto simp: prod_eq_iff)
    qed
    show "\<exists>d ds. ?P y = d # ds \<and> \<not> delim d" for y
      by (simp add: json_string_def delim_def)
  qed (use JObj.prems w in \<open>auto simp: delim_def list_all_iff\<close>)
  with w show ?case by simp
next
  case JNull
  then have "w = JNull"
    using same_kind[OF nf JNull(1,2,5)] by (cases w) (auto dest: num_char_other split: if_splits)
  with JNull show ?case by simp
next
  case (JBool b)
  then have "w = JBool b"
    using same_kind[OF nf JBool(1,2,5)] by (cases w) (auto dest: num_char_other split: if_splits)
  with JBool show ?case by simp
qed simp


section \<open>The canonical form\<close>

text \<open>Plain values: what parsing a JSON text yields, without the key \<^verbatim>\<open>__proto__\<close>.\<close>

fun plain :: "('n \<Rightarrow> bool) \<Rightarrow> 'n json \<Rightarrow> bool" where
  "plain fin JUndef = False"
| "plain fin (JNum n) = fin n"
| "plain fin (JArr xs) = list_all (plain fin) xs"
| "plain fin (JObj kvs) =
     (distinct (map fst kvs) \<and> list_all (\<lambda>kv. fst kv \<noteq> ''__proto__'' \<and> plain fin (snd kv)) kvs)"
| "plain fin _ = True"

text \<open>Two values are the same up to the order of the properties of their objects.\<close>

inductive same_json :: "'n json \<Rightarrow> 'n json \<Rightarrow> bool" where
  same_refl: "same_json v v"
| same_arr: "list_all2 same_json xs ys \<Longrightarrow> same_json (JArr xs) (JArr ys)"
| same_obj: "mset kvs = mset kvs' \<Longrightarrow>
    list_all2 (\<lambda>a b. fst a = fst b \<and> same_json (snd a) (snd b)) kvs' lvs \<Longrightarrow> same_json (JObj kvs) (JObj lvs)"
monos list.rel_mono

text \<open>Sorting the keys of all objects, then arranging each object with \<open>ord\<close>: the canonical form is
  \<open>arrange enumeration\<close>.\<close>

fun arrange :: "((string \<times> 'n json) list \<Rightarrow> (string \<times> 'n json) list) \<Rightarrow> 'n json \<Rightarrow> 'n json" where
  "arrange ord (JArr xs) = JArr (map (arrange ord) xs)"
| "arrange ord (JObj kvs) = JObj (ord (map (\<lambda>kv. (fst kv, arrange ord (snd kv))) (sort_key fst kvs)))"
| "arrange ord v = v"

text \<open>What serialisations of sorted objects rely on: the final arrangement of an object is a
  permutation of its properties.\<close>

lemma those_map_Some: "\<forall>x\<in>set xs. f x = Some (g x) \<Longrightarrow> those (map f xs) = Some (map g xs)"
  by (induction xs) auto

lemma mset_enumeration: "mset (enumeration kvs) = mset kvs"
proof -
  have "mset (filter P xs) + mset (filter (\<lambda>x. \<not> P x) xs) = mset xs" for P and xs :: "(string \<times> 'a) list"
    by (simp add: mset_filter flip: multiset_partition)
  then show ?thesis by (simp add: enumeration_def case_prod_beta')
qed

lemma map_eq_permutation:
  "mset (map f xs) = mset ys \<Longrightarrow> \<exists>xs'. mset xs' = mset xs \<and> map f xs' = ys"
proof (induction ys arbitrary: xs)
  case Nil
  then show ?case by auto
next
  case (Cons y ys)
  then have "y \<in> set (map f xs)" by (metis list.set_intros(1) set_mset_mset)
  then obtain x where x: "x \<in> set xs" "f x = y" by auto
  then obtain as bs where xs: "xs = as @ x # bs" by (meson split_list)
  with Cons.prems x have "mset (map f (as @ bs)) = mset ys" by simp
  then obtain zs where "mset zs = mset (as @ bs)" "map f zs = ys" using Cons.IH by blast
  with x xs show ?case by (intro exI[of _ "x # zs"]) auto
qed

lemma distinct_map_sort: "distinct (map f (sort_key h xs)) \<longleftrightarrow> distinct (map f xs)"
proof (rule mset_eq_imp_distinct_iff)
  show "mset (map f (sort_key h xs)) = mset (map f xs)" by simp
qed

lemma sort_key_permuted:
  assumes "mset xs = mset ys" "distinct (map fst xs)"
  shows "sort_key fst xs = sort_key fst ys"
proof (rule nth_equalityI)
  let ?a = "sort_key fst xs" and ?b = "sort_key fst ys"
  have set: "set ?a = set ?b" using assms(1) by (metis set_mset_mset set_sort)
  have "mset (map fst xs) = mset (map fst ys)" using assms(1) by simp
  then have "mset (map fst ?a) = mset (map fst xs)" "mset (map fst ?b) = mset (map fst xs)" by simp_all
  then have d: "distinct (map fst ?a)" "distinct (map fst ?b)"
    using assms(2) mset_eq_imp_distinct_iff by blast+
  then have k: "map fst ?a = map fst ?b"
    using set by (intro sorted_distinct_set_unique sorted_sort_key) (simp_all only: set_map)
  show len: "length ?a = length ?b" using k by (rule map_eq_imp_length_eq)
  fix i assume i: "i < length ?a"
  then have "fst (?a ! i) = fst (?b ! i)" using k len by (metis nth_map)
  moreover have "?b ! i \<in> set ?b" "?a ! i \<in> set ?a" using i len by (simp_all only: nth_mem)
  moreover have "inj_on fst (set ?a)" using d(1) by (simp only: distinct_map)
  ultimately show "?a ! i = ?b ! i" unfolding set by (metis inj_onD)
qed

lemma sort_key_map_fst:
  "(\<And>kv. fst (g kv) = fst kv) \<Longrightarrow> sort_key fst (map g xs) = map g (sort_key fst xs)"
proof (induction xs)
  case (Cons x xs)
  have "insort_key fst (g y) (map g zs) = map g (insort_key fst y zs)" for y zs
    using Cons.prems by (induction zs) auto
  with Cons show ?case by simp
qed simp

lemma map_nth_eq:
  "length xs = length ys \<Longrightarrow> (\<And>i. i < length xs \<Longrightarrow> f (xs ! i) = f (ys ! i)) \<Longrightarrow> map f xs = map f ys"
  by (simp add: list_eq_iff_nth_eq)

inductive_cases same_json_numE: "same_json (JNum a) w"

lemma same_json_num: "same_json (JNum a) (JNum b) \<Longrightarrow> a = b"
  by (auto elim: same_json_numE)

lemma map_of_permuted: "mset xs = mset ys \<Longrightarrow> distinct (map fst xs) \<Longrightarrow> map_of xs = map_of ys"
proof -
  assume a: "mset xs = mset ys" "distinct (map fst xs)"
  then have "distinct (map fst ys)" "set xs = set ys"
    by (metis mset_eq_imp_distinct_iff mset_map) (metis a(1) set_mset_mset)
  with a(2) show ?thesis by (simp add: map_of_inject_set)
qed

lemma same_json_lookup:
  assumes "same_json (JObj kvs) (JObj lvs)" "distinct (map fst kvs)"
  shows "rel_option same_json (map_of kvs k) (map_of lvs k)"
  using assms(1)
proof cases
  case same_refl
  then show ?thesis by (cases "map_of kvs k") (auto intro: same_json.same_refl)
next
  case (same_obj kvs')
  have "rel_option same_json (map_of kvs' k) (map_of lvs k)"
    using same_obj(2) by (induction rule: list_all2_induct) auto
  with map_of_permuted[OF same_obj(1) assms(2)] show ?thesis by simp
qed

locale key_order =
  fixes ord :: "(string \<times> 'n json) list \<Rightarrow> (string \<times> 'n json) list"
  assumes mset_ord: "mset (ord kvs) = mset kvs"
begin

lemma set_ord: "set (ord kvs) = set kvs"
  by (metis mset_ord set_mset_mset)

lemma plain_printable: "plain fin v \<Longrightarrow> printable fin (arrange ord v)"
proof (induction v)
  case (JObj kvs)
  then show ?case
    by (auto simp: list_all_iff set_ord snds.intros)
qed (auto simp: list_all_iff)

lemma arrange_JArr: "(arrange ord) w = JArr zs \<Longrightarrow> \<exists>ys. w = JArr ys \<and> zs = map (arrange ord) ys"
  by (cases w) simp_all

lemma arrange_JObj: "(arrange ord) w = JObj zs \<Longrightarrow>
    \<exists>lvs. w = JObj lvs \<and> zs = ord (map (\<lambda>kv. (fst kv, (arrange ord) (snd kv))) (sort_key fst lvs))"
  by (cases w) simp_all

lemma arrange_same: "(arrange ord) v = (arrange ord) w \<Longrightarrow> same_json v w"
proof (induction v arbitrary: w)
  case (JArr xs)
  obtain ys where w: "w = JArr ys" "map (arrange ord) xs = map (arrange ord) ys"
    using arrange_JArr[of w "map (arrange ord) xs"] JArr.prems by auto
  have "list_all2 same_json xs ys"
    unfolding list_all2_conv_all_nth
  proof (intro conjI allI impI)
    show len: "length xs = length ys" using w(2) by (rule map_eq_imp_length_eq)
    fix i assume i: "i < length xs"
    then have "(arrange ord) (xs ! i) = (arrange ord) (ys ! i)" using w(2) len by (metis nth_map)
    with JArr.IH i show "same_json (xs ! i) (ys ! i)" by simp
  qed
  with w(1) show ?case by (simp add: same_arr)
next
  case (JObj kvs)
  let ?g = "\<lambda>kv. (fst kv, (arrange ord) (snd kv))"
  obtain lvs where w: "w = JObj lvs"
    "ord (map ?g (sort_key fst kvs)) = ord (map ?g (sort_key fst lvs))"
    using arrange_JObj[OF JObj.prems[symmetric, unfolded arrange.simps]] by blast
  have "mset (map ?g (sort_key fst kvs)) = mset (map ?g (sort_key fst lvs))"
    using arg_cong[OF w(2), of mset] unfolding mset_ord .
  then have "mset (map ?g kvs) = mset (map ?g lvs)" by (simp only: mset_map mset_sort)
  then obtain kvs' where k: "mset kvs' = mset kvs" "map ?g kvs' = map ?g lvs"
    using map_eq_permutation[of ?g kvs "map ?g lvs"] by blast
  have len: "length kvs' = length lvs" using k(2) by (rule map_eq_imp_length_eq)
  have "fst (kvs' ! i) = fst (lvs ! i) \<and> same_json (snd (kvs' ! i)) (snd (lvs ! i))" if i: "i < length kvs'" for i
  proof -
    have g: "?g (kvs' ! i) = ?g (lvs ! i)"
      using k(2) i len by (metis (no_types, lifting) nth_map)
    have "kvs' ! i \<in> set kvs"
      using i k(1) by (metis nth_mem set_mset_mset)
    with JObj.IH[of "kvs' ! i" "snd (kvs' ! i)" "snd (lvs ! i)"] g show ?thesis
      by (simp add: snds.intros)
  qed
  then have "list_all2 (\<lambda>a b. fst a = fst b \<and> same_json (snd a) (snd b)) kvs' lvs"
    using len by (simp add: list_all2_conv_all_nth)
  then have "same_json (JObj kvs) (JObj lvs)"
    by (rule same_obj[OF k(1)[symmetric]])
  with w(1) show ?case by (simp only:)
next
  case (JNum n)
  then show ?case by (cases w) (simp_all add: same_refl)
next
  case (JStr s)
  then show ?case by (cases w) (simp_all add: same_refl)
next
  case (JBool b)
  then show ?case by (cases w) (simp_all add: same_refl)
next
  case JNull
  then show ?case by (cases w) (simp_all add: same_refl)
next
  case JUndef
  then show ?case by (cases w) (simp_all add: same_refl)
qed

lemma same_arrange: "same_json v w \<Longrightarrow> plain fin v \<Longrightarrow> (arrange ord) v = (arrange ord) w"
proof (induction rule: same_json.induct)
  case (same_arr xs ys)
  have "plain fin (xs ! i)" if "i < length xs" for i
    using same_arr.prems that by (simp add: list_all_length)
  then have "map (arrange ord) xs = map (arrange ord) ys"
    using same_arr.IH unfolding list_all2_conv_all_nth by (intro map_nth_eq) blast+
  then show ?case by simp
next
  case (same_obj kvs kvs' lvs)
  let ?g = "\<lambda>kv. (fst kv, (arrange ord) (snd kv))"
  have "set kvs' = set kvs" using same_obj.hyps(1) by (metis set_mset_mset)
  then have p: "plain fin (snd (kvs' ! i))" if "i < length kvs'" for i
    using same_obj.prems nth_mem[OF that] by (simp add: list_all_iff)
  have "map ?g kvs' = map ?g lvs"
    using same_obj.IH p unfolding list_all2_conv_all_nth by (intro map_nth_eq) simp_all
  moreover have comm: "map ?g (sort_key fst xs) = sort_key fst (map ?g xs)" for xs
    by (rule sort_key_map_fst[symmetric]) simp
  moreover have "sort_key fst kvs = sort_key fst kvs'"
    using same_obj.hyps(1) same_obj.prems by (intro sort_key_permuted) simp_all
  ultimately have "map ?g (sort_key fst kvs) = map ?g (sort_key fst lvs)"
    unfolding comm by (simp only: flip: comm) (simp only: comm)
  then show ?case by (simp only: arrange.simps)
qed simp

lemma text_same:
  assumes "number_format fin nt" "plain fin v" "plain fin w"
  shows "stringify nt (arrange ord v) = stringify nt (arrange ord w) \<longleftrightarrow> same_json v w"
proof -
  have "stringify nt (arrange ord v) = stringify nt (arrange ord w) \<Longrightarrow> arrange ord v = arrange ord w"
    using stringify_unique[OF assms(1) plain_printable[OF assms(2)] plain_printable[OF assms(3)], of "[]" "[]"]
    by (simp add: stops_def)
  then show ?thesis
    using arrange_same[of v w] same_arrange[OF _ assms(2), of w] by metis
qed

end

interpretation enum: key_order enumeration
  by unfold_locales (rule mset_enumeration)

interpretation kept: key_order "\<lambda>kvs. kvs"
  by unfold_locales (rule refl)

lemma sortDeep_plain: "plain fin v \<Longrightarrow> sortDeep fin v = Some (arrange enumeration v)"
proof (induction v)
  case (JArr xs)
  then show ?case by (auto simp: list_all_iff intro!: those_map_Some)
next
  case (JObj kvs)
  let ?g = "\<lambda>kv. (fst kv, arrange enumeration (snd kv))"
  have p: "fst kv \<noteq> ''__proto__'' \<and> plain fin (snd kv) \<and> sortDeep fin (snd kv) = Some (arrange enumeration (snd kv))"
    if "kv \<in> set kvs" for kv
    using JObj that by (simp add: list_all_iff snds.intros)
  have "\<forall>kv\<in>set (sort_key fst kvs). snd kv \<noteq> JUndef"
    using p by (auto dest: p)
  then have 1: "filter (\<lambda>kv. snd kv \<noteq> JUndef) (sort_key fst kvs) = sort_key fst kvs"
    by (simp only: filter_id_conv)
  have those: "those (map (\<lambda>kv. map_option (Pair (fst kv)) (sortDeep fin (snd kv))) (sort_key fst kvs)) = Some (map ?g (sort_key fst kvs))"
    using p by (intro those_map_Some) simp
  have "\<forall>kv\<in>set (map ?g (sort_key fst kvs)). fst kv \<noteq> ''__proto__''"
    using p by simp
  then have "filter (\<lambda>(k, v). k \<noteq> ''__proto__'') (map ?g (sort_key fst kvs)) = map ?g (sort_key fst kvs)"
    by (simp only: filter_id_conv case_prod_beta')
  with 1 those show ?case by (simp add: assign_all_def)
qed auto

text \<open>C24: on values without the key \<^verbatim>\<open>__proto__\<close>, two values have the same canonical text exactly when
  they are equal up to the order of object properties: the hashed text determines the value, and
  the order in which properties were written never changes a hash.\<close>

theorem canonicalJSON_determines:
  assumes "number_format fin nt" "plain fin v" "plain fin w"
  shows "canonicalJSON fin nt v \<noteq> None \<and> (canonicalJSON fin nt v = canonicalJSON fin nt w \<longleftrightarrow> same_json v w)"
  using enum.text_same[OF assms]
  by (simp add: canonicalJSON_def sortDeep_plain[OF assms(2)] sortDeep_plain[OF assms(3)])

fun dec_text :: "nat \<Rightarrow> string" where
  "dec_text n = replicate n (CHR ''1'') @ ''0''"

lemma dec_text_format: "number_format (\<lambda>_. True) dec_text"
  by (auto simp: number_format_def inj_on_def list_all_iff num_char_def is_digit_def dest: arg_cong[of _ _ length])

theorem canonicalJSON_determines_witness:
  "canonicalJSON (\<lambda>_. True) dec_text (JObj [(''b'', JNum 1), (''a'', JNull)]) =
   canonicalJSON (\<lambda>_. True) dec_text (JObj [(''a'', JNull), (''b'', JNum 1)])"
proof -
  have "number_format (\<lambda>_. True) dec_text" by (rule dec_text_format)
  moreover have "same_json (JObj [(''b'', JNum (1::nat)), (''a'', JNull)]) (JObj [(''a'', JNull), (''b'', JNum 1)])"
    by (rule same_obj[of _ "[(''a'', JNull), (''b'', JNum 1)]"]) (simp_all add: same_refl)
  ultimately show ?thesis
    using canonicalJSON_determines [of "\<lambda>_. True" dec_text "JObj [(''b'', JNum 1), (''a'', JNull)]" "JObj [(''a'', JNull), (''b'', JNum 1)]"]
    by simp
qed

lemma those_filter:
  "(\<And>x. x \<in> set xs \<Longrightarrow> \<not> P x \<Longrightarrow> f x \<noteq> None) \<Longrightarrow> (\<And>x y. f x = Some y \<Longrightarrow> Q y = P x) \<Longrightarrow>
    map_option (filter Q) (those (map f xs)) = those (map f (filter P xs))"
proof (induction xs)
  case (Cons x xs)
  then have ih: "map_option (filter Q) (those (map f xs)) = those (map f (filter P xs))" by simp
  show ?case
  proof (cases "f x")
    case None
    with Cons.prems(1)[of x] show ?thesis by auto
  next
    case (Some y)
    with Cons.prems(2)[OF Some] ih show ?thesis
      by (cases "P x"; cases "those (map f xs)"; auto simp flip: ih)
  qed
qed simp

definition keep_entries :: "('n \<Rightarrow> bool) \<Rightarrow> (string \<times> 'n json) list \<Rightarrow> (string \<times> 'n json) list option" where
  "keep_entries fin kvs = those (map (\<lambda>kv. map_option (Pair (fst kv)) (sortDeep fin (snd kv)))
     (filter (\<lambda>kv. snd kv \<noteq> JUndef) (sort_key fst (filter (\<lambda>kv. fst kv \<noteq> ''__proto__'') kvs))))"

lemma sortDeep_entries:
  assumes "\<And>kv. kv \<in> set kvs \<Longrightarrow> fst kv = ''__proto__'' \<Longrightarrow> sortDeep fin (snd kv) \<noteq> None"
  shows "sortDeep fin (JObj kvs) = map_option (JObj \<circ> enumeration) (keep_entries fin kvs)"
proof -
  let ?f = "\<lambda>kv. map_option (Pair (fst kv)) (sortDeep fin (snd kv))"
  let ?xs = "filter (\<lambda>kv. snd kv \<noteq> JUndef) (sort_key fst kvs)"
  have "map_option (filter (\<lambda>(k, v). k \<noteq> ''__proto__'')) (those (map ?f ?xs)) = those (map ?f (filter (\<lambda>kv. fst kv \<noteq> ''__proto__'') ?xs))"
    using assms by (intro those_filter) auto
  also have "filter (\<lambda>kv. fst kv \<noteq> ''__proto__'') ?xs =
      filter (\<lambda>kv. snd kv \<noteq> JUndef) (sort_key fst (filter (\<lambda>kv. fst kv \<noteq> ''__proto__'') kvs))"
    by (subst filter_sort[symmetric]) (simp add: conj_commute)
  finally have "map_option (filter (\<lambda>(k, v). k \<noteq> ''__proto__'')) (those (map ?f ?xs)) = keep_entries fin kvs"
    by (simp only: keep_entries_def)
  then show ?thesis
    by (simp only: sortDeep.simps flip: \<open>_ = keep_entries fin kvs\<close>) (simp add: option.map_comp comp_def assign_all_def)
qed

text \<open>C37: the key \<^verbatim>\<open>__proto__\<close> escapes the hash: adding such a property, with any value that can be
  serialised, anywhere among the properties of an object leaves its canonical text unchanged.\<close>

theorem canonicalJSON_ignores_proto:
  assumes "sortDeep fin x \<noteq> None" "''__proto__'' \<notin> fst ` set (as @ bs)"
  shows "canonicalJSON fin nt (JObj (as @ (''__proto__'', x) # bs)) = canonicalJSON fin nt (JObj (as @ bs))"
proof -
  have "sortDeep fin (JObj (as @ (''__proto__'', x) # bs)) = map_option (JObj \<circ> enumeration) (keep_entries fin (as @ (''__proto__'', x) # bs))"
    using assms by (intro sortDeep_entries) force
  moreover have "sortDeep fin (JObj (as @ bs)) = map_option (JObj \<circ> enumeration) (keep_entries fin (as @ bs))"
    using assms by (intro sortDeep_entries) force
  moreover have "keep_entries fin (as @ (''__proto__'', x) # bs) = keep_entries fin (as @ bs)"
    by (simp add: keep_entries_def)
  ultimately show ?thesis by (simp only: canonicalJSON_def)
qed

theorem canonicalJSON_ignores_proto_witness:
  "canonicalJSON (\<lambda>_. True) dec_text (JObj [(''amount'', JNum 3), (''__proto__'', JObj [(''note'', JStr ''forged'')])]) =
   canonicalJSON (\<lambda>_. True) dec_text (JObj [(''amount'', JNum 3)])"
  using canonicalJSON_ignores_proto [of "\<lambda>_. True" "JObj [(''note'', JStr ''forged'')]" "[(''amount'', JNum 3)]" "[]" dec_text]
  by simp

text \<open>Keys are not always in lexicographic order in the canonical text: array indices come first,
  in numeric order.\<close>

theorem canonicalJSON_index_order:
  "canonicalJSON (\<lambda>_. True) (\<lambda>n. if n then ''1'' else ''0'') (JObj [(''10'', JNum True), (''9'', JNum False)]) =
    Some (''{'' @ json_string ''9'' @ '':0,'' @ json_string ''10'' @ '':1}'')"
  by (simp add: canonicalJSON_def assign_all_def enumeration_def is_index_def dec_value_def is_digit_def)

end
