(* ===== verification/Gf256.thy ===== *)
theory Gf256
  imports Prelude
begin

text \<open>
  The arithmetic of \<^verbatim>\<open>web-studio/src/crypto/shamir.ts\<close>: bytes with exclusive or and the product
  modulo the AES polynomial. The loops of \<^verbatim>\<open>gfMul\<close> and \<^verbatim>\<open>gfInv\<close> are translated on 8-bit words, then
  proved to be the operations of a field, the type \<open>gf256\<close>, so that the algebra of the library
  applies to what the code computes.
\<close>

unbundle bit_operations_syntax

section \<open>The loops\<close>

fun gf_loop :: "nat \<Rightarrow> 8 word \<Rightarrow> 8 word \<Rightarrow> 8 word \<Rightarrow> 8 word" where
  "gf_loop 0 p a b = p"
| "gf_loop (Suc n) p a b =
     (let p' = (if b AND 1 \<noteq> 0 then p XOR a else p);
          hi = a AND 0x80;
          a1 = push_bit 1 a AND 0xff;
          a' = (if hi \<noteq> 0 then a1 XOR 0x1b else a1)
      in gf_loop n p' a' (drop_bit 1 b))"

definition gfMul :: "8 word \<Rightarrow> 8 word \<Rightarrow> 8 word" where
  "gfMul a b = gf_loop 8 0 a b"

fun inv_loop :: "nat \<Rightarrow> 8 word \<Rightarrow> 8 word \<Rightarrow> 8 word" where
  "inv_loop e result base =
     (if e > 0
      then inv_loop (e div 2) (if odd e then gfMul result base else result) (gfMul base base)
      else result)"

declare inv_loop.simps [simp del]

text \<open>\<^term>\<open>None\<close> is the error on zero.\<close>

definition gfInv :: "8 word \<Rightarrow> 8 word option" where
  "gfInv a = (if a = 0 then None else Some (inv_loop 254 1 a))"

section \<open>Doubling and exclusive sums\<close>

definition xtime :: "8 word \<Rightarrow> 8 word" where
  "xtime a = (if a AND 0x80 \<noteq> 0 then push_bit 1 a XOR 0x1b else push_bit 1 a)"

primrec xsum :: "(nat \<Rightarrow> 8 word) \<Rightarrow> nat \<Rightarrow> 8 word" where
  "xsum f 0 = 0"
| "xsum f (Suc n) = xsum f n XOR f n"

definition pick :: "bool \<Rightarrow> 8 word \<Rightarrow> 8 word" where
  "pick c a = (if c then a else 0)"

lemma pick_simps [simp]: "pick True a = a" "pick False a = 0" "pick c 0 = 0"
  by (simp_all add: pick_def)

lemma pick_xor: "pick c (a XOR b) = pick c a XOR pick c b" "pick (c \<noteq> d) a = pick c a XOR pick d a"
  by (auto simp: pick_def)

lemma pick_pick: "pick c (pick d a) = pick d (pick c a)"
  by (simp add: pick_def)

lemma xsum_xor: "xsum (\<lambda>i. f i XOR g i) n = xsum f n XOR xsum g n"
  by (induction n) (simp_all add: ac_simps)

lemma xsum_zero [simp]: "xsum (\<lambda>i. 0) n = 0"
  by (induction n) simp_all

lemma xsum_cong: "(\<And>i. i < n \<Longrightarrow> f i = g i) \<Longrightarrow> xsum f n = xsum g n"
  by (induction n) simp_all

lemma xsum_swap: "xsum (\<lambda>i. xsum (f i) m) n = xsum (\<lambda>j. xsum (\<lambda>i. f i j) n) m"
  by (induction n) (simp_all add: xsum_xor)

lemma xsum_head: "xsum f (Suc n) = f 0 XOR xsum (\<lambda>i. f (Suc i)) n"
  by (induction n) (simp_all add: ac_simps)

definition additive :: "(8 word \<Rightarrow> 8 word) \<Rightarrow> bool" where
  "additive T \<longleftrightarrow> T 0 = 0 \<and> (\<forall>a b. T (a XOR b) = T a XOR T b)"

lemma additive_xsum: "additive T \<Longrightarrow> T (xsum f n) = xsum (\<lambda>i. T (f i)) n"
  by (induction n) (auto simp: additive_def)

lemma additive_pick: "additive T \<Longrightarrow> T (pick c a) = pick c (T a)"
  by (auto simp: additive_def pick_def)

lemma additive_funpow: "additive T \<Longrightarrow> additive (T ^^ i)"
  by (induction i) (auto simp: additive_def)

lemma high_bit: "a AND 0x80 \<noteq> 0 \<longleftrightarrow> bit (a :: 8 word) 7"
  using and_exp_eq_0_iff_not_bit[of a 7] by simp

lemma xtime_bit: "xtime a = push_bit 1 a XOR pick (bit a 7) 0x1b"
  by (simp only: xtime_def high_bit) (simp add: pick_def)

lemma additive_xtime: "additive xtime"
  unfolding additive_def xtime_bit push_bit_xor bit_xor_iff pick_xor(2)
  by (simp only: ac_simps) simp

lemma low_bit: "(b :: 8 word) AND 1 \<noteq> 0 \<longleftrightarrow> bit b 0"
  by (auto simp: and_one_eq bit_0 odd_iff_mod_2_eq_one)

section \<open>The product as a bilinear sum\<close>

lemma gf_loop_sum: "gf_loop n p a b = p XOR xsum (\<lambda>i. pick (bit b i) ((xtime ^^ i) a)) n"
proof (induction n arbitrary: p a b)
  case (Suc n)
  have ff: "x AND 0xff = x" for x :: "8 word"
  proof -
    have "(0xff :: 8 word) = -1" by simp
    then show ?thesis by (simp only: and.right_neutral)
  qed
  have "gf_loop (Suc n) p a b = gf_loop n (p XOR pick (bit b 0) a) (xtime a) (drop_bit 1 b)"
    by (simp add: Let_def ff xtime_def low_bit[symmetric] pick_def del: bit_0)
  also have "\<dots> = p XOR (pick (bit b 0) a XOR xsum (\<lambda>i. pick (bit b (Suc i)) ((xtime ^^ Suc i) a)) n)"
    by (simp add: Suc bit_drop_bit_eq funpow_swap1 ac_simps)
  also have "\<dots> = p XOR xsum (\<lambda>i. pick (bit b i) ((xtime ^^ i) a)) (Suc n)"
    by (simp only: xsum_head) simp
  finally show ?case .
qed simp

lemma gfMul_sum: "gfMul a b = xsum (\<lambda>i. pick (bit b i) ((xtime ^^ i) a)) 8"
  by (simp add: gfMul_def gf_loop_sum)

lemma xtime_power: "i < 7 \<Longrightarrow> xtime (push_bit i 1) = push_bit (Suc i) 1"
proof -
  assume "i < 7"
  then have "\<not> bit (push_bit i 1 :: 8 word) 7" by (simp add: bit_simps)
  then show ?thesis by (simp only: xtime_bit pick_simps push_bit_push_bit) simp
qed

lemma powers_of_two: "i < 8 \<Longrightarrow> (xtime ^^ i) 1 = push_bit i 1"
proof (induction i)
  case (Suc i)
  then show ?case by (simp only: funpow.simps o_apply Suc_less_eq Suc_lessD xtime_power)
qed simp

lemma bits_sum: "n \<le> 8 \<Longrightarrow> j < n \<Longrightarrow> bit (xsum (\<lambda>i. pick (bit a i) (push_bit i 1)) n) j \<longleftrightarrow> bit a j"
  for a :: "8 word"
proof (induction n)
  case (Suc n)
  have low: "m \<le> k \<Longrightarrow> \<not> bit (xsum (\<lambda>i. pick (bit a i) (push_bit i 1)) m) k" for m k
    by (induction m) (auto simp: bit_simps pick_def simp del: push_bit_of_1)
  show ?case
  proof (cases "j = n")
    case True
    with Suc low[of n n] show ?thesis by (auto simp: bit_simps pick_def simp del: push_bit_of_1)
  next
    case False
    with Suc show ?thesis by (auto simp: bit_simps pick_def simp del: push_bit_of_1)
  qed
qed simp

lemma possible8: "possible_bit TYPE(8 word) n \<longleftrightarrow> n < 8"
  by simp

lemma byte_sum: "a = xsum (\<lambda>i. pick (bit a i) ((xtime ^^ i) 1)) 8"
proof -
  have "a = xsum (\<lambda>i. pick (bit a i) (push_bit i 1)) 8"
    by (rule bit_eqI) (simp only: bits_sum[OF order_refl] possible8)
  also have "\<dots> = xsum (\<lambda>i. pick (bit a i) ((xtime ^^ i) 1)) 8"
    by (rule xsum_cong) (simp only: powers_of_two)
  finally show ?thesis .
qed

lemmas additive_power = additive_funpow[OF additive_xtime]

lemma gfMul_double_sum:
  "gfMul a b = xsum (\<lambda>i. xsum (\<lambda>j. pick (bit b i) (pick (bit a j) ((xtime ^^ (i + j)) 1))) 8) 8"
proof -
  have "(xtime ^^ i) a = xsum (\<lambda>j. pick (bit a j) ((xtime ^^ (i + j)) 1)) 8" for i
    by (subst byte_sum[of a])
      (simp only: additive_xsum[OF additive_power] additive_pick[OF additive_power] funpow_add o_apply)
  moreover have "pick c (xsum f 8) = xsum (\<lambda>j. pick c (f j)) 8" for c f
    by (cases c) simp_all
  ultimately show ?thesis unfolding gfMul_sum by simp
qed

lemma gfMul_commute: "gfMul a b = gfMul b a"
  unfolding gfMul_double_sum
  by (subst xsum_swap) (simp only: pick_pick add.commute)

lemma gfMul_xor_left: "gfMul (a XOR b) c = gfMul a c XOR gfMul b c"
proof -
  have "(xtime ^^ i) (a XOR b) = (xtime ^^ i) a XOR (xtime ^^ i) b" for i
    using additive_power[of i] by (simp add: additive_def)
  then show ?thesis by (simp add: gfMul_sum pick_xor(1) xsum_xor)
qed

lemma gfMul_zero: "gfMul 0 a = 0"
  using gfMul_xor_left[of 0 0 a] by simp

lemma gfMul_one: "gfMul 1 a = a"
  using byte_sum[of a] by (simp add: gfMul_sum)

lemma additive_gfMul: "additive (gfMul a)"
  by (simp add: additive_def gfMul_zero gfMul_commute[of a] gfMul_xor_left)

lemma gfMul_xtime: "gfMul a ((xtime ^^ i) b) = (xtime ^^ i) (gfMul a b)"
proof (induction i)
  case (Suc i)
  have "gfMul (xtime c) a = xtime (gfMul c a)" for c
    by (simp add: gfMul_sum additive_xsum[OF additive_xtime] additive_pick[OF additive_xtime] funpow_swap1)
  then have "gfMul a (xtime c) = xtime (gfMul a c)" for c
    by (simp only: gfMul_commute[of a])
  with Suc show ?case by simp
qed simp

lemma gfMul_assoc: "gfMul (gfMul a b) c = gfMul a (gfMul b c)"
proof -
  have "gfMul (gfMul a b) c = xsum (\<lambda>i. pick (bit c i) (gfMul a ((xtime ^^ i) b))) 8"
    by (simp add: gfMul_sum[of "gfMul a b"] gfMul_xtime)
  also have "\<dots> = gfMul a (xsum (\<lambda>i. pick (bit c i) ((xtime ^^ i) b)) 8)"
    by (simp add: additive_xsum[OF additive_gfMul] additive_pick[OF additive_gfMul])
  finally show ?thesis by (simp add: gfMul_sum)
qed

section \<open>Powers of a generator\<close>

text \<open>The powers of 3, in order, reach every byte but zero.\<close>

definition exps :: "8 word list" where
  "exps = [
    1, 3, 5, 15, 17, 51, 85, 255, 26, 46, 114, 150, 161, 248, 19, 53, 95, 225, 56, 72, 216, 115,
    149, 164, 247, 2, 6, 10, 30, 34, 102, 170, 229, 52, 92, 228, 55, 89, 235, 38, 106, 190, 217,
    112, 144, 171, 230, 49, 83, 245, 4, 12, 20, 60, 68, 204, 79, 209, 104, 184, 211, 110, 178, 205,
    76, 212, 103, 169, 224, 59, 77, 215, 98, 166, 241, 8, 24, 40, 120, 136, 131, 158, 185, 208,
    107, 189, 220, 127, 129, 152, 179, 206, 73, 219, 118, 154, 181, 196, 87, 249, 16, 48, 80, 240,
    11, 29, 39, 105, 187, 214, 97, 163, 254, 25, 43, 125, 135, 146, 173, 236, 47, 113, 147, 174,
    233, 32, 96, 160, 251, 22, 58, 78, 210, 109, 183, 194, 93, 231, 50, 86, 250, 21, 63, 65, 195,
    94, 226, 61, 71, 201, 64, 192, 91, 237, 44, 116, 156, 191, 218, 117, 159, 186, 213, 100, 172,
    239, 42, 126, 130, 157, 188, 223, 122, 142, 137, 128, 155, 182, 193, 88, 232, 35, 101, 175,
    234, 37, 111, 177, 200, 67, 197, 84, 252, 31, 33, 99, 165, 244, 7, 9, 27, 45, 119, 153, 176,
    203, 70, 202, 69, 207, 74, 222, 121, 139, 134, 145, 168, 227, 62, 66, 198, 81, 243, 14, 18, 54,
    90, 238, 41, 123, 141, 140, 143, 138, 133, 148, 167, 242, 13, 23, 57, 75, 221, 124, 132, 151,
    162, 253, 28, 36, 108, 180, 199, 82, 246]"

definition logs :: "nat list" where
  "logs = [
    0, 25, 1, 50, 2, 26, 198, 75, 199, 27, 104, 51, 238, 223, 3, 100, 4, 224, 14, 52, 141, 129,
    239, 76, 113, 8, 200, 248, 105, 28, 193, 125, 194, 29, 181, 249, 185, 39, 106, 77, 228, 166,
    114, 154, 201, 9, 120, 101, 47, 138, 5, 33, 15, 225, 36, 18, 240, 130, 69, 53, 147, 218, 142,
    150, 143, 219, 189, 54, 208, 206, 148, 19, 92, 210, 241, 64, 70, 131, 56, 102, 221, 253, 48,
    191, 6, 139, 98, 179, 37, 226, 152, 34, 136, 145, 16, 126, 110, 72, 195, 163, 182, 30, 66, 58,
    107, 40, 84, 250, 133, 61, 186, 43, 121, 10, 21, 155, 159, 94, 202, 78, 212, 172, 229, 243,
    115, 167, 87, 175, 88, 168, 80, 244, 234, 214, 116, 79, 174, 233, 213, 231, 230, 173, 232, 44,
    215, 117, 122, 235, 22, 11, 245, 89, 203, 95, 176, 156, 169, 81, 160, 127, 12, 246, 111, 23,
    196, 73, 236, 216, 67, 31, 45, 164, 118, 123, 183, 204, 187, 62, 90, 251, 96, 177, 134, 59, 82,
    161, 108, 170, 85, 41, 157, 151, 178, 135, 144, 97, 190, 220, 252, 188, 149, 207, 205, 55, 63,
    91, 209, 83, 57, 132, 60, 65, 162, 109, 71, 20, 42, 158, 93, 86, 242, 211, 171, 68, 17, 146,
    217, 35, 32, 46, 137, 180, 124, 184, 38, 119, 153, 227, 165, 103, 74, 237, 222, 197, 49, 254,
    24, 13, 99, 140, 128, 192, 247, 112, 7]"

definition times3 :: "8 word \<Rightarrow> 8 word" where
  "times3 a = a XOR xtime a"

lemma times3_gfMul: "times3 a = gfMul 3 a"
proof -
  have "gfMul a 3 = xsum (\<lambda>i. pick (bit (3 :: 8 word) i) ((xtime ^^ i) a)) 8" by (rule gfMul_sum)
  also have "\<dots> = times3 a"
    by (simp add: eval_nat_numeral times3_def xor.commute)
  finally show ?thesis by (simp add: gfMul_commute)
qed

lemma exps_step: "map times3 exps = tl exps @ [1]"
  unfolding exps_def by (simp add: times3_def xtime_def)

lemma exps_cover: "map (\<lambda>n. exps ! n) logs = map word_of_nat [1..<256]"
  unfolding exps_def logs_def by (simp add: upt_rec)

primrec wpow :: "8 word \<Rightarrow> nat \<Rightarrow> 8 word" where
  "wpow a 0 = 1"
| "wpow a (Suc n) = gfMul a (wpow a n)"

lemma wpow_add: "wpow a (m + n) = gfMul (wpow a m) (wpow a n)"
  by (induction m) (simp_all add: gfMul_one gfMul_assoc)

lemma wpow_mult: "wpow (wpow a m) n = wpow a (m * n)"
  by (induction n) (simp_all add: wpow_add)

lemma wpow_one: "wpow 1 n = 1"
  by (induction n) (simp_all add: gfMul_one)

lemma length_exps: "length exps = 255"
  by (simp add: exps_def)

lemma exps_power: "k < 255 \<Longrightarrow> exps ! k = wpow 3 k"
proof (induction k)
  case 0
  then show ?case by (simp add: exps_def)
next
  case (Suc k)
  have "times3 (exps ! k) = (tl exps @ [1]) ! k"
    using Suc.prems exps_step by (metis Suc_lessD length_exps nth_map)
  also have "\<dots> = exps ! Suc k"
    using Suc.prems by (simp add: nth_append nth_tl length_exps)
  finally show ?case using Suc by (simp add: times3_gfMul)
qed

lemma generator_order: "wpow 3 255 = 1"
proof -
  have "times3 (exps ! 254) = (tl exps @ [1]) ! 254"
    using exps_step by (metis length_exps lessI nth_map numeral_eq_Suc pred_numeral_simps(2) eval_nat_numeral(2,3) Suc_eq_plus1)
  also have "\<dots> = 1" by (simp add: nth_append length_exps)
  finally have "gfMul 3 (wpow 3 254) = 1" by (simp add: times3_gfMul exps_power)
  moreover have "(255 :: nat) = Suc 254" by simp
  ultimately show ?thesis by (metis wpow.simps(2))
qed

lemma nonzero_power: "a \<noteq> 0 \<Longrightarrow> \<exists>k. a = wpow 3 k"
proof -
  assume "a \<noteq> 0"
  then have "unat a \<in> set [1..<256]"
    using unsigned_less[of a, where ?'a = nat] by (simp add: Suc_leI unat_gt_0)
  then have "a \<in> set (map word_of_nat [1..<256])"
    by (auto intro!: image_eqI[of _ _ "unat a"])
  then have "a \<in> (\<lambda>n. exps ! n) ` set logs"
    unfolding exps_cover[symmetric] by simp
  then obtain n where n: "n \<in> set logs" "a = exps ! n" by auto
  have "list_all (\<lambda>n. n < 255) logs" by (simp add: logs_def)
  with n have "n < 255" by (simp add: list_all_iff)
  with n exps_power show ?thesis by blast
qed

lemma gfMul_inverse: "a \<noteq> 0 \<Longrightarrow> gfMul (wpow a 254) a = 1"
proof -
  assume "a \<noteq> 0"
  then obtain k where a: "a = wpow 3 k" using nonzero_power by blast
  have "gfMul (wpow a 254) a = wpow a 255"
    using wpow_add[of a 254 1] by (simp add: gfMul_commute[of a] gfMul_one)
  also have "\<dots> = wpow (wpow 3 255) k"
    by (simp only: a wpow_mult mult.commute)
  finally show ?thesis by (simp add: generator_order wpow_one)
qed

section \<open>The field\<close>

typedef gf256 = "UNIV :: 8 word set" by simp

setup_lifting type_definition_gf256

instantiation gf256 :: field
begin

lift_definition zero_gf256 :: gf256 is 0 .
lift_definition one_gf256 :: gf256 is 1 .
lift_definition plus_gf256 :: "gf256 \<Rightarrow> gf256 \<Rightarrow> gf256" is "(XOR)" .
lift_definition minus_gf256 :: "gf256 \<Rightarrow> gf256 \<Rightarrow> gf256" is "(XOR)" .
lift_definition uminus_gf256 :: "gf256 \<Rightarrow> gf256" is "\<lambda>a. a" .
lift_definition times_gf256 :: "gf256 \<Rightarrow> gf256 \<Rightarrow> gf256" is gfMul .
lift_definition inverse_gf256 :: "gf256 \<Rightarrow> gf256" is "\<lambda>a. wpow a 254" .
lift_definition divide_gf256 :: "gf256 \<Rightarrow> gf256 \<Rightarrow> gf256" is "\<lambda>a b. gfMul a (wpow b 254)" .

instance
proof
  fix a b c :: gf256
  show "a * b * c = a * (b * c)" by transfer (rule gfMul_assoc)
  show "a * b = b * a" by transfer (rule gfMul_commute)
  show "1 * a = a" by transfer (rule gfMul_one)
  show "a + b + c = a + (b + c)" by transfer (simp add: xor.assoc)
  show "a + b = b + a" by transfer (simp add: xor.commute)
  show "0 + a = a" by transfer simp
  show "- a + a = 0" by transfer simp
  show "a - b = a + - b" by transfer simp
  show "(a + b) * c = a * c + b * c" by transfer (rule gfMul_xor_left)
  show "(0 :: gf256) \<noteq> 1" by transfer simp
  show "a \<noteq> 0 \<Longrightarrow> inverse a * a = 1" by transfer (rule gfMul_inverse)
  show "a div b = a * inverse b" by transfer simp
  have "wpow 0 (Suc 253) = 0" by (simp only: wpow.simps gfMul_zero)
  then show "inverse (0 :: gf256) = 0" by transfer simp
qed

end

definition gf :: "8 word \<Rightarrow> gf256" where "gf = Abs_gf256"
definition byte :: "gf256 \<Rightarrow> 8 word" where "byte = Rep_gf256"

lemmas gf_rep = plus_gf256.rep_eq minus_gf256.rep_eq uminus_gf256.rep_eq times_gf256.rep_eq
  inverse_gf256.rep_eq zero_gf256.rep_eq one_gf256.rep_eq Abs_gf256_inverse[OF UNIV_I]

lemma gf_byte [simp]: "gf (byte a) = a" "byte (gf b) = b"
  by (simp_all add: gf_def byte_def Rep_gf256_inverse gf_rep)

lemma gf_eq_iff: "a = b \<longleftrightarrow> byte a = byte b"
  by (simp add: byte_def Rep_gf256_inject)

lemma byte_ops: "byte (a + b) = byte a XOR byte b" "byte (a * b) = gfMul (byte a) (byte b)"
  "byte 0 = 0" "byte 1 = 1" "byte (inverse a) = wpow (byte a) 254"
  by (simp_all add: byte_def gf_rep)

lemma gf_inject [simp]: "gf a = gf b \<longleftrightarrow> a = b"
  by (simp add: gf_eq_iff)

lemma gf_ops: "gf (a XOR b) = gf a + gf b" "gf (gfMul a b) = gf a * gf b" "gf 0 = 0" "gf 1 = 1"
  by (simp_all add: gf_eq_iff byte_ops)

lemma gf_eq_0 [simp]: "gf a = 0 \<longleftrightarrow> a = 0"
  using gf_inject[of a 0] by (simp only: gf_ops)

lemma gf_minus: "a - b = a + b" "- a = a" for a b :: gf256
  by (simp_all add: gf_eq_iff byte_def gf_rep)

lemma gf_inv_loop: "gf (inv_loop e r b) = gf r * gf b ^ e"
proof (induction e r b rule: inv_loop.induct)
  case (1 e r b)
  show ?case
  proof (cases "e > 0")
    case True
    have e: "gf b ^ e = gf b ^ (e mod 2) * (gf b * gf b) ^ (e div 2)"
      by (simp add: power_add[symmetric] power2_eq_square[symmetric] power_mult[symmetric])
    show ?thesis
      using True 1 e by (simp add: inv_loop.simps[of e] gf_ops odd_iff_mod_2_eq_one)
  qed (simp add: inv_loop.simps)
qed

lemma gf_nonzero_order: "a \<noteq> 0 \<Longrightarrow> a ^ 254 = inverse (a :: gf256)"
proof -
  have "a ^ n = gf (wpow (byte a) n)" for n
    by (induction n) (simp_all add: gf_ops)
  moreover have "inverse a = gf (wpow (byte a) 254)" by (simp add: gf_eq_iff byte_ops)
  ultimately show ?thesis by simp
qed

lemma gfInv_nonzero: "a \<noteq> 0 \<Longrightarrow> gfInv a = Some (byte (inverse (gf a)))"
  using gf_inv_loop[of 254 1 a] gf_nonzero_order[of "gf a"]
  by (simp add: gfInv_def) (metis gf_byte(2) gf_ops(4) mult_1)

text \<open>The inversion loop returns the multiplicative inverse of every byte but zero, on which it
  fails.\<close>

theorem gfInv_inverse:
  "case gfInv a of None \<Rightarrow> a = 0 | Some b \<Rightarrow> b = byte (inverse (gf a)) \<and> gfMul a b = 1"
proof (cases "a = 0")
  case False
  then have "gf (gfMul a (byte (inverse (gf a)))) = gf 1" by (simp add: gf_ops)
  then have "gfMul a (byte (inverse (gf a))) = 1" unfolding gf_inject .
  with False show ?thesis by (simp add: gfInv_nonzero)
qed (simp add: gfInv_def)

end
