(* ===== verification/Interpolation.thy ===== *)
theory Interpolation
  imports Prelude
begin

text \<open>
  Polynomials over a field as coefficient lists, lowest degree first: the bound on their roots, and
  interpolation through as many points as there are coefficients. The secret sharing of the
  program rests on these two facts.
\<close>

primrec peval :: "'a::comm_ring_1 list \<Rightarrow> 'a \<Rightarrow> 'a" where
  "peval [] x = 0"
| "peval (c # cs) x = c + x * peval cs x"

lemma peval_replicate [simp]: "peval (replicate n 0) x = 0"
  by (induction n) simp_all

lemma peval_append_zeros [simp]: "peval (cs @ replicate n 0) x = peval cs x"
  by (induction cs) simp_all

lemma peval_at_0: "peval cs 0 = (case cs of [] \<Rightarrow> 0 | c # _ \<Rightarrow> c)"
  by (cases cs) simp_all

lemma peval_add: "length cs = length ds \<Longrightarrow> peval (map2 (+) cs ds) x = peval cs x + peval ds x"
  by (induction cs ds rule: list_induct2) (simp_all add: algebra_simps)

lemma peval_diff: "length cs = length ds \<Longrightarrow> peval (map2 (-) cs ds) x = peval cs x - peval ds x"
proof (induction cs ds rule: list_induct2)
  case (Cons c cs d ds)
  show ?case unfolding zip_Cons_Cons list.map case_prod_conv peval.simps Cons.IH by (simp add: algebra_simps)
qed simp

lemma peval_scale: "peval (map ((*) a) cs) x = a * peval cs x"
  by (induction cs) (simp_all add: algebra_simps)

section \<open>Roots\<close>

text \<open>Division by \<open>x - a\<close>.\<close>

fun sdiv :: "'a::comm_ring_1 \<Rightarrow> 'a list \<Rightarrow> 'a list" where
  "sdiv a [] = []"
| "sdiv a [c] = []"
| "sdiv a (c # d # ds) = peval (d # ds) a # sdiv a (d # ds)"

lemma length_sdiv [simp]: "length (sdiv a cs) = length cs - 1"
  by (induction a cs rule: sdiv.induct) simp_all

lemma peval_sdiv: "peval cs x - peval cs a = (x - a) * peval (sdiv a cs) x"
proof (induction a cs rule: sdiv.induct)
  case (3 a c d ds)
  let ?R = "peval (d # ds)"
  have "peval (c # d # ds) x - peval (c # d # ds) a = x * (?R x - ?R a) + (x - a) * ?R a"
    by (simp add: algebra_simps)
  also have "\<dots> = (x - a) * (?R a + x * peval (sdiv a (d # ds)) x)"
    unfolding 3 by (simp add: algebra_simps)
  finally show ?case by simp
qed simp_all

lemma sdiv_zeros:
  "sdiv a cs = replicate (length cs - 1) 0 \<Longrightarrow> peval cs a = 0 \<Longrightarrow> cs = replicate (length cs) 0"
  by (induction a cs rule: sdiv.induct) simp_all

lemma roots_zero:
  fixes cs :: "'a::field list"
  assumes "distinct xs" "length xs = length cs" "\<forall>x\<in>set xs. peval cs x = 0"
  shows "cs = replicate (length cs) 0"
  using assms
proof (induction xs arbitrary: cs)
  case (Cons a xs)
  have "peval (sdiv a cs) x = 0" if "x \<in> set xs" for x
  proof -
    have "(x - a) * peval (sdiv a cs) x = 0"
      using peval_sdiv[of cs x a] Cons.prems(3) that by simp
    moreover have "x \<noteq> a" using Cons.prems(1) that by auto
    ultimately show ?thesis by simp
  qed
  then have "sdiv a cs = replicate (length cs - 1) 0"
    using Cons.IH[of "sdiv a cs"] Cons.prems by simp
  then show ?case using Cons.prems(3) by (intro sdiv_zeros[of a]) simp_all
qed simp

lemma peval_unique:
  fixes cs ds :: "'a::field list"
  assumes "distinct xs" "length cs = length xs" "length ds = length xs"
    and "\<forall>x\<in>set xs. peval cs x = peval ds x"
  shows "cs = ds"
proof -
  let ?d = "map2 (-) cs ds"
  have "?d = replicate (length ?d) 0"
    using assms by (intro roots_zero[of xs]) (simp_all add: peval_diff)
  then have "\<forall>i<length xs. ?d ! i = 0" using assms by (metis length_map length_zip min.idem nth_replicate)
  then show ?thesis using assms by (intro nth_equalityI) auto
qed

section \<open>Interpolation\<close>

definition polyfn :: "nat \<Rightarrow> ('a::comm_ring_1 \<Rightarrow> 'a) \<Rightarrow> bool" where
  "polyfn n f \<longleftrightarrow> (\<exists>cs. length cs = n \<and> f = peval cs)"

lemma polyfn_zero: "polyfn n (\<lambda>x. 0)"
  unfolding polyfn_def by (intro exI[of _ "replicate n 0"]) auto

lemma polyfn_peval: "length cs = n \<Longrightarrow> polyfn n (peval cs)"
  by (auto simp: polyfn_def)

lemma polyfn_add: "polyfn n f \<Longrightarrow> polyfn n g \<Longrightarrow> polyfn n (\<lambda>x. f x + g x)"
proof -
  assume "polyfn n f" "polyfn n g"
  then obtain cs ds where "length cs = n" "f = peval cs" "length ds = n" "g = peval ds" by (auto simp: polyfn_def)
  then show ?thesis unfolding polyfn_def by (intro exI[of _ "map2 (+) cs ds"]) (auto simp: peval_add)
qed

lemma polyfn_scale: "polyfn n f \<Longrightarrow> polyfn n (\<lambda>x. a * f x)"
proof -
  assume "polyfn n f"
  then obtain cs where "length cs = n" "f = peval cs" by (auto simp: polyfn_def)
  then show ?thesis unfolding polyfn_def by (intro exI[of _ "map ((*) a) cs"]) (auto simp: peval_scale)
qed

lemma polyfn_linear: "polyfn n f \<Longrightarrow> polyfn (Suc n) (\<lambda>x. (x - a) * f x)"
proof -
  assume "polyfn n f"
  then obtain cs where cs: "length cs = n" "f = peval cs" by (auto simp: polyfn_def)
  have "polyfn (Suc n) (\<lambda>x. peval (0 # cs) x + (- a) * peval (cs @ replicate 1 0) x)"
    by (intro polyfn_add polyfn_scale polyfn_peval) (simp_all add: cs(1))
  moreover have "(x - a) * f x = peval (0 # cs) x + (- a) * peval (cs @ replicate 1 0) x" for x
    unfolding peval_append_zeros by (simp add: cs(2) algebra_simps)
  ultimately show ?thesis by simp
qed

lemma polyfn_prod: "polyfn (Suc (length xs)) (\<lambda>x. \<Prod>a\<leftarrow>xs. (x - a))"
proof (induction xs)
  case Nil
  then show ?case unfolding polyfn_def by (intro exI[of _ "[1]"]) auto
next
  case (Cons a xs)
  then show ?case using polyfn_linear[OF Cons, of a] by simp
qed

text \<open>The Lagrange weight of the point \<open>a\<close> among \<open>xs\<close>, at \<open>x\<close>.\<close>

definition weight :: "'a::field list \<Rightarrow> 'a \<Rightarrow> 'a \<Rightarrow> 'a" where
  "weight xs a x = (\<Prod>b\<leftarrow>remove1 a xs. (x - b)) / (\<Prod>b\<leftarrow>remove1 a xs. (a - b))"

definition interpolant :: "'a::field list \<Rightarrow> ('a \<Rightarrow> 'a) \<Rightarrow> 'a \<Rightarrow> 'a" where
  "interpolant xs v x = (\<Sum>a\<leftarrow>xs. v a * weight xs a x)"

lemma weight_poly: "a \<in> set xs \<Longrightarrow> polyfn (length xs) (weight xs a)"
proof -
  assume "a \<in> set xs"
  then have "Suc (length (remove1 a xs)) = length xs"
    using length_pos_if_in_set[of a xs] by (simp add: length_remove1)
  then have "polyfn (length xs) (\<lambda>x. inverse (\<Prod>b\<leftarrow>remove1 a xs. (a - b)) * (\<Prod>b\<leftarrow>remove1 a xs. (x - b)))"
    using polyfn_prod[of "remove1 a xs"] by (intro polyfn_scale) simp
  then show ?thesis unfolding weight_def by (simp add: field_simps)
qed

lemma weight_at:
  assumes "distinct xs" "a \<in> set xs" "x \<in> set xs"
  shows "weight xs a x = (if x = a then 1 else 0)"
proof (cases "x = a")
  case True
  then show ?thesis using assms by (auto simp: weight_def prod_list_zero_iff)
next
  case False
  then have "0 \<in> set (map ((-) x) (remove1 a xs))" using assms by auto
  then have "(\<Prod>b\<leftarrow>remove1 a xs. (x - b)) = 0" by (simp only: prod_list_zero_iff)
  then show ?thesis using False by (simp add: weight_def)
qed

lemma interpolant_poly: "polyfn (length xs) (interpolant xs v)"
proof -
  have "set ys \<subseteq> set xs \<Longrightarrow> polyfn (length xs) (\<lambda>x. \<Sum>a\<leftarrow>ys. v a * weight xs a x)" for ys
    by (induction ys) (auto intro!: polyfn_zero polyfn_add polyfn_scale weight_poly)
  then show ?thesis unfolding interpolant_def[abs_def] by blast
qed

lemma interpolant_at:
  assumes "distinct xs" "x \<in> set xs"
  shows "interpolant xs v x = v x"
proof -
  have "interpolant xs v x = (\<Sum>a\<leftarrow>xs. v a * (if x = a then 1 else 0))"
    unfolding interpolant_def
    by (intro arg_cong[where f = sum_list] map_cong refl) (simp only: weight_at[OF assms(1) _ assms(2)])
  also have "\<dots> = (\<Sum>a\<leftarrow>xs. if a = x then v x else 0)"
    by (intro arg_cong[where f = sum_list] map_cong) auto
  also have "\<dots> = v x"
    using assms by (simp add: sum_list_distinct_conv_sum_set)
  finally show ?thesis .
qed

lemma peval_interpolant:
  assumes "distinct xs" "length cs = length xs"
  shows "peval cs = interpolant xs (peval cs)"
proof -
  obtain ds where "length ds = length xs" "interpolant xs (peval cs) = peval ds"
    using interpolant_poly by (metis polyfn_def)
  with assms interpolant_at[OF assms(1)] show ?thesis
    using peval_unique[OF assms(1), of cs ds] by metis
qed

lemma interpolation_exists:
  assumes "distinct xs" "length ys = length xs"
  shows "\<exists>cs. length cs = length xs \<and> map (peval cs) xs = (ys :: 'a::field list)"
proof -
  obtain cs where "length cs = length xs" "interpolant xs (the \<circ> map_of (zip xs ys)) = peval cs"
    using interpolant_poly by (metis polyfn_def)
  moreover have "interpolant xs (the \<circ> map_of (zip xs ys)) (xs ! i) = ys ! i" if "i < length xs" for i
    using that assms interpolant_at[of xs "xs ! i"] map_of_zip_nth[of xs ys i] by simp
  ultimately show ?thesis using assms by (intro exI[of _ cs]) (auto intro: nth_equalityI)
qed

end
