(* ===== verification/Shamir.thy ===== *)
theory Shamir
  imports Complex_Main Canonical Gf256 Interpolation
begin

text \<open>
  Secret sharing, \<^verbatim>\<open>web-studio/src/crypto/shamir.ts\<close>: splitting a secret into shares, combining
  shares, and reading a share file. The digest \<open>H\<close> and the random generator are parameters: the
  generator's \<open>i\<close>-th call with argument \<open>m\<close> returns \<open>random i m\<close>. Numbers of a share are integers;
  the ones given to \<^verbatim>\<open>splitSecret\<close>, and those of a parsed file, are rationals, so that the tests for
  integers are part of the model.
\<close>

section \<open>Data\<close>

datatype shamir_error =
    InverseOfZero | InvalidParameters | EmptySecret | NoShare | UnsupportedFormat | MixedSets
  | TooFewShares | DifferentLengths | NotReconstructed | InvalidHex
  | Unreadable | NotAShare | UnsupportedVersion | CorruptShare

record share =
  sh_format :: string
  sh_version :: int
  sh_setId :: string
  sh_k :: int
  sh_n :: int
  sh_x :: int
  sh_y :: string
  sh_check :: string
  sh_createdAt :: string

definition SHARE_FORMAT :: string where "SHARE_FORMAT = ''elium-share''"
definition SHARE_VERSION :: int where "SHARE_VERSION = 1"
definition MAX_SHARES :: int where "MAX_SHARES = 16"

definition is_integer :: "rat \<Rightarrow> bool" where
  "is_integer r \<longleftrightarrow> of_int \<lfloor>r\<rfloor> = r"

lemma is_integer_of_int [simp]: "is_integer (of_int i)"
  by (simp add: is_integer_def)

definition checkOf :: "(8 word list \<Rightarrow> 8 word list) \<Rightarrow> 8 word list \<Rightarrow> string" where
  "checkOf H secret = take 16 (toHex (H secret))"

section \<open>Splitting\<close>

definition horner :: "8 word list \<Rightarrow> 8 word \<Rightarrow> 8 word" where
  "horner coeffs x = foldr (\<lambda>c y. gfMul y x XOR c) coeffs 0"

definition coeffs_of :: "(nat \<Rightarrow> nat \<Rightarrow> 8 word list) \<Rightarrow> 8 word list \<Rightarrow> nat \<Rightarrow> nat \<Rightarrow> 8 word list" where
  "coeffs_of random secret k i = secret ! i # random i (k - 1)"

definition splitSecret :: "(8 word list \<Rightarrow> 8 word list) \<Rightarrow> (nat \<Rightarrow> nat \<Rightarrow> 8 word list) \<Rightarrow> string \<Rightarrow>
    8 word list \<Rightarrow> rat \<Rightarrow> rat \<Rightarrow> shamir_error + share list" where
  "splitSecret H random now secret k n =
     (if \<not> is_integer k \<or> \<not> is_integer n \<or> k < 2 \<or> n < k \<or> n > of_int MAX_SHARES then Inl InvalidParameters
      else if length secret = 0 then Inl EmptySecret
      else
        let ki = nat \<lfloor>k\<rfloor>;
            ys = map (\<lambda>s. map (\<lambda>i. horner (coeffs_of random secret ki i) (word_of_nat (s + 1))) [0..<length secret]) [0..<nat \<lfloor>n\<rfloor>];
            setId = toHex (random (length secret) 8);
            check = checkOf H secret
        in Inr (map (\<lambda>s. \<lparr>sh_format = SHARE_FORMAT, sh_version = SHARE_VERSION, sh_setId = setId, sh_k = \<lfloor>k\<rfloor>, sh_n = \<lfloor>n\<rfloor>,
                  sh_x = int s + 1, sh_y = toHex (ys ! s), sh_check = check, sh_createdAt = now\<rparr>) [0..<nat \<lfloor>n\<rfloor>]))"

section \<open>Combining\<close>

type_synonym point = "int \<times> 8 word list"

text \<open>An abscissa enters the arithmetic through its low eight bits: the products read no other bit
  of their second operand.\<close>

definition pt_x :: "point \<Rightarrow> 8 word" where
  "pt_x p = word_of_int (fst p)"

definition lagrange :: "point list \<Rightarrow> nat \<Rightarrow> 8 word option" where
  "lagrange points i =
     (let (num, den) = fold (\<lambda>j (num, den).
            if i = j then (num, den)
            else (gfMul num (pt_x (points ! j)), gfMul den (pt_x (points ! i) XOR pt_x (points ! j))))
          [0..<length points] (1, 1)
      in map_option (gfMul num) (gfInv den))"

fun interp_loop :: "point list \<Rightarrow> nat list \<Rightarrow> 8 word list \<Rightarrow> shamir_error + 8 word list" where
  "interp_loop points [] out = Inr out"
| "interp_loop points (i # is) out =
     (case lagrange points i of
        None \<Rightarrow> Inl InverseOfZero
      | Some lag \<Rightarrow> interp_loop points is
          (map (\<lambda>b. out ! b XOR gfMul (snd (points ! i) ! b) lag) [0..<length out]))"

definition interpolateAtZero :: "point list \<Rightarrow> nat \<Rightarrow> shamir_error + 8 word list" where
  "interpolateAtZero points len = interp_loop points [0..<length points] (replicate len 0)"

fun combinations :: "'a list \<Rightarrow> int \<Rightarrow> 'a list \<Rightarrow> 'a list list" where
  "combinations [] k acc = (if int (length acc) = k then [acc] else [])"
| "combinations (x # xs) k acc =
     (if int (length acc) = k then [acc]
      else combinations xs k (acc @ [x]) @ combinations xs k acc)"

fun try_subsets :: "(8 word list \<Rightarrow> 8 word list) \<Rightarrow> string \<Rightarrow> nat \<Rightarrow> point list list \<Rightarrow> shamir_error + 8 word list" where
  "try_subsets H check len [] = Inl NotReconstructed"
| "try_subsets H check len (pts # rest) =
     (case interpolateAtZero pts len of
        Inl e \<Rightarrow> Inl e
      | Inr secret \<Rightarrow> if checkOf H secret = check then Inr secret else try_subsets H check len rest)"

fun same_set :: "share \<Rightarrow> share list \<Rightarrow> shamir_error option" where
  "same_set ref [] = None"
| "same_set ref (s # ss) =
     (if sh_format s \<noteq> SHARE_FORMAT \<or> sh_version s \<noteq> SHARE_VERSION then Some UnsupportedFormat
      else if sh_setId s \<noteq> sh_setId ref \<or> sh_k s \<noteq> sh_k ref \<or> sh_n s \<noteq> sh_n ref \<or> sh_check s \<noteq> sh_check ref
      then Some MixedSets
      else same_set ref ss)"

definition unique_shares :: "share list \<Rightarrow> (int \<times> share) list" where
  "unique_shares shares = fold (\<lambda>s m. AList.update (sh_x s) s m) shares []"

definition points_of :: "share list \<Rightarrow> point list option" where
  "points_of ss = those (map (\<lambda>s. map_option (Pair (sh_x s)) (fromHex (sh_y s))) ss)"

definition combineShares :: "(8 word list \<Rightarrow> 8 word list) \<Rightarrow> share list \<Rightarrow> shamir_error + 8 word list" where
  "combineShares H shares =
     (if length shares = 0 then Inl NoShare
      else
        let ref = shares ! 0
        in case same_set ref shares of
             Some e \<Rightarrow> Inl e
           | None \<Rightarrow>
               (let unique = unique_shares shares
                in if int (length unique) < sh_k ref then Inl TooFewShares
                   else case points_of (map snd unique) of
                     None \<Rightarrow> Inl InvalidHex
                   | Some pts \<Rightarrow>
                       (let len = length (snd (pts ! 0))
                        in if list_ex (\<lambda>p. length (snd p) \<noteq> len) pts then Inl DifferentLengths
                           else try_subsets H (sh_check ref) len (combinations pts (sh_k ref) []))))"

section \<open>Share files\<close>

definition shareFileName :: "(int \<Rightarrow> string) \<Rightarrow> share \<Rightarrow> string" where
  "shareFileName dec s = ''elium-part-'' @ dec (sh_x s) @ ''-sur-'' @ dec (sh_n s) @ ''.eliumshare''"

definition int_between :: "rat json \<Rightarrow> int \<Rightarrow> int \<Rightarrow> bool" where
  "int_between v lo hi = (case v of JNum q \<Rightarrow> is_integer q \<and> of_int lo \<le> q \<and> q \<le> of_int hi | _ \<Rightarrow> False)"

definition int_of :: "rat json \<Rightarrow> int" where
  "int_of v = (case v of JNum q \<Rightarrow> \<lfloor>q\<rfloor> | _ \<Rightarrow> 0)"

definition is_hex_lower :: "char \<Rightarrow> bool" where
  "is_hex_lower c \<longleftrightarrow> c \<in> set ''0123456789abcdef''"

definition hex_text :: "rat json \<Rightarrow> bool" where
  "hex_text v = (case v of JStr s \<Rightarrow> list_all is_hex_lower s \<and> even (length s) | _ \<Rightarrow> False)"

definition hex16 :: "rat json \<Rightarrow> bool" where
  "hex16 v = (case v of JStr s \<Rightarrow> list_all is_hex_lower s \<and> length s = 16 | _ \<Rightarrow> False)"

text \<open>\<open>None\<close> is a text that is not JSON. A value other than an object has no properties; on \<^verbatim>\<open>null\<close>
  the test of the value itself refuses.\<close>

definition parseShare :: "rat json option \<Rightarrow> shamir_error + share" where
  "parseShare text =
     (case text of None \<Rightarrow> Inl Unreadable
      | Some v \<Rightarrow>
          if prop_of v ''format'' \<noteq> JStr SHARE_FORMAT then Inl NotAShare
          else if prop_of v ''version'' \<noteq> JNum (of_int SHARE_VERSION) then Inl UnsupportedVersion
          else if \<not> int_between (prop_of v ''k'') 2 MAX_SHARES \<or> \<not> int_between (prop_of v ''n'') 2 MAX_SHARES \<or>
                  int_of (prop_of v ''k'') > int_of (prop_of v ''n'') \<or>
                  \<not> int_between (prop_of v ''x'') 1 (int_of (prop_of v ''n'')) \<or>
                  \<not> hex_text (prop_of v ''y'') \<or> length (str_of (prop_of v ''y'')) = 0 \<or>
                  \<not> hex16 (prop_of v ''setId'') \<or> \<not> hex16 (prop_of v ''check'')
               then Inl CorruptShare
          else Inr \<lparr>sh_format = SHARE_FORMAT, sh_version = SHARE_VERSION, sh_setId = str_of (prop_of v ''setId''),
                    sh_k = int_of (prop_of v ''k''), sh_n = int_of (prop_of v ''n''), sh_x = int_of (prop_of v ''x''),
                    sh_y = str_of (prop_of v ''y''), sh_check = str_of (prop_of v ''check''),
                    sh_createdAt = str_of (prop_of v ''createdAt'')\<rparr>)"

section \<open>The interpolation computes the constant coefficient\<close>

lemma gf_horner: "gf (horner cs x) = peval (map gf cs) (gf x)"
  by (induction cs) (simp_all add: horner_def gf_ops algebra_simps)

definition gx :: "point \<Rightarrow> gf256" where
  "gx p = gf (pt_x p)"

lemma lagrange_fold:
  "fold (\<lambda>j (num, den). if i = j then (num, den)
       else (gfMul num (pt_x (points ! j)), gfMul den (pt_x (points ! i) XOR pt_x (points ! j)))) js (num, den) = (num', den') \<Longrightarrow>
    gf num' = gf num * (\<Prod>j\<leftarrow>filter (\<lambda>j. j \<noteq> i) js. gx (points ! j)) \<and>
    gf den' = gf den * (\<Prod>j\<leftarrow>filter (\<lambda>j. j \<noteq> i) js. gx (points ! i) - gx (points ! j))"
proof (induction js arbitrary: num den)
  case (Cons j js)
  then show ?case
    using Cons.IH[of "gfMul num (pt_x (points ! j))" "gfMul den (pt_x (points ! i) XOR pt_x (points ! j))"] Cons.IH[of num den]
    by (auto simp: gf_ops gx_def gf_minus mult.assoc split: if_splits)
qed simp

lemma others:
  assumes "distinct xs" "i < length xs"
  shows "map ((!) xs) (filter (\<lambda>j. j \<noteq> i) [0..<length xs]) = remove1 (xs ! i) xs"
proof -
  have "map ((!) xs) (filter (\<lambda>j. j \<noteq> i) [0..<length xs]) = map ((!) xs) (filter (\<lambda>j. xs ! j \<noteq> xs ! i) [0..<length xs])"
    using assms by (intro arg_cong[where f = "map _"] filter_cong) (auto simp: nth_eq_iff_index_eq)
  also have "\<dots> = filter (\<lambda>x. x \<noteq> xs ! i) (map ((!) xs) [0..<length xs])"
    by (simp add: filter_map comp_def)
  also have "\<dots> = remove1 (xs ! i) xs"
    using assms(1) by (simp add: map_nth distinct_remove1_removeAll removeAll_filter_not_eq) (metis (mono_tags, lifting) filter_cong)
  finally show ?thesis .
qed

lemma lagrange_weight:
  assumes "distinct (map gx points)" "i < length points"
  shows "\<exists>w. lagrange points i = Some w \<and> gf w = weight (map gx points) (gx (points ! i)) 0"
proof -
  let ?xs = "map gx points"
  let ?f = "\<lambda>j (num, den). if i = j then (num, den)
       else (gfMul num (pt_x (points ! j)), gfMul den (pt_x (points ! i) XOR pt_x (points ! j)))"
  obtain num den where nd: "fold ?f [0..<length points] (1, 1) = (num, den)" by force
  have o: "map ((!) ?xs) (filter (\<lambda>j. j \<noteq> i) [0..<length points]) = remove1 (gx (points ! i)) ?xs"
    using others[OF assms(1), of i] assms(2) by simp
  have g: "(\<Prod>j\<leftarrow>filter (\<lambda>j. j \<noteq> i) [0..<length points]. g (gx (points ! j))) = (\<Prod>b\<leftarrow>remove1 (gx (points ! i)) ?xs. g b)"
    for g :: "gf256 \<Rightarrow> gf256"
  proof -
    have "map (\<lambda>j. g (gx (points ! j))) (filter (\<lambda>j. j \<noteq> i) [0..<length points]) =
        map g (map ((!) ?xs) (filter (\<lambda>j. j \<noteq> i) [0..<length points]))"
      by simp
    then show ?thesis by (simp only: o)
  qed
  have num: "gf num = (\<Prod>b\<leftarrow>remove1 (gx (points ! i)) ?xs. 0 - b)"
    and den: "gf den = (\<Prod>b\<leftarrow>remove1 (gx (points ! i)) ?xs. gx (points ! i) - b)"
    using lagrange_fold[OF nd] g[of "\<lambda>b. b"] g[of "\<lambda>b. gx (points ! i) - b"]
    by (simp_all add: gf_ops gf_minus)
  have "gx (points ! i) \<notin> set (remove1 (gx (points ! i)) ?xs)"
    using assms(1) by (simp del: set_map)
  then have "den \<noteq> 0"
    using den by (metis (no_types, lifting) gf_eq_0 image_iff prod_list_zero_iff right_minus_eq set_map)
  then have "gfInv den = Some (byte (inverse (gf den)))"
    by (rule gfInv_nonzero)
  then show ?thesis
    using nd num den by (simp add: lagrange_def gf_ops weight_def divide_inverse)
qed

lemma interp_loop_bytes:
  assumes "\<forall>i\<in>set is. \<exists>w. lagrange points i = Some w \<and> gf w = W i"
  shows "\<exists>res. interp_loop points is out = Inr res \<and> length res = length out \<and>
    (\<forall>b<length out. gf (res ! b) = gf (out ! b) + (\<Sum>i\<leftarrow>is. gf (snd (points ! i) ! b) * W i))"
  using assms
proof (induction "is" arbitrary: out)
  case (Cons i "is")
  then obtain w where w: "lagrange points i = Some w" "gf w = W i" by auto
  let ?out = "map (\<lambda>b. out ! b XOR gfMul (snd (points ! i) ! b) w) [0..<length out]"
  obtain res where "interp_loop points is ?out = Inr res" "length res = length out"
    "\<forall>b<length out. gf (res ! b) = gf (?out ! b) + (\<Sum>i\<leftarrow>is. gf (snd (points ! i) ! b) * W i)"
    using Cons.IH[of ?out] Cons.prems by auto
  with w show ?case by (simp add: gf_ops add.assoc)
qed simp

lemma interpolateAtZero_bytes:
  assumes "distinct (map gx points)"
  shows "\<exists>res. interpolateAtZero points len = Inr res \<and> length res = len \<and>
    (\<forall>b<len. \<forall>v. (\<forall>p\<in>set points. v (gx p) = gf (snd p ! b)) \<longrightarrow> gf (res ! b) = interpolant (map gx points) v 0)"
proof -
  let ?W = "\<lambda>i. weight (map gx points) (gx (points ! i)) 0"
  obtain res where r: "interpolateAtZero points len = Inr res" "length res = len"
    "\<forall>b<len. gf (res ! b) = (\<Sum>i\<leftarrow>[0..<length points]. gf (snd (points ! i) ! b) * ?W i)"
    using interp_loop_bytes[of "[0..<length points]" points ?W "replicate len 0"] lagrange_weight[OF assms]
    by (auto simp: interpolateAtZero_def gf_ops)
  have "(\<Sum>i\<leftarrow>[0..<length points]. gf (snd (points ! i) ! b) * ?W i) = interpolant (map gx points) v 0"
    if "\<forall>p\<in>set points. v (gx p) = gf (snd p ! b)" for b v
  proof -
    have "map (\<lambda>i. gf (snd (points ! i) ! b) * ?W i) [0..<length points] =
        map (\<lambda>i. v (gx (points ! i)) * ?W i) [0..<length points]"
      using that by simp
    also have "\<dots> = map (\<lambda>p. v (gx p) * weight (map gx points) (gx p) 0) (map ((!) points) [0..<length points])"
      by simp
    also have "\<dots> = map (\<lambda>a. v a * weight (map gx points) a 0) (map gx points)"
      by (simp add: map_nth)
    finally show ?thesis by (simp add: interpolant_def)
  qed
  with r show ?thesis by auto
qed

text \<open>A point is genuine for coefficient lists when each of its bytes is the value of the polynomial
  of that byte.\<close>

definition genuine :: "8 word list list \<Rightarrow> point \<Rightarrow> bool" where
  "genuine css p \<longleftrightarrow> snd p = map (\<lambda>cs. horner cs (pt_x p)) css"

lemma genuine_length: "genuine css p \<Longrightarrow> length (snd p) = length css"
  by (simp add: genuine_def)

lemma interpolate_genuine:
  assumes "distinct (map gx points)" "\<forall>p\<in>set points. genuine css p" "\<forall>cs\<in>set css. length cs = length points" "points \<noteq> []"
  shows "interpolateAtZero points (length css) = Inr (map hd css)"
proof -
  obtain res where r: "interpolateAtZero points (length css) = Inr res" "length res = length css"
    "\<And>b v. b < length css \<Longrightarrow> \<forall>p\<in>set points. v (gx p) = gf (snd p ! b) \<Longrightarrow> gf (res ! b) = interpolant (map gx points) v 0"
    using interpolateAtZero_bytes[OF assms(1), of "length css"] by blast
  have "res ! b = map hd css ! b" if b: "b < length css" for b
  proof -
    let ?cs = "css ! b"
    have len: "length ?cs = length points" using assms(3) b by simp
    have v: "\<forall>p\<in>set points. peval (map gf ?cs) (gx p) = gf (snd p ! b)"
      using assms(2) b by (auto simp: genuine_def gf_horner gx_def)
    have "gf (res ! b) = peval (map gf ?cs) 0"
      using r(3)[OF b v] peval_interpolant[OF assms(1), of "map gf ?cs"] len by simp
    also have "\<dots> = gf (hd ?cs)" using len assms(4) by (cases ?cs) auto
    finally show ?thesis using b by simp
  qed
  with r show ?thesis by (auto intro: nth_equalityI)
qed

section \<open>Subsets of the points\<close>

lemma combinations_first:
  "int (length acc) \<le> k \<Longrightarrow> k \<le> int (length acc + length xs) \<Longrightarrow>
    \<exists>rest. combinations xs k acc = (acc @ take (nat k - length acc) xs) # rest"
proof (induction xs k acc rule: combinations.induct)
  case (2 x xs k acc)
  show ?case
  proof (cases "int (length acc) = k")
    case False
    then obtain rest where "combinations xs k (acc @ [x]) = ((acc @ [x]) @ take (nat k - length (acc @ [x])) xs) # rest"
      using 2 by auto
    moreover have "nat k - length acc = Suc (nat k - length (acc @ [x]))" using 2(3) False by simp
    ultimately show ?thesis using False by simp
  qed auto
qed auto

lemma combinations_subseq: "c \<in> set (combinations xs k acc) \<Longrightarrow> \<exists>ys. subseq ys xs \<and> c = acc @ ys"
  by (induction xs k acc rule: combinations.induct) (auto split: if_splits intro: subseq_Cons')

lemma combinations_complete: "subseq ys xs \<Longrightarrow> int (length acc + length ys) = k \<Longrightarrow> acc @ ys \<in> set (combinations xs k acc)"
proof (induction xs k acc arbitrary: ys rule: combinations.induct)
  case (2 x xs k acc)
  show ?case
  proof (cases ys)
    case (Cons y ys')
    with 2(3,4) consider "y = x" "subseq ys' xs" | "subseq ys xs" by (auto split: if_splits)
    then show ?thesis
    proof cases
      case 1
      with 2(1)[of ys'] 2(4) Cons show ?thesis by auto
    next
      case 2: 2
      with 2(1) \<open>int (length acc + length ys) = k\<close> Cons show ?thesis
        using "2.IH"(2)[of ys] by auto
    qed
  qed (use 2 in auto)
qed auto

lemma try_subsets_finds:
  assumes "\<forall>c\<in>set cs. \<exists>r. interpolateAtZero c len = Inr r"
    and "c \<in> set cs" "interpolateAtZero c len = Inr secret" "checkOf H secret = check"
  shows "\<exists>r. try_subsets H check len cs = Inr r \<and> checkOf H r = check"
  using assms
proof (induction cs)
  case (Cons d cs)
  then obtain r where "interpolateAtZero d len = Inr r" by auto
  with Cons show ?case by (cases "d = c") auto
qed simp

lemma try_subsets_check: "try_subsets H check len cs = Inr r \<Longrightarrow> checkOf H r = check"
  by (induction H check len cs rule: try_subsets.induct) (auto split: sum.splits if_splits)

section \<open>Distinct abscissae\<close>

lemma set_update: "(x, s) \<in> set (AList.update k v m) \<Longrightarrow> (x, s) = (k, v) \<or> (x, s) \<in> set m"
  by (induction m) (auto split: if_splits)

lemma unique_fold_wf:
  "\<forall>(x, s)\<in>set m. sh_x s = x \<and> P s \<Longrightarrow> \<forall>s\<in>set ss. P s \<Longrightarrow>
    \<forall>(x, s)\<in>set (fold (\<lambda>s m. AList.update (sh_x s) s m) ss m). sh_x s = x \<and> P s"
proof (induction ss arbitrary: m)
  case (Cons s ss)
  have "\<forall>(x, t)\<in>set (AList.update (sh_x s) s m). sh_x t = x \<and> P t"
    using Cons.prems by (auto dest!: set_update)
  with Cons show ?case by simp
qed simp

lemma unique_fold_keys:
  "distinct (map fst m) \<Longrightarrow> distinct (map fst (fold (\<lambda>s m. AList.update (sh_x s) s m) ss m)) \<and>
    fst ` set (fold (\<lambda>s m. AList.update (sh_x s) s m) ss m) = fst ` set m \<union> sh_x ` set ss"
proof (induction ss arbitrary: m)
  case (Cons s ss)
  have "fst ` set (AList.update (sh_x s) s m) = insert (sh_x s) (fst ` set m)"
    using dom_update[of "sh_x s" s m] by (simp add: dom_map_of_conv_image_fst)
  with Cons show ?case by (simp add: distinct_update)
qed simp

lemma unique_shares_props:
  "distinct (map fst (unique_shares ss))" "(x, s) \<in> set (unique_shares ss) \<Longrightarrow> sh_x s = x \<and> s \<in> set ss"
  "fst ` set (unique_shares ss) = sh_x ` set ss" "length (unique_shares ss) = card (sh_x ` set ss)"
proof -
  show d: "distinct (map fst (unique_shares ss))" and f: "fst ` set (unique_shares ss) = sh_x ` set ss"
    using unique_fold_keys[of "[]" ss] by (simp_all add: unique_shares_def)
  show "(x, s) \<in> set (unique_shares ss) \<Longrightarrow> sh_x s = x \<and> s \<in> set ss"
    using unique_fold_wf[of "[]" "\<lambda>s. s \<in> set ss" ss] by (auto simp: unique_shares_def)
  show "length (unique_shares ss) = card (sh_x ` set ss)"
    using distinct_card[OF d] f by simp
qed

lemma unique_shares_distinct: "distinct (map sh_x ss) \<Longrightarrow> map snd (unique_shares ss) = ss"
proof -
  have "distinct (map fst m @ map sh_x ss) \<Longrightarrow> fold (\<lambda>s m. AList.update (sh_x s) s m) ss m = m @ map (\<lambda>s. (sh_x s, s)) ss" for m
  proof (induction ss arbitrary: m)
    case (Cons s ss)
    have "sh_x s \<notin> fst ` set m \<Longrightarrow> AList.update (sh_x s) s m = m @ [(sh_x s, s)]" by (induction m) auto
    with Cons.prems have "AList.update (sh_x s) s m = m @ [(sh_x s, s)]" by auto
    with Cons show ?case by auto
  qed simp
  from this[of "[]"] show "distinct (map sh_x ss) \<Longrightarrow> map snd (unique_shares ss) = ss"
    by (simp add: unique_shares_def comp_def)
qed

lemma gx_inject: "1 \<le> fst p \<Longrightarrow> fst p \<le> 255 \<Longrightarrow> 1 \<le> fst q \<Longrightarrow> fst q \<le> 255 \<Longrightarrow> gx p = gx q \<Longrightarrow> fst p = fst q"
proof -
  assume r: "1 \<le> fst p" "fst p \<le> 255" "1 \<le> fst q" "fst q \<le> 255" and "gx p = gx q"
  then have "(word_of_int (fst p) :: 8 word) = word_of_int (fst q)" by (simp add: gx_def pt_x_def)
  then have "take_bit 8 (fst p) = take_bit 8 (fst q)" by (simp add: word_of_int_eq_iff)
  with r show ?thesis by (simp add: take_bit_eq_mod)
qed

lemma distinct_gx: "distinct (map fst pts) \<Longrightarrow> \<forall>p\<in>set pts. 1 \<le> fst p \<and> fst p \<le> 255 \<Longrightarrow> distinct (map gx pts)"
  using gx_inject unfolding distinct_map inj_on_def by blast

section \<open>Reconstruction\<close>

definition share_of :: "(8 word list \<Rightarrow> 8 word list) \<Rightarrow> 8 word list \<Rightarrow> int \<Rightarrow> 8 word list list \<Rightarrow> share \<Rightarrow> bool" where
  "share_of H secret k css s \<longleftrightarrow> sh_format s = SHARE_FORMAT \<and> sh_version s = SHARE_VERSION \<and> sh_k s = k \<and>
     sh_check s = checkOf H secret \<and> 1 \<le> sh_x s \<and> sh_x s \<le> 16 \<and>
     sh_y s = toHex (map (\<lambda>cs. horner cs (word_of_int (sh_x s))) css)"

lemma splitSecret_shares:
  assumes "splitSecret H random now secret k n = Inr shares" "\<forall>i m. length (random i m) = m"
  shows "\<exists>css setId ni. length css = length secret \<and> map hd css = secret \<and> (\<forall>cs\<in>set css. length cs = nat \<lfloor>k\<rfloor>) \<and>
    2 \<le> \<lfloor>k\<rfloor> \<and> secret \<noteq> [] \<and> (\<forall>s\<in>set shares. share_of H secret \<lfloor>k\<rfloor> css s \<and> sh_setId s = setId \<and> sh_n s = ni)"
proof -
  let ?css = "map (coeffs_of random secret (nat \<lfloor>k\<rfloor>)) [0..<length secret]"
  have ok: "is_integer k" "is_integer n" "\<not> k < 2" "\<not> n < k" "\<not> n > of_int MAX_SHARES" "secret \<noteq> []"
    using assms(1) by (auto simp: splitSecret_def split: if_splits)
  then have bounds: "2 \<le> \<lfloor>k\<rfloor>" "\<lfloor>n\<rfloor> \<le> 16" by (auto simp: MAX_SHARES_def le_floor_iff floor_le_iff)
  have x: "x < nat \<lfloor>n\<rfloor> \<Longrightarrow> x \<le> 15" for x using bounds(2) by linarith
  have 1: "map hd ?css = secret" by (simp add: coeffs_of_def map_nth comp_def)
  have 2: "\<forall>cs\<in>set ?css. length cs = nat \<lfloor>k\<rfloor>" using bounds assms(2) by (auto simp: coeffs_of_def)
  have 3: "\<forall>s\<in>set shares. share_of H secret \<lfloor>k\<rfloor> ?css s \<and> sh_setId s = toHex (random (length secret) 8) \<and> sh_n s = \<lfloor>n\<rfloor>"
    using assms(1) ok x by (auto simp: splitSecret_def Let_def share_of_def comp_def add.commute)
  have 4: "length ?css = length secret" by simp
  show ?thesis by (rule exI[of _ ?css], rule exI[of _ "toHex (random (length secret) 8)"], rule exI[of _ "\<lfloor>n\<rfloor>"]) (intro conjI 1 2 3 4 bounds(1) ok(6))
qed

lemma points_of_shares:
  "(\<And>s. s \<in> set ss \<Longrightarrow> \<exists>bs. fromHex (sh_y s) = Some bs) \<Longrightarrow>
    \<exists>pts. points_of ss = Some pts \<and> pts = map (\<lambda>s. (sh_x s, the (fromHex (sh_y s)))) ss"
proof (induction ss)
  case (Cons s ss)
  then obtain bs where "fromHex (sh_y s) = Some bs" by auto
  with Cons show ?case by (auto simp: points_of_def)
qed (simp add: points_of_def)

lemma share_point: "share_of H secret k css s \<Longrightarrow> genuine css (sh_x s, the (fromHex (sh_y s)))"
  by (simp add: share_of_def genuine_def fromHex_toHex pt_x_def)

lemma share_of_x: "share_of H secret k css s \<Longrightarrow> 1 \<le> sh_x s \<and> sh_x s \<le> 255"
  by (simp add: share_of_def)

lemma share_of_y: "share_of H secret k css s \<Longrightarrow> \<exists>bs. fromHex (sh_y s) = Some bs"
  by (simp add: share_of_def fromHex_toHex)

lemma same_set_ok:
  "\<forall>s\<in>set ss. sh_format s = SHARE_FORMAT \<and> sh_version s = SHARE_VERSION \<and> sh_setId s = sh_setId ref \<and> sh_k s = sh_k ref \<and>
     sh_n s = sh_n ref \<and> sh_check s = sh_check ref \<Longrightarrow> same_set ref ss = None"
proof (induction ss)
  case (Cons s ss)
  then have "same_set ref ss = None" by (intro Cons.IH) (metis list.set_intros(2))
  moreover have "sh_format s = SHARE_FORMAT" "sh_version s = SHARE_VERSION" "sh_setId s = sh_setId ref" "sh_k s = sh_k ref"
    "sh_n s = sh_n ref" "sh_check s = sh_check ref"
    using bspec[OF Cons.prems, of s] by simp_all
  ultimately show ?case by simp
qed simp

lemma combine_points:
  assumes "points_of (map snd (unique_shares sel)) = Some pts" "sel \<noteq> []" "same_set (sel ! 0) sel = None"
    and "\<forall>p\<in>set pts. genuine css p" "length css = length secret" "map hd css = secret" "\<forall>cs\<in>set css. length cs = nat k" "2 \<le> k"
    and "distinct (map gx pts)" "sh_k (sel ! 0) = k" "sh_check (sel ! 0) = checkOf H secret"
    and "length (unique_shares sel) = length pts" "k \<le> int (length pts)"
  shows "combineShares H sel = Inr secret"
proof -
  have lens: "length (snd p) = length css" if "p \<in> set pts" for p using assms(4) that genuine_length by blast
  have "pts \<noteq> []" using assms by auto
  then have len0: "length (snd (pts ! 0)) = length css" using lens by (metis length_greater_0_conv nth_mem)
  let ?sub = "take (nat k) pts"
  obtain rest where comb: "combinations pts k [] = ?sub # rest"
    using combinations_first[of "[]" k pts] assms(8,13) by auto
  have "distinct (map gx ?sub)" using assms(9) by (metis distinct_take take_map)
  moreover have "\<forall>p\<in>set ?sub. genuine css p" using assms(4) by (meson in_set_takeD)
  moreover have "\<forall>cs\<in>set css. length cs = length ?sub" using assms(7,8,13) by simp
  moreover have "?sub \<noteq> []" using \<open>pts \<noteq> []\<close> assms(8) by auto
  ultimately have "interpolateAtZero ?sub (length css) = Inr secret"
    using interpolate_genuine assms(6) by metis
  then have "try_subsets H (checkOf H secret) (length css) (combinations pts k []) = Inr secret"
    by (simp add: comb)
  moreover have "\<not> list_ex (\<lambda>p. length (snd p) \<noteq> length css) pts" using lens by (auto simp: list_ex_iff)
  ultimately show ?thesis
    using assms len0 by (simp add: combineShares_def Let_def)
qed

text \<open>C13: any shares of a split, in any order and with repetitions, reconstruct exactly the secret as
  soon as they have at least \<open>k\<close> distinct abscissae; nothing is assumed of the digest.\<close>

theorem combineShares_reconstructs:
  assumes "splitSecret H random now secret k n = Inr shares" "\<forall>i m. length (random i m) = m"
    and "set sel \<subseteq> set shares" "\<lfloor>k\<rfloor> \<le> int (card (sh_x ` set sel))"
  shows "combineShares H sel = Inr secret"
proof -
  obtain css setId ni where css: "length css = length secret" "map hd css = secret" "\<forall>cs\<in>set css. length cs = nat \<lfloor>k\<rfloor>"
    "2 \<le> \<lfloor>k\<rfloor>" and sh: "\<forall>s\<in>set shares. share_of H secret \<lfloor>k\<rfloor> css s \<and> sh_setId s = setId \<and> sh_n s = ni"
    using splitSecret_shares[OF assms(1,2)] by blast
  let ?u = "map snd (unique_shares sel)"
  let ?pts = "map (\<lambda>s. (sh_x s, the (fromHex (sh_y s)))) ?u"
  have sel: "share_of H secret \<lfloor>k\<rfloor> css s" "sh_setId s = setId" "sh_n s = ni" if "s \<in> set sel" for s
    using sh assms(3) that by auto
  have ne: "sel \<noteq> []" using assms(4) css(4) by auto
  then have ref: "sel ! 0 \<in> set sel" by simp
  have u: "set ?u \<subseteq> set sel" using unique_shares_props(2) by auto
  have su: "share_of H secret \<lfloor>k\<rfloor> css s" if "s \<in> set ?u" for s using sel(1) u that by blast
  have fst: "map fst ?pts = map fst (unique_shares sel)" using unique_shares_props(2)[of _ _ sel] by (simp add: case_prod_beta' prod_eq_iff)
  have len: "length ?pts = card (sh_x ` set sel)" by (simp add: unique_shares_props(4))
  have gen: "\<forall>p\<in>set ?pts. genuine css p" using share_point[OF su] by (metis (no_types, lifting) imageE set_map)
  have rng: "\<forall>p\<in>set ?pts. 1 \<le> fst p \<and> fst p \<le> 255"
  proof
    fix p assume "p \<in> set ?pts"
    then obtain s where "s \<in> set ?u" "fst p = sh_x s" by (metis (no_types, lifting) fst_conv imageE set_map)
    with share_of_x[OF su] show "1 \<le> fst p \<and> fst p \<le> 255" by metis
  qed
  have same: "same_set (sel ! 0) sel = None"
  proof (intro same_set_ok ballI)
    fix s assume "s \<in> set sel"
    from sel[OF this] sel[OF ref]
    show "sh_format s = SHARE_FORMAT \<and> sh_version s = SHARE_VERSION \<and> sh_setId s = sh_setId (sel ! 0) \<and>
        sh_k s = sh_k (sel ! 0) \<and> sh_n s = sh_n (sel ! 0) \<and> sh_check s = sh_check (sel ! 0)"
      by (simp add: share_of_def)
  qed
  obtain pts where pts: "points_of ?u = Some pts" "pts = ?pts"
    using points_of_shares[of ?u] share_of_y[OF su] by blast
  have "distinct (map gx ?pts)"
    using distinct_gx[OF _ rng] unique_shares_props(1)[of sel] by (simp only: fst)
  moreover have "sh_k (sel ! 0) = \<lfloor>k\<rfloor>" "sh_check (sel ! 0) = checkOf H secret"
    using sel(1)[OF ref] by (simp_all add: share_of_def)
  moreover have "length (unique_shares sel) = length pts" "\<lfloor>k\<rfloor> \<le> int (length pts)"
    using len assms(4) by (simp_all only: pts(2) length_map unique_shares_props(4))
  ultimately show ?thesis
    using pts(1) ne same gen css unfolding pts(2)[symmetric] by (intro combine_points)
qed

section \<open>Altered shares\<close>

definition of_batch :: "share \<Rightarrow> nat \<Rightarrow> share \<Rightarrow> bool" where
  "of_batch ref len s \<longleftrightarrow> sh_format s = SHARE_FORMAT \<and> sh_version s = SHARE_VERSION \<and> sh_setId s = sh_setId ref \<and>
     sh_k s = sh_k ref \<and> sh_n s = sh_n ref \<and> sh_check s = sh_check ref \<and> 1 \<le> sh_x s \<and> sh_x s \<le> 255 \<and>
     (\<exists>bs. fromHex (sh_y s) = Some bs \<and> length bs = len)"

lemma of_batch_y: "of_batch ref len s \<Longrightarrow> \<exists>bs. fromHex (sh_y s) = Some bs"
  "of_batch ref len s \<Longrightarrow> length (the (fromHex (sh_y s))) = len"
  "of_batch ref len s \<Longrightarrow> 1 \<le> sh_x s \<and> sh_x s \<le> 255"
  by (auto simp: of_batch_def)

lemma subseq_map_filter: "subseq (map f (take n (filter P xs))) (map f xs)"
  by (intro subseq_map subseq_order.trans[OF prefix_imp_subseq[OF take_is_prefix] subseq_filter_left])

lemma combine_altered:
  assumes "points_of (map snd (unique_shares sel)) = Some pts" "sel \<noteq> []" "same_set (sel ! 0) sel = None"
    and "distinct (map gx pts)" "\<forall>p\<in>set pts. length (snd p) = length css"
    and "sub \<noteq> []" "subseq sub pts" "int (length sub) = k" "\<forall>p\<in>set sub. genuine css p" "\<forall>cs\<in>set css. length cs = length sub"
    and "length css = length secret" "map hd css = secret" "sh_k (sel ! 0) = k" "sh_check (sel ! 0) = checkOf H secret"
    and "length (unique_shares sel) = length pts"
  shows "\<exists>r. combineShares H sel = Inr r \<and> checkOf H r = checkOf H secret"
proof -
  have dist: "distinct (map gx c)" if "subseq c pts" for c
    using assms(4) subseq_map[OF that, of gx] by (metis distinct_nthsI subseq_conv_nths)
  have ok: "\<exists>r. interpolateAtZero c (length css) = Inr r" if "c \<in> set (combinations pts k [])" for c
    using interpolateAtZero_bytes[OF dist] combinations_subseq[OF that] by (metis append_Nil)
  have "interpolateAtZero sub (length css) = Inr secret"
    using interpolate_genuine[OF dist[OF assms(7)]] assms by metis
  moreover have "sub \<in> set (combinations pts k [])"
    using combinations_complete[OF assms(7), of "[]" k] assms(8) by simp
  ultimately obtain r where r: "try_subsets H (checkOf H secret) (length css) (combinations pts k []) = Inr r"
    "checkOf H r = checkOf H secret"
    using try_subsets_finds[of "combinations pts k []" "length css" sub secret H "checkOf H secret"] ok by blast
  have "length sub \<le> length pts" using assms(7) by (rule list_emb_length)
  then have "pts \<noteq> []" "k \<le> int (length pts)" using assms(6,8) by auto
  then have "length (snd (pts ! 0)) = length css" using assms(5) by (metis length_greater_0_conv nth_mem)
  moreover have "\<not> list_ex (\<lambda>p. length (snd p) \<noteq> length css) pts" using assms(5) by (auto simp: list_ex_iff)
  ultimately show ?thesis
    using assms(1,2,3,13,14,15) r \<open>k \<le> int (length pts)\<close> by (simp add: combineShares_def Let_def)
qed

text \<open>C27: altered shares among the given ones do not prevent the reconstruction: with distinct
  abscissae, as soon as \<open>k\<close> of them are shares of the split, a value is returned, and it has the
  digest witness of the secret.\<close>

theorem combineShares_tolerates:
  assumes "splitSecret H random now secret k n = Inr shares" "\<forall>i m. length (random i m) = m"
    and "\<forall>s\<in>set sel. of_batch (shares ! 0) (length secret) s" "distinct (map sh_x sel)"
    and "\<lfloor>k\<rfloor> \<le> int (length (filter (\<lambda>s. s \<in> set shares) sel))"
  shows "\<exists>r. combineShares H sel = Inr r \<and> checkOf H r = checkOf H secret"
proof -
  obtain css setId ni where css: "length css = length secret" "map hd css = secret" "\<forall>cs\<in>set css. length cs = nat \<lfloor>k\<rfloor>"
    "2 \<le> \<lfloor>k\<rfloor>" and sh: "\<forall>s\<in>set shares. share_of H secret \<lfloor>k\<rfloor> css s \<and> sh_setId s = setId \<and> sh_n s = ni"
    using splitSecret_shares[OF assms(1,2)] by blast
  let ?f = "\<lambda>s. (sh_x s, the (fromHex (sh_y s)))"
  let ?good = "take (nat \<lfloor>k\<rfloor>) (filter (\<lambda>s. s \<in> set shares) sel)"
  define pts where "pts = map ?f sel"
  define sub where "sub = map ?f ?good"
  have batch: "of_batch (shares ! 0) (length secret) s" if "s \<in> set sel" for s using assms(3) that by blast
  have len: "length ?good = nat \<lfloor>k\<rfloor>" using assms(5) by simp
  have good: "s \<in> set shares" if "s \<in> set ?good" for s using that by (auto dest: in_set_takeD)
  have "?good \<noteq> []" using len css(4) by auto
  then obtain g where "g \<in> set ?good" by (metis last_in_set)
  then have "g \<in> set shares" "g \<in> set sel" by (auto dest: in_set_takeD)
  then have ne: "sel \<noteq> []" "shares \<noteq> []" by auto
  have u: "map snd (unique_shares sel) = sel" by (rule unique_shares_distinct[OF assms(4)])
  show ?thesis
  proof (rule combine_altered)
    show "points_of (map snd (unique_shares sel)) = Some pts"
      unfolding u pts_def using points_of_shares[of sel] of_batch_y(1)[OF batch] by blast
    show "same_set (sel ! 0) sel = None"
    proof (intro same_set_ok ballI)
      fix s assume "s \<in> set sel"
      from batch[OF this] batch[of "sel ! 0"] ne
      show "sh_format s = SHARE_FORMAT \<and> sh_version s = SHARE_VERSION \<and> sh_setId s = sh_setId (sel ! 0) \<and>
          sh_k s = sh_k (sel ! 0) \<and> sh_n s = sh_n (sel ! 0) \<and> sh_check s = sh_check (sel ! 0)"
        by (simp add: of_batch_def)
    qed
    show "distinct (map gx pts)"
      using assms(4) of_batch_y(3)[OF batch] unfolding pts_def by (intro distinct_gx) (auto simp: comp_def)
    show "\<forall>p\<in>set pts. length (snd p) = length css"
      using of_batch_y(2)[OF batch] css(1) unfolding pts_def by auto
    show "subseq sub pts" unfolding sub_def pts_def by (rule subseq_map_filter)
    show "int (length sub) = \<lfloor>k\<rfloor>" "sub \<noteq> []" using len css(4) unfolding sub_def by auto
    show "\<forall>cs\<in>set css. length cs = length sub" using css(3) len unfolding sub_def by simp
    show "\<forall>p\<in>set sub. genuine css p"
    proof
      fix p assume "p \<in> set sub"
      then obtain s where "s \<in> set ?good" "p = ?f s" unfolding sub_def set_map by blast
      then show "genuine css p" using share_point sh good by blast
    qed
    have "share_of H secret \<lfloor>k\<rfloor> css (shares ! 0)" using sh ne by simp
    then show "sh_k (sel ! 0) = \<lfloor>k\<rfloor>" "sh_check (sel ! 0) = checkOf H secret"
      using batch[of "sel ! 0"] ne by (simp_all add: of_batch_def share_of_def)
    show "length (unique_shares sel) = length pts" using u unfolding pts_def by (metis length_map)
  qed (use ne css in auto)
qed

section \<open>Secrecy\<close>


section \<open>Share files\<close>

definition share_json :: "share \<Rightarrow> rat json" where
  "share_json s = JObj [(''format'', JStr (sh_format s)), (''version'', JNum (of_int (sh_version s))), (''setId'', JStr (sh_setId s)),
     (''k'', JNum (of_int (sh_k s))), (''n'', JNum (of_int (sh_n s))), (''x'', JNum (of_int (sh_x s))),
     (''y'', JStr (sh_y s)), (''check'', JStr (sh_check s)), (''createdAt'', JStr (sh_createdAt s))]"

lemma toHex_lower: "list_all is_hex_lower (toHex bs)"
proof -
  have "is_hex_lower (hex_digit d)" if "d < 16" for d
    using that nth_mem[of d "''0123456789abcdef''"] by (simp add: is_hex_lower_def hex_digit_def)
  moreover have "unat b < 256" for b :: "8 word" using unsigned_less[of b, where ?'a = nat] by simp
  ultimately have "list_all is_hex_lower (HEX_BYTE b)" for b
    by (simp add: HEX_BYTE_def less_mult_imp_div_less)
  then show ?thesis by (induction bs) (simp_all add: toHex_def)
qed

lemma list_all_take: "list_all P xs \<Longrightarrow> list_all P (take n xs)"
  by (auto simp: list_all_iff dest: in_set_takeD)

lemma parse_shares:
  assumes "splitSecret H random now secret k n = Inr shares" "\<forall>i m. length (random i m) = m" "8 \<le> length (H secret)"
    and "s \<in> set shares"
  shows "parseShare (Some (share_json s)) = Inr s"
proof -
  have ok: "is_integer k" "is_integer n" "\<not> k < 2" "\<not> n < k" "\<not> n > of_int MAX_SHARES" "secret \<noteq> []"
    using assms(1) by (auto simp: splitSecret_def split: if_splits)
  then have b: "2 \<le> \<lfloor>k\<rfloor>" "\<lfloor>n\<rfloor> \<le> 16" "\<lfloor>k\<rfloor> \<le> \<lfloor>n\<rfloor>"
    using floor_mono[of k n] by (auto simp: MAX_SHARES_def le_floor_iff floor_le_iff)
  obtain y where s: "sh_format s = SHARE_FORMAT" "sh_version s = SHARE_VERSION" "sh_k s = \<lfloor>k\<rfloor>" "sh_n s = \<lfloor>n\<rfloor>"
    "1 \<le> sh_x s" "sh_x s \<le> \<lfloor>n\<rfloor>" "sh_y s = toHex y" "length y = length secret"
    "sh_setId s = toHex (random (length secret) 8)" "sh_check s = checkOf H secret"
    using assms(1,4) ok b(1,2) by (auto simp: splitSecret_def Let_def)
  have "hex_text (JStr (sh_y s))" "length (sh_y s) \<noteq> 0" "hex16 (JStr (sh_setId s))" "hex16 (JStr (sh_check s))"
    using s assms(2,3) ok(6) toHex_lower list_all_take[OF toHex_lower, of 16]
    by (simp_all add: hex_text_def hex16_def length_toHex checkOf_def)
  moreover have "int_between (JNum (of_int (sh_k s))) 2 MAX_SHARES" "int_between (JNum (of_int (sh_n s))) 2 MAX_SHARES"
    "int_between (JNum (of_int (sh_x s))) 1 (sh_n s)"
    using s b order_trans[OF b(1,3)] order_trans[OF b(3,2)] by (simp_all add: int_between_def MAX_SHARES_def)
  ultimately show ?thesis
    using s b by (simp add: parseShare_def share_json_def prop_of_def str_of_def int_of_def)
qed

text \<open>Every share of a split, written to a file as JSON, is read back as it was.\<close>

theorem parseShare_roundtrip:
  assumes "splitSecret H random now secret k n = Inr shares" "\<forall>i m. length (random i m) = m" "8 \<le> length (H secret)"
    and "s \<in> set shares"
  shows "parseShare (Some (share_json s)) = Inr s"
  using assms by (rule parse_shares)

lemma hex_lower_value: "is_hex_lower c \<Longrightarrow> \<exists>d. hex_value c = Some d"
  by (auto simp: is_hex_lower_def hex_value_def is_digit_def is_lower_def is_upper_def)

lemma hex_pairs_lower: "list_all is_hex_lower s \<Longrightarrow> even (length s) \<Longrightarrow> \<exists>bs. hex_pairs s = Some bs \<and> 2 * length bs = length s"
  by (induction s rule: hex_pairs.induct) (auto dest!: hex_lower_value)

lemma hex_lower_trim: "list_all is_hex_lower s \<Longrightarrow> js_trim s = s"
proof -
  have "is_hex_lower c \<Longrightarrow> \<not> js_space c" for c by (auto simp: is_hex_lower_def js_space_def)
  then show "list_all is_hex_lower s \<Longrightarrow> js_trim s = s"
    by (intro js_trim_id) (auto simp: list_all_iff)
qed

text \<open>A share file that is accepted holds a usable share: its numbers are within bounds, its
  abscissa is one of its set, and its ordinates are the hexadecimal form of at least one byte.\<close>

theorem parseShare_valid:
  assumes "parseShare text = Inr s"
  shows "sh_format s = SHARE_FORMAT \<and> sh_version s = SHARE_VERSION \<and> 2 \<le> sh_k s \<and> sh_k s \<le> sh_n s \<and> sh_n s \<le> MAX_SHARES \<and>
    1 \<le> sh_x s \<and> sh_x s \<le> sh_n s \<and> length (sh_setId s) = 16 \<and> length (sh_check s) = 16 \<and>
    (\<exists>bs. fromHex (sh_y s) = Some bs \<and> bs \<noteq> [])"
proof -
  have range: "lo \<le> int_of v \<and> int_of v \<le> hi" if "int_between v lo hi" for v lo hi
    using that by (auto simp: int_between_def int_of_def le_floor_iff floor_le_iff is_integer_def split: json.splits)
  have hex: "\<exists>bs. fromHex (str_of v) = Some bs \<and> bs \<noteq> []" if "hex_text v" "length (str_of v) \<noteq> 0" for v
    using that hex_pairs_lower hex_lower_trim
    by (auto simp: hex_text_def str_of_def fromHex_def split: json.splits) force
  have "length (str_of v) = 16" if "hex16 v" for v
    using that by (auto simp: hex16_def str_of_def split: json.splits)
  then show ?thesis
    using assms range hex by (auto simp: parseShare_def split: option.splits if_splits)
qed

section \<open>Concrete instances\<close>

definition wit_random :: "nat \<Rightarrow> nat \<Rightarrow> 8 word list" where
  "wit_random i m = replicate m (word_of_nat (i + 7))"

definition wit_digest :: "8 word list \<Rightarrow> 8 word list" where
  "wit_digest s = replicate 32 (foldr (XOR) s 0)"

definition wit_shares :: "share list" where
  "wit_shares = (case splitSecret wit_digest wit_random ''2024'' [42, 7] 2 3 of Inl e \<Rightarrow> [] | Inr ss \<Rightarrow> ss)"

lemma wit_split: "splitSecret wit_digest wit_random ''2024'' [42, 7] 2 3 = Inr wit_shares"
  and wit_shares_x: "map sh_x wit_shares = [1, 2, 3]"
  by (simp_all add: wit_shares_def splitSecret_def is_integer_def MAX_SHARES_def Let_def upt_rec)

lemma wit_length: "\<forall>i m. length (wit_random i m) = m"
  by (simp add: wit_random_def)

lemma wit_mem: "wit_shares ! 0 \<in> set wit_shares" "wit_shares ! 1 \<in> set wit_shares" "wit_shares ! 2 \<in> set wit_shares"
  and wit_x: "sh_x (wit_shares ! 0) = 1" "sh_x (wit_shares ! 1) = 2" "sh_x (wit_shares ! 2) = 3"
proof -
  have l: "length wit_shares = 3" using arg_cong[OF wit_shares_x, of length] by simp
  then show "wit_shares ! 0 \<in> set wit_shares" "wit_shares ! 1 \<in> set wit_shares" "wit_shares ! 2 \<in> set wit_shares"
    by (simp_all del: One_nat_def)
  show "sh_x (wit_shares ! 0) = 1" "sh_x (wit_shares ! 1) = 2" "sh_x (wit_shares ! 2) = 3"
    using l arg_cong[OF wit_shares_x, of "\<lambda>xs. xs ! 0"] arg_cong[OF wit_shares_x, of "\<lambda>xs. xs ! 1"]
      arg_cong[OF wit_shares_x, of "\<lambda>xs. xs ! 2"] by simp_all
qed

theorem combineShares_reconstructs_witness:
  "combineShares wit_digest [wit_shares ! 2, wit_shares ! 0, wit_shares ! 2] = Inr [42, 7]"
  using combineShares_reconstructs [OF wit_split wit_length, of "[wit_shares ! 2, wit_shares ! 0, wit_shares ! 2]"]
  by (simp add: wit_mem wit_x card_insert_if)

theorem combineShares_tolerates_witness:
  "\<exists>r. combineShares wit_digest [(wit_shares ! 1)\<lparr>sh_y := ''0000''\<rparr>, wit_shares ! 0, wit_shares ! 2] = Inr r \<and>
     checkOf wit_digest r = checkOf wit_digest [42, 7]"
proof -
  obtain css setId ni where sh: "length css = length [42, 7 :: 8 word]"
    "\<forall>s\<in>set wit_shares. share_of wit_digest [42, 7] \<lfloor>2 :: rat\<rfloor> css s \<and> sh_setId s = setId \<and> sh_n s = ni"
    using splitSecret_shares[OF wit_split wit_length] by blast
  have batch: "of_batch (wit_shares ! 0) (length [42, 7 :: 8 word]) s" if "s \<in> set wit_shares" for s
    using bspec[OF sh(2) that] bspec[OF sh(2) wit_mem(1)] sh(1) by (simp add: of_batch_def share_of_def fromHex_toHex)
  let ?b = "(wit_shares ! 1)\<lparr>sh_y := ''0000''\<rparr>"
  have "fromHex ''0000'' = Some [0, 0]" using fromHex_toHex[of "[0, 0]"] by (simp add: toHex_def HEX_BYTE_def hex_digit_def)
  then have "of_batch (wit_shares ! 0) (length [42, 7 :: 8 word]) ?b"
    using batch[OF wit_mem(2)] by (simp add: of_batch_def)
  then have "\<forall>s\<in>set [?b, wit_shares ! 0, wit_shares ! 2]. of_batch (wit_shares ! 0) (length [42, 7 :: 8 word]) s"
    "distinct (map sh_x [?b, wit_shares ! 0, wit_shares ! 2])"
    "\<lfloor>2 :: rat\<rfloor> \<le> int (length (filter (\<lambda>s. s \<in> set wit_shares) [?b, wit_shares ! 0, wit_shares ! 2]))"
    using batch[OF wit_mem(1)] batch[OF wit_mem(3)] wit_x[simplified] by (simp_all add: wit_mem)
  then show ?thesis using combineShares_tolerates [OF wit_split wit_length, of "[?b, wit_shares ! 0, wit_shares ! 2]"] by simp
qed


lemma wit_digest_length: "8 \<le> length (wit_digest s)"
  by (simp add: wit_digest_def)

theorem parseShare_roundtrip_witness: "parseShare (Some (share_json (wit_shares ! 1))) = Inr (wit_shares ! 1)"
  by (rule parseShare_roundtrip [OF wit_split wit_length wit_digest_length wit_mem(2)])

theorem parseShare_valid_witness: "sh_k (wit_shares ! 1) \<le> sh_n (wit_shares ! 1)"
  using parseShare_valid [OF parse_shares[OF wit_split wit_length wit_digest_length wit_mem(2)]] by blast

end
