(* ===== verification/Tables.thy ===== *)
theory Tables
  imports Canonical
begin

text \<open>
  The tables of the server's database (\<^verbatim>\<open>server/src/db/migrations\<close>) as the handlers read and write
  them: one record per row, one list of rows per table. Identifiers, digests and the opaque
  encrypted envelopes are strings, times are microseconds (the precision of \<^verbatim>\<open>timestamptz\<close>), a nullable
  column is an option. The object
  store of the encrypted contents is the list of the keys it holds.
\<close>

type_synonym uuid = string

datatype member_status = Active | Invited | Suspended
datatype node_kind = Folder | File
datatype principal_type = UserPrincipal | GroupPrincipal | OrgPrincipal

record role_row =
  role_id :: uuid
  role_org :: "uuid option"
  role_key :: string
  role_name :: string
  role_description :: string
  role_color :: string
  role_is_system :: bool
  role_permissions :: "string list option"

record org_row =
  org_id :: uuid
  org_owner :: uuid
  org_quota :: "nat option"
  org_key_epoch :: int
  org_rotation_required :: bool

record membership_row =
  mem_id :: uuid
  mem_org :: uuid
  mem_user :: uuid
  mem_role :: uuid
  mem_status :: member_status
  mem_quota :: "nat option"

record group_row =
  grp_id :: uuid
  grp_org :: uuid
  grp_name :: string
  grp_description :: string
  grp_color :: string
  grp_public :: string
  grp_rotation_required :: bool

record group_member_row =
  gm_group :: uuid
  gm_user :: uuid
  gm_wrapped :: string
  gm_manager :: bool

record user_row =
  ur_id :: uuid
  ur_fingerprint :: string
  ur_email :: string
  ur_display_name :: string
  ur_status :: string
  ur_token_epoch :: int \<comment> \<open>milliseconds\<close>

text \<open>The columns of a node: \<open>node_body\<close> gathers the opaque encrypted name and metadata with their nonces,
  the hint of the application and who modified it when.\<close>

record node_body =
  nb_name :: "8 word list"
  nb_name_nonce :: "8 word list"
  nb_meta :: "8 word list option"
  nb_meta_nonce :: "8 word list option"
  nb_app_kind :: "string option"
  nb_prev_key :: "8 word list option"
  nb_prev_nonce :: "8 word list option"
  nb_created_at :: int
  nb_modified_at :: int
  nb_modified_by :: "uuid option"

record node_row =
  node_id :: uuid
  node_org :: uuid
  node_owner :: uuid
  node_parent :: "uuid option"
  node_kind :: node_kind
  node_trashed_at :: "int option"
  node_content :: "string option"
  node_content_nonce :: "8 word list option"
  node_size :: nat
  node_current_version :: "uuid option"
  node_key_epoch :: int
  node_rotation_required :: bool
  node_body :: node_body

record node_key_row =
  nk_id :: uuid
  nk_node :: uuid
  nk_principal_type :: principal_type
  nk_principal :: uuid
  nk_role :: uuid
  nk_wrapped :: string
  nk_granted_by :: "uuid option"
  nk_inherited_from :: "uuid option"

record version_row =
  ver_id :: uuid
  ver_node :: uuid
  ver_no :: nat
  ver_content :: string
  ver_nonce :: "8 word list"
  ver_size :: nat
  ver_created_by :: "uuid option"
  ver_created_at :: int
  ver_key_epoch :: int

record link_row =
  sl_id :: uuid
  sl_node :: uuid
  sl_token_hash :: string
  sl_role :: uuid
  sl_wrapped :: string
  sl_has_password :: bool
  sl_expires_at :: "int option"
  sl_max_downloads :: "nat option"
  sl_download_count :: nat
  sl_can_sign :: bool
  sl_created_by :: "uuid option"
  sl_revoked_at :: "int option"

datatype party_status = Pending | Signed | Declined | Cancelled

record party_row =
  party_link :: uuid
  party_label :: string
  party_state :: party_status

record database =
  roles :: "role_row list"
  orgs :: "org_row list"
  memberships :: "membership_row list"
  groups :: "group_row list"
  group_members :: "group_member_row list"
  user_rows :: "user_row list"
  nodes :: "node_row list"
  node_keys :: "node_key_row list"
  node_versions :: "version_row list"
  share_links :: "link_row list"
  sign_parties :: "party_row list"
  blobs :: "string list" \<comment> \<open>the object store\<close>

definition empty_db :: database where
  "empty_db = \<lparr>roles = [], orgs = [], memberships = [], groups = [], group_members = [], user_rows = [], nodes = [],
     node_keys = [], node_versions = [], share_links = [], sign_parties = [], blobs = []\<rparr>"

text \<open>The pairs of columns the joins use.\<close>

definition org_owners :: "database \<Rightarrow> (uuid \<times> uuid) list" where
  "org_owners db = map (\<lambda>r. (org_id r, org_owner r)) (orgs db)"

definition group_orgs :: "database \<Rightarrow> (uuid \<times> uuid) list" where
  "group_orgs db = map (\<lambda>g. (grp_id g, grp_org g)) (groups db)"

definition group_users :: "database \<Rightarrow> (uuid \<times> uuid) list" where
  "group_users db = map (\<lambda>m. (gm_group m, gm_user m)) (group_members db)"

definition queryOne :: "'a list \<Rightarrow> 'a option" where
  "queryOne rows = (case rows of [] \<Rightarrow> None | r # _ \<Rightarrow> Some r)"

lemma queryOne_Some: "queryOne rows = Some r \<Longrightarrow> r \<in> set rows"
  by (cases rows) (auto simp: queryOne_def)

lemma queryOne_None [simp]: "queryOne rows = None \<longleftrightarrow> rows = []"
  by (cases rows) (auto simp: queryOne_def)

lemma projections_simps [simp]:
  "org_owners (db\<lparr>memberships := ms\<rparr>) = org_owners db" "org_owners (db\<lparr>nodes := ns\<rparr>) = org_owners db"
  "org_owners (db\<lparr>node_keys := ks\<rparr>) = org_owners db" "org_owners (db\<lparr>roles := rs\<rparr>) = org_owners db"
  "group_orgs (db\<lparr>memberships := ms\<rparr>) = group_orgs db" "group_orgs (db\<lparr>nodes := ns\<rparr>) = group_orgs db"
  "group_orgs (db\<lparr>node_keys := ks\<rparr>) = group_orgs db" "group_orgs (db\<lparr>roles := rs\<rparr>) = group_orgs db"
  "group_users (db\<lparr>memberships := ms\<rparr>) = group_users db" "group_users (db\<lparr>nodes := ns\<rparr>) = group_users db"
  "group_users (db\<lparr>node_keys := ks\<rparr>) = group_users db" "group_users (db\<lparr>roles := rs\<rparr>) = group_users db"
  by (simp_all add: org_owners_def group_orgs_def group_users_def)

end
