(* ===== verification/Recursive_Query.thy ===== *)
theory Recursive_Query
  imports Main
begin

text \<open>
  What \<^verbatim>\<open>WITH RECURSIVE ... UNION\<close> computes. The queries over the tree of nodes evaluate a working table:
  each round joins it with the nodes and keeps the rows not yet produced. The contract is that a
  round yields the successors of the working table not yet in the result; then the query returns
  what is reachable from its first rows, whatever the shape of the relation.
\<close>

locale recursive_query =
  fixes rec :: "'r list \<Rightarrow> 'r list \<Rightarrow> 'r list"
    and round :: "'r list \<Rightarrow> 'r list \<Rightarrow> 'r list"
    and succs :: "('r \<times> 'r) set"
  assumes rec_eq: "rec R W = (if W = [] then R else rec (R @ round R W) (round R W))"
    and set_round: "set (round R W) = succs `` set W - set R"
    and finite_succs: "finite (Range succs)"
begin

lemma set_rec:
  "set W \<subseteq> set R \<Longrightarrow> succs `` (set R - set W) \<subseteq> set R \<Longrightarrow> set (rec R W) = succs\<^sup>* `` set R"
proof (induction "card (Range succs - set R)" arbitrary: R W rule: less_induct)
  case less
  let ?N = "round R W"
  show ?case
  proof (cases "W = []")
    case True
    with less.prems have "succs\<^sup>* `` set R = set R" by (intro Image_closed_trancl) auto
    with True show ?thesis by (subst rec_eq) simp
  next
    case W: False
    have closed: "succs `` (set (R @ ?N) - set ?N) \<subseteq> set (R @ ?N)"
      using less.prems(2) by (auto simp: set_round)
    have rec: "set (rec (R @ ?N) ?N) = succs\<^sup>* `` set (R @ ?N)"
    proof (cases "?N = []")
      case True
      then have "succs `` set R \<subseteq> set R"
        using less.prems(2) set_round[of R W] by auto
      then have "succs\<^sup>* `` set R = set R" by (intro Image_closed_trancl) auto
      with True show ?thesis by (subst rec_eq) simp
    next
      case False
      then obtain x where "x \<in> set ?N" by (cases ?N) auto
      then have "x \<in> Range succs" "x \<notin> set R" by (auto simp: set_round)
      then have "Range succs - set (R @ ?N) \<subset> Range succs - set R"
        using \<open>x \<in> set ?N\<close> by auto
      then have "card (Range succs - set (R @ ?N)) < card (Range succs - set R)"
        by (intro psubset_card_mono) (auto simp: finite_succs)
      from less.hyps[OF this _ closed] show ?thesis by simp
    qed
    have "succs\<^sup>* `` set (R @ ?N) = succs\<^sup>* `` set R"
      using less.prems(1) by (auto simp: set_round intro: converse_rtrancl_into_rtrancl)
    with rec W show ?thesis by (subst rec_eq) simp
  qed
qed

lemma query: "set (rec start start) = succs\<^sup>* `` set start"
  by (rule set_rec) auto

end

end
