(* ===== verification/Rbac.thy ===== *)
theory Rbac
  imports Tables Recursive_Query
begin

text \<open>
  Authorisation on the server: the permission catalogue and role templates
  (\<^verbatim>\<open>server/src/rbac/permissions.ts\<close>, \<^verbatim>\<open>roles.ts\<close>), the resolution of organisation and node
  permissions (\<^verbatim>\<open>server/src/rbac/engine.ts\<close>) and the guards of the route handlers
  (\<^verbatim>\<open>server/src/middleware/auth.ts\<close>). The database is a record of row lists; each SQL query is
  the list comprehension it denotes, and the recursive one is the evaluation PostgreSQL documents
  for \<^verbatim>\<open>WITH RECURSIVE ... UNION\<close> (working table, duplicates discarded).
\<close>

section \<open>Permission catalogue\<close>

datatype perm_domain = Content | Share | Members | Roles | Org | Security
datatype perm_scope = NodeScope | OrgScope

record permission_def =
  key :: string
  domain :: perm_domain
  scope :: perm_scope

definition pd :: "string \<Rightarrow> perm_domain \<Rightarrow> perm_scope \<Rightarrow> permission_def" where
  "pd k d s = \<lparr>key = k, domain = d, scope = s\<rparr>"

definition PERMISSIONS :: "permission_def list" where
  "PERMISSIONS =
    [pd ''node.view'' Content NodeScope, pd ''node.download'' Content NodeScope,
     pd ''node.export'' Content NodeScope, pd ''node.print'' Content NodeScope,
     pd ''node.create'' Content NodeScope, pd ''node.edit'' Content NodeScope,
     pd ''node.rename'' Content NodeScope, pd ''node.move'' Content NodeScope,
     pd ''node.copy'' Content NodeScope, pd ''node.delete'' Content NodeScope,
     pd ''node.restore'' Content NodeScope, pd ''node.comment'' Content NodeScope,
     pd ''node.version.view'' Content NodeScope, pd ''node.version.restore'' Content NodeScope,
     pd ''node.share.internal'' Share NodeScope, pd ''node.share.link'' Share NodeScope,
     pd ''node.share.manage'' Share NodeScope, pd ''node.sign.request'' Share NodeScope,
     pd ''node.acl.view'' Share NodeScope, pd ''node.acl.manage'' Share NodeScope,
     pd ''member.view'' Members OrgScope, pd ''member.invite'' Members OrgScope,
     pd ''member.remove'' Members OrgScope, pd ''member.role.assign'' Members OrgScope,
     pd ''group.view'' Members OrgScope, pd ''group.create'' Members OrgScope,
     pd ''group.manage'' Members OrgScope,
     pd ''role.view'' Roles OrgScope, pd ''role.create'' Roles OrgScope,
     pd ''role.manage'' Roles OrgScope,
     pd ''org.settings.view'' Org OrgScope, pd ''org.settings.manage'' Org OrgScope,
     pd ''space.create'' Org OrgScope, pd ''space.manage'' Org OrgScope,
     pd ''storage.quota.manage'' Org OrgScope,
     pd ''audit.view'' Security OrgScope, pd ''recovery.perform'' Security OrgScope]"

definition ALL_PERMISSION_KEYS :: "string list" where
  "ALL_PERMISSION_KEYS = map key PERMISSIONS"

definition isPermissionKey :: "string \<Rightarrow> bool" where
  "isPermissionKey k \<longleftrightarrow> k \<in> set ALL_PERMISSION_KEYS"

text \<open>The argument of \<^verbatim>\<open>sanitizePermissions\<close> is any value of a parsed request body.\<close>

fun sanitizePermissions :: "'n json \<Rightarrow> string list" where
  "sanitizePermissions (JArr ks) =
     fold (\<lambda>k out. case k of JStr s \<Rightarrow> (if isPermissionKey s then set_add s out else out) | _ \<Rightarrow> out) ks []"
| "sanitizePermissions _ = []"

definition NODE_PERMISSION_KEYS :: "string list" where
  "NODE_PERMISSION_KEYS = map key (filter (\<lambda>p. scope p = NodeScope) PERMISSIONS)"

section \<open>Role templates\<close>

definition EDITOR_PERMS :: "string list" where
  "EDITOR_PERMS =
    [''node.view'', ''node.download'', ''node.export'', ''node.print'', ''node.create'',
     ''node.edit'', ''node.rename'', ''node.move'', ''node.copy'', ''node.delete'',
     ''node.restore'', ''node.comment'', ''node.version.view'', ''node.version.restore'',
     ''node.share.internal'', ''node.acl.view'', ''node.sign.request'']"

definition COMMENTER_PERMS :: "string list" where
  "COMMENTER_PERMS =
    [''node.view'', ''node.download'', ''node.comment'', ''node.version.view'', ''node.acl.view'']"

definition VIEWER_PERMS :: "string list" where
  "VIEWER_PERMS = [''node.view'', ''node.download'', ''node.version.view'']"

definition MANAGER_PERMS :: "string list" where
  "MANAGER_PERMS = EDITOR_PERMS @
    [''node.share.link'', ''node.share.manage'', ''node.acl.manage'', ''member.view'',
     ''member.invite'', ''member.role.assign'', ''group.view'', ''group.create'',
     ''group.manage'', ''role.view'', ''space.create'']"

definition ADMIN_PERMS :: "string list" where
  "ADMIN_PERMS = ALL_PERMISSION_KEYS"

text \<open>A template is its key and its permissions; names, descriptions and colours are display data.\<close>

definition SYSTEM_ROLE_TEMPLATES :: "(string \<times> string list) list" where
  "SYSTEM_ROLE_TEMPLATES =
    [(''owner'', ALL_PERMISSION_KEYS), (''admin'', ADMIN_PERMS),
     (''manager'', set_of_list MANAGER_PERMS), (''editor'', set_of_list EDITOR_PERMS),
     (''commenter'', COMMENTER_PERMS), (''viewer'', VIEWER_PERMS), (''guest'', [''node.view''])]"

definition DEFAULT_MEMBER_ROLE_KEY :: string where
  "DEFAULT_MEMBER_ROLE_KEY = ''editor''"

definition templateByKey :: "string \<Rightarrow> (string \<times> string list) option" where
  "templateByKey k = find (\<lambda>t. fst t = k) SYSTEM_ROLE_TEMPLATES"

section \<open>Organisation context\<close>

record org_context =
  oc_orgId :: uuid
  oc_membershipId :: uuid
  oc_roleId :: uuid
  oc_roleKey :: string
  oc_permissions :: "string list"
  oc_isOwner :: bool

definition membership_rows :: "database \<Rightarrow> uuid \<Rightarrow> uuid \<Rightarrow> (membership_row \<times> role_row \<times> uuid) list" where
  "membership_rows db userId orgId =
     [(m, r, o_owner). m \<leftarrow> memberships db, r \<leftarrow> roles db, (o_id, o_owner) \<leftarrow> org_owners db,
       role_id r = mem_role m, o_id = mem_org m,
       mem_user m = userId, mem_org m = orgId, mem_status m = Active]"

definition loadOrgContext :: "database \<Rightarrow> uuid \<Rightarrow> uuid \<Rightarrow> org_context option" where
  "loadOrgContext db userId orgId =
     (case queryOne (membership_rows db userId orgId) of
        None \<Rightarrow> None
      | Some (m, r, o_owner) \<Rightarrow>
          Some \<lparr>oc_orgId = orgId, oc_membershipId = mem_id m, oc_roleId = mem_role m,
                oc_roleKey = role_key r,
                oc_permissions = set_of_list (case role_permissions r of None \<Rightarrow> [] | Some ps \<Rightarrow> ps),
                oc_isOwner = (o_owner = userId)\<rparr>)"

definition orgHasPermission :: "org_context option \<Rightarrow> string \<Rightarrow> bool" where
  "orgHasPermission ctx perm =
     (case ctx of None \<Rightarrow> False
      | Some c \<Rightarrow> if oc_isOwner c then True else perm \<in> set (oc_permissions c))"

definition userGroupIds :: "database \<Rightarrow> uuid \<Rightarrow> uuid \<Rightarrow> uuid list" where
  "userGroupIds db userId orgId =
     [gid. (gid, member) \<leftarrow> group_users db, (g, g_org) \<leftarrow> group_orgs db,
       g = gid, member = userId, g_org = orgId]"

section \<open>Ancestors\<close>

text \<open>The rows (id, parent\_id) of the recursive query: \<open>R\<close> is the result so far, \<open>W\<close> the working
  table; each round joins the nodes with the working table and discards rows already produced.\<close>

definition row_of :: "node_row \<Rightarrow> uuid \<times> uuid option" where
  "row_of n = (node_id n, node_parent n)"

definition anc_round :: "node_row list \<Rightarrow> (uuid \<times> uuid option) list \<Rightarrow> (uuid \<times> uuid option) list \<Rightarrow>
    (uuid \<times> uuid option) list" where
  "anc_round ns R W = remdups [row_of n. n \<leftarrow> ns, w \<leftarrow> W, snd w = Some (node_id n), row_of n \<notin> set R]"

function anc_rec :: "node_row list \<Rightarrow> (uuid \<times> uuid option) list \<Rightarrow> (uuid \<times> uuid option) list \<Rightarrow>
    (uuid \<times> uuid option) list" where
  "anc_rec ns R W =
     (if W = [] then R else let N = anc_round ns R W in anc_rec ns (R @ N) N)"
  by pat_completeness auto

lemma set_anc_round:
  "set (anc_round ns R W) = {row_of n |n. n \<in> set ns \<and> (\<exists>w\<in>set W. snd w = Some (node_id n))} - set R"
  by (auto simp: anc_round_def)

termination anc_rec
proof (relation "inv_image (less_than <*lex*> less_than)
    (\<lambda>(ns, R, W). (card (row_of ` set ns - set R), length W))", goal_cases)
  case 1
  show ?case by (intro wf_inv_image wf_lex_prod wf_less_than)
next
  case (2 ns R W N)
  have new: "set N \<subseteq> row_of ` set ns - set R"
    using 2(2) by (auto simp: set_anc_round)
  show ?case
  proof (cases "N = []")
    case False
    then have "row_of ` set ns - set (R @ N) \<subset> row_of ` set ns - set R"
      using new by (cases N) auto
    then have "card (row_of ` set ns - set (R @ N)) < card (row_of ` set ns - set R)"
      by (intro psubset_card_mono) auto
    then show ?thesis by simp
  qed (use 2 in auto)
qed

declare anc_rec.simps [simp del]

definition ancestors :: "node_row list \<Rightarrow> uuid \<Rightarrow> uuid list" where
  "ancestors ns i = (let start = remdups [row_of n. n \<leftarrow> ns, node_id n = i] in map fst (anc_rec ns start start))"

section \<open>Node access\<close>

record node_access =
  na_nodeId :: uuid
  na_orgId :: uuid
  na_ownerUserId :: uuid
  na_kind :: node_kind
  na_trashed :: bool
  na_isOwner :: bool
  na_permissions :: "string list"
  na_accessible :: bool

definition OWNER_NODE_PERMS :: "string list" where
  "OWNER_NODE_PERMS =
    [''node.view'', ''node.download'', ''node.export'', ''node.print'', ''node.create'',
     ''node.edit'', ''node.rename'', ''node.move'', ''node.copy'', ''node.delete'',
     ''node.restore'', ''node.comment'', ''node.version.view'', ''node.version.restore'',
     ''node.share.internal'', ''node.share.link'', ''node.share.manage'', ''node.sign.request'',
     ''node.acl.view'', ''node.acl.manage'']"

definition aclRows :: "database \<Rightarrow> uuid \<Rightarrow> uuid \<Rightarrow> uuid list \<Rightarrow> string list option list" where
  "aclRows db nodeId userId groupIds =
     [role_permissions r. nk \<leftarrow> node_keys db, r \<leftarrow> roles db, role_id r = nk_role nk,
       nk_node nk \<in> set (ancestors (nodes db) nodeId),
       nk_principal_type nk = UserPrincipal \<and> nk_principal nk = userId \<or>
       nk_principal_type nk = GroupPrincipal \<and> nk_principal nk \<in> set groupIds]"

definition resolveNodeAccess :: "database \<Rightarrow> uuid \<Rightarrow> uuid \<Rightarrow> node_access option" where
  "resolveNodeAccess db userId nodeId =
     (case queryOne (filter (\<lambda>n. node_id n = nodeId) (nodes db)) of
        None \<Rightarrow> None
      | Some node \<Rightarrow>
          (case loadOrgContext db userId (node_org node) of
             None \<Rightarrow>
               Some \<lparr>na_nodeId = node_id node, na_orgId = node_org node,
                     na_ownerUserId = node_owner node, na_kind = node_kind node,
                     na_trashed = (node_trashed_at node \<noteq> None), na_isOwner = False,
                     na_permissions = [], na_accessible = False\<rparr>
           | Some orgCtx \<Rightarrow>
               (let groupIds = userGroupIds db userId (node_org node);
                    rows = aclRows db nodeId userId groupIds;
                    perms = set_of_list (concat [case row of None \<Rightarrow> [] | Some ps \<Rightarrow> ps. row \<leftarrow> rows]);
                    isOwner = (node_owner node = userId);
                    perms' = (if isOwner \<or> oc_isOwner orgCtx then fold set_add OWNER_NODE_PERMS perms else perms)
                in Some \<lparr>na_nodeId = node_id node, na_orgId = node_org node,
                         na_ownerUserId = node_owner node, na_kind = node_kind node,
                         na_trashed = (node_trashed_at node \<noteq> None), na_isOwner = isOwner,
                         na_permissions = perms',
                         na_accessible = (isOwner \<or> rows \<noteq> [] \<or> oc_isOwner orgCtx)\<rparr>)))"

definition nodeHasPermission :: "node_access option \<Rightarrow> string \<Rightarrow> bool" where
  "nodeHasPermission access perm =
     (case access of None \<Rightarrow> False | Some a \<Rightarrow> perm \<in> set (na_permissions a))"

section \<open>Guards of the handlers\<close>

record auth_user =
  au_id :: uuid
  au_fingerprint :: string
  au_email :: string
  au_displayName :: string

definition requireUser :: "auth_user option \<Rightarrow> api_error + auth_user" where
  "requireUser u = (case u of None \<Rightarrow> Inl unauthorized | Some user \<Rightarrow> Inr user)"

definition requireOrgPerm :: "database \<Rightarrow> auth_user option \<Rightarrow> uuid \<Rightarrow> string \<Rightarrow> api_error + org_context" where
  "requireOrgPerm db u orgId perm =
     (case requireUser u of Inl e \<Rightarrow> Inl e
      | Inr user \<Rightarrow>
          (case loadOrgContext db (au_id user) orgId of
             None \<Rightarrow> Inl forbidden
           | Some ctx \<Rightarrow> if \<not> orgHasPermission (Some ctx) perm then Inl forbidden else Inr ctx))"

definition requireMembership :: "database \<Rightarrow> auth_user option \<Rightarrow> uuid \<Rightarrow> api_error + org_context" where
  "requireMembership db u orgId =
     (case requireUser u of Inl e \<Rightarrow> Inl e
      | Inr user \<Rightarrow>
          (case loadOrgContext db (au_id user) orgId of None \<Rightarrow> Inl forbidden | Some ctx \<Rightarrow> Inr ctx))"

definition requireNodePerm :: "database \<Rightarrow> auth_user option \<Rightarrow> uuid \<Rightarrow> string \<Rightarrow> api_error + node_access" where
  "requireNodePerm db u nodeId perm =
     (case requireUser u of Inl e \<Rightarrow> Inl e
      | Inr user \<Rightarrow>
          (case resolveNodeAccess db (au_id user) nodeId of
             None \<Rightarrow> Inl notFound
           | Some access \<Rightarrow>
               if \<not> na_accessible access then Inl notFound
               else if \<not> nodeHasPermission (Some access) perm then Inl forbidden
               else Inr access))"

section \<open>Authentication of a request\<close>

record token_claims =
  tc_sub :: uuid
  tc_iat :: int

definition MFA_EXEMPT :: "string list" where
  "MFA_EXEMPT = [''/api/auth/'', ''/api/site/policy'', ''/api/site/me'', ''/api/users/me'']"

definition mfa_enrollment_required :: api_error where
  "mfa_enrollment_required = ApiError 403 ''mfa_enrollment_required''"

text \<open>\<open>verify\<close> is the verification of the signed token, \<open>mfaRequired\<close> the site's policy applied to
  a user.\<close>

definition authenticate :: "(string \<Rightarrow> token_claims option) \<Rightarrow> (uuid \<Rightarrow> bool) \<Rightarrow> user_row list \<Rightarrow>
    string option \<Rightarrow> string \<Rightarrow> api_error + auth_user" where
  "authenticate verify mfaRequired users header url =
     (case header of
        None \<Rightarrow> Inl unauthorized
      | Some h \<Rightarrow>
          if \<not> prefix ''Bearer '' h then Inl unauthorized
          else (case verify (js_trim (drop 7 h)) of
            None \<Rightarrow> Inl unauthorized
          | Some claims \<Rightarrow>
              (case queryOne (filter (\<lambda>u. ur_id u = tc_sub claims) users) of
                 None \<Rightarrow> Inl unauthorized
               | Some user \<Rightarrow>
                   if ur_status user \<noteq> ''active'' then Inl unauthorized
                   else if tc_iat claims < ur_token_epoch user div 1000 then Inl unauthorized
                   else if \<not> list_ex (\<lambda>p. prefix p (takeWhile (\<lambda>c. c \<noteq> CHR ''?'') url)) MFA_EXEMPT \<and>
                           mfaRequired (ur_id user)
                   then Inl mfa_enrollment_required
                   else Inr \<lparr>au_id = ur_id user, au_fingerprint = ur_fingerprint user,
                             au_email = ur_email user, au_displayName = ur_display_name user\<rparr>)))"


section \<open>The catalogue\<close>

lemmas catalogue_defs = PERMISSIONS_def ALL_PERMISSION_KEYS_def NODE_PERMISSION_KEYS_def pd_def
  EDITOR_PERMS_def COMMENTER_PERMS_def VIEWER_PERMS_def MANAGER_PERMS_def ADMIN_PERMS_def
  OWNER_NODE_PERMS_def SYSTEM_ROLE_TEMPLATES_def

definition sane :: "'n json list \<Rightarrow> string set" where
  "sane ks = {s. JStr s \<in> set ks \<and> isPermissionKey s}"

definition keep_key :: "'n json \<Rightarrow> string list \<Rightarrow> string list" where
  "keep_key k out = (case k of JStr s \<Rightarrow> (if isPermissionKey s then set_add s out else out) | _ \<Rightarrow> out)"

lemma sanitize_fold: "sanitizePermissions (JArr ks) = fold keep_key ks []"
  by (simp add: keep_key_def[abs_def])

lemma keep_key_fold:
  "set (fold keep_key ks out) = set out \<union> sane ks \<and> (distinct out \<longrightarrow> distinct (fold keep_key ks out))"
proof (induction ks arbitrary: out)
  case (Cons k ks)
  have "set (keep_key k out) = set out \<union> sane [k]" "distinct out \<longrightarrow> distinct (keep_key k out)"
    by (auto simp: keep_key_def sane_def split: json.splits)
  moreover have "sane (k # ks) = sane [k] \<union> sane ks" by (auto simp: sane_def)
  ultimately show ?case using Cons by auto
qed (simp add: sane_def)

lemma keep_key_fold_sane:
  "distinct (out @ xs) \<Longrightarrow> \<forall>x\<in>set xs. isPermissionKey x \<Longrightarrow> fold keep_key (map JStr xs :: 'n json list) out = out @ xs"
proof (induction xs arbitrary: out)
  case (Cons x xs)
  then have "keep_key (JStr x :: 'n json) out = out @ [x]"
    by (auto simp: keep_key_def set_add_def)
  with Cons show ?case by simp
qed simp

text \<open>Whatever the request body, sanitising yields exactly the listed strings that are
  permission keys, without duplicates, and sanitising its result again changes nothing; so a
  custom role can never hold a key outside the catalogue.\<close>

theorem sanitizePermissions_sound:
  fixes body :: "'n json"
  shows "distinct (sanitizePermissions body) \<and>
   set (sanitizePermissions body) = (case body of JArr ks \<Rightarrow> {s. JStr s \<in> set ks \<and> isPermissionKey s} | _ \<Rightarrow> {}) \<and>
   sanitizePermissions (JArr (map JStr (sanitizePermissions body)) :: 'n json) = sanitizePermissions body"
proof (cases body)
  case (JArr ks)
  have "set (sanitizePermissions body) = sane ks" "distinct (sanitizePermissions body)"
    unfolding JArr sanitize_fold using keep_key_fold[of ks "[]"] by auto
  moreover from this have "sanitizePermissions (JArr (map JStr (sanitizePermissions body)) :: 'n json) = sanitizePermissions body"
    unfolding sanitize_fold using keep_key_fold_sane[of "[]" "sanitizePermissions body"]
    by (simp add: sane_def)
  ultimately show ?thesis by (simp add: JArr sane_def)
qed auto

text \<open>The system templates are ordered by inclusion (guest, viewer, commenter, editor, manager,
  admin, owner), hold only permission keys, have distinct keys, and the role given to new members
  by default exists and grants no organisation permission; the permissions the engine grants to
  owners are exactly the node permissions of the catalogue.\<close>

theorem role_templates_ordered:
  "sorted_wrt (\<lambda>t u. set (snd u) \<subseteq> set (snd t)) SYSTEM_ROLE_TEMPLATES \<and>
   list_all (\<lambda>t. distinct (snd t) \<and> list_all isPermissionKey (snd t)) SYSTEM_ROLE_TEMPLATES \<and>
   distinct (map fst SYSTEM_ROLE_TEMPLATES) \<and>
   (case templateByKey DEFAULT_MEMBER_ROLE_KEY of None \<Rightarrow> False
    | Some t \<Rightarrow> list_all (\<lambda>k. k \<in> set NODE_PERMISSION_KEYS) (snd t)) \<and>
   set OWNER_NODE_PERMS = set NODE_PERMISSION_KEYS \<and> length OWNER_NODE_PERMS = length NODE_PERMISSION_KEYS"
proof -
  have 1: "sorted_wrt (\<lambda>t u. set (snd u) \<subseteq> set (snd t)) SYSTEM_ROLE_TEMPLATES"
    by code_simp
  have 2: "list_all (\<lambda>t. distinct (snd t) \<and> list_all isPermissionKey (snd t)) SYSTEM_ROLE_TEMPLATES"
    by code_simp
  have 3: "distinct (map fst SYSTEM_ROLE_TEMPLATES)"
    by code_simp
  have 4: "case templateByKey DEFAULT_MEMBER_ROLE_KEY of None \<Rightarrow> False
    | Some t \<Rightarrow> list_all (\<lambda>k. k \<in> set NODE_PERMISSION_KEYS) (snd t)"
    by code_simp
  have 5: "set OWNER_NODE_PERMS = set NODE_PERMISSION_KEYS" by code_simp
  have 6: "length OWNER_NODE_PERMS = length NODE_PERMISSION_KEYS" by code_simp
  from 1 2 3 4 5 6 show ?thesis by blast
qed

section \<open>The recursive query computes the ancestors\<close>

definition anc_step :: "node_row list \<Rightarrow> ((uuid \<times> uuid option) \<times> (uuid \<times> uuid option)) set" where
  "anc_step ns = {(r, row_of n) |r n. n \<in> set ns \<and> snd r = Some (node_id n)}"

lemma anc_step_Image:
  "anc_step ns `` A = {row_of n |n. n \<in> set ns \<and> (\<exists>w\<in>A. snd w = Some (node_id n))}"
  unfolding anc_step_def Image_def by fast

interpretation anc: recursive_query "anc_rec ns" "anc_round ns" "anc_step ns" for ns
proof unfold_locales
  show "anc_rec ns R W = (if W = [] then R else anc_rec ns (R @ anc_round ns R W) (anc_round ns R W))" for R W
    by (subst anc_rec.simps) (simp add: Let_def)
  show "set (anc_round ns R W) = anc_step ns `` set W - set R" for R W
    by (simp add: set_anc_round anc_step_Image)
  have "Range (anc_step ns) \<subseteq> row_of ` set ns" by (auto simp: anc_step_def)
  then show "finite (Range (anc_step ns))" by (rule finite_subset) simp
qed

text \<open>The parent relation between identifiers, and what the query returns under it.\<close>

definition parent_of :: "node_row list \<Rightarrow> (uuid \<times> uuid) set" where
  "parent_of ns = {(node_id n, node_id p) |n p. n \<in> set ns \<and> p \<in> set ns \<and> node_parent n = Some (node_id p)}"

lemma parent_ofI:
  "n \<in> set ns \<Longrightarrow> p \<in> set ns \<Longrightarrow> node_parent n = Some (node_id p) \<Longrightarrow>
    (node_id n, node_id p) \<in> parent_of ns"
  by (auto simp: parent_of_def)

lemma row_of_simps [simp]: "fst (row_of n) = node_id n" "snd (row_of n) = node_parent n"
  by (simp_all add: row_of_def)

lemma ancestors_rows:
  "set (ancestors ns i) = fst ` ((anc_step ns)\<^sup>* `` {row_of n |n. n \<in> set ns \<and> node_id n = i})"
proof -
  have "set (remdups [row_of n. n \<leftarrow> ns, node_id n = i]) = {row_of n |n. n \<in> set ns \<and> node_id n = i}"
    by auto
  then show ?thesis
    unfolding ancestors_def Let_def set_map anc.query by simp
qed

lemma ancestors_sound:
  assumes "a \<in> set (ancestors ns i)"
  shows "(i, a) \<in> (parent_of ns)\<^sup>*"
proof -
  obtain n r where n: "n \<in> set ns" "node_id n = i" "(row_of n, r) \<in> (anc_step ns)\<^sup>*" "a = fst r"
    using assms unfolding ancestors_rows by auto
  have "\<exists>m\<in>set ns. r = row_of m \<and> (i, node_id m) \<in> (parent_of ns)\<^sup>*"
    using n(3)
  proof (induction rule: rtrancl_induct)
    case base
    show ?case using n by blast
  next
    case (step y z)
    obtain m where m: "m \<in> set ns" "y = row_of m" "(i, node_id m) \<in> (parent_of ns)\<^sup>*"
      using step.IH by blast
    obtain p where p: "p \<in> set ns" "z = row_of p" "snd y = Some (node_id p)"
      using step.hyps(2) unfolding anc_step_def by blast
    from m p have "(node_id m, node_id p) \<in> parent_of ns"
      by (auto simp: parent_of_def)
    with m p show ?case by (blast intro: rtrancl_into_rtrancl)
  qed
  with n show ?thesis by auto
qed

lemma ancestors_complete:
  assumes "distinct (map node_id ns)" "n \<in> set ns" "node_id n = i" "(i, a) \<in> (parent_of ns)\<^sup>*"
  shows "a \<in> set (ancestors ns i)"
proof -
  have "\<exists>m\<in>set ns. node_id m = a \<and> (row_of n, row_of m) \<in> (anc_step ns)\<^sup>*"
    using assms(4)
  proof (induction rule: rtrancl_induct)
    case (step y z)
    obtain m where m: "m \<in> set ns" "node_id m = y" "(row_of n, row_of m) \<in> (anc_step ns)\<^sup>*"
      using step.IH by auto
    obtain m' p where p: "m' \<in> set ns" "p \<in> set ns" "node_id m' = y" "node_id p = z" "node_parent m' = Some z"
      using step.hyps(2) by (auto simp: parent_of_def)
    have "m' = m"
      using assms(1) p(1,3) m(1,2) by (auto simp: distinct_map dest: inj_onD)
    then have "snd (row_of m) = Some (node_id p)"
      using p by simp
    then have "(row_of m, row_of p) \<in> anc_step ns"
      using p unfolding anc_step_def by blast
    with m(3) p show ?case by (auto intro: rtrancl_into_rtrancl)
  qed (use assms in auto)
  then show ?thesis
    using assms(2,3) unfolding ancestors_rows by force
qed

text \<open>C40: the recursive query returns, on any parent links (cycles and dangling links included),
  exactly the node and everything reachable from it through parent links.\<close>

theorem ancestors_reachable:
  assumes "distinct (map node_id ns)"
  shows "set (ancestors ns i) = (if i \<in> node_id ` set ns then {a. (i, a) \<in> (parent_of ns)\<^sup>*} else {})"
proof (cases "i \<in> node_id ` set ns")
  case True
  then show ?thesis
    using ancestors_sound[of _ ns i] ancestors_complete[OF assms, of _ i] by (auto simp: image_iff)
next
  case False
  then have "set (ancestors ns i) = {}"
    unfolding ancestors_rows by auto
  with False show ?thesis by auto
qed


definition wit_body :: node_body where
  "wit_body = \<lparr>nb_name = [], nb_name_nonce = [], nb_meta = None, nb_meta_nonce = None, nb_app_kind = None, nb_prev_key = None,
     nb_prev_nonce = None, nb_created_at = 0, nb_modified_at = 0, nb_modified_by = None\<rparr>"

definition wit_node :: "uuid \<Rightarrow> uuid option \<Rightarrow> node_kind \<Rightarrow> node_row" where
  "wit_node i parent k = \<lparr>node_id = i, node_org = ''o'', node_owner = ''a'', node_parent = parent, node_kind = k,
     node_trashed_at = None, node_content = None, node_content_nonce = None, node_size = 0, node_current_version = None,
     node_key_epoch = 1, node_rotation_required = False, node_body = wit_body\<rparr>"

definition wit_nodes :: "node_row list" where
  "wit_nodes = [wit_node ''f'' (Some ''g'') Folder, wit_node ''g'' (Some ''f'') Folder, wit_node ''c'' (Some ''f'') File]"

lemma wit_node_simps [simp]:
  "node_id (wit_node i p k) = i" "node_org (wit_node i p k) = ''o''" "node_owner (wit_node i p k) = ''a''"
  "node_parent (wit_node i p k) = p" "node_kind (wit_node i p k) = k"
  by (simp_all add: wit_node_def)

theorem ancestors_reachable_witness:
  "set (ancestors wit_nodes ''c'') = {a. (''c'', a) \<in> (parent_of wit_nodes)\<^sup>*} \<and> ''g'' \<in> set (ancestors wit_nodes ''c'')"
proof -
  have "(''c'', ''f'') \<in> parent_of wit_nodes" "(''f'', ''g'') \<in> parent_of wit_nodes"
    using parent_ofI[of "wit_nodes ! 2" wit_nodes "wit_nodes ! 0"] parent_ofI[of "wit_nodes ! 0" wit_nodes "wit_nodes ! 1"]
    by (simp_all add: wit_nodes_def)
  then have "(''c'', ''g'') \<in> (parent_of wit_nodes)\<^sup>*" by auto
  moreover have "set (ancestors wit_nodes ''c'') = {a. (''c'', a) \<in> (parent_of wit_nodes)\<^sup>*}"
    using ancestors_reachable [of wit_nodes "''c''"] by (simp add: wit_nodes_def)
  ultimately show ?thesis by auto
qed

section \<open>What the resolution grants\<close>

text \<open>The constraints of the schema the queries rely on: primary keys, and the foreign keys of
  memberships.\<close>

definition db_ok :: "database \<Rightarrow> bool" where
  "db_ok db \<longleftrightarrow> distinct (map role_id (roles db)) \<and> distinct (map fst (org_owners db)) \<and>
     distinct (map node_id (nodes db)) \<and>
     (\<forall>m\<in>set (memberships db). mem_role m \<in> role_id ` set (roles db) \<and> mem_org m \<in> fst ` set (org_owners db))"

definition active_member :: "database \<Rightarrow> uuid \<Rightarrow> uuid \<Rightarrow> bool" where
  "active_member db u orgId \<longleftrightarrow>
     (\<exists>m\<in>set (memberships db). mem_user m = u \<and> mem_org m = orgId \<and> mem_status m = Active)"

definition matches_user :: "database \<Rightarrow> uuid \<Rightarrow> uuid \<Rightarrow> node_key_row \<Rightarrow> bool" where
  "matches_user db u orgId nk \<longleftrightarrow>
     nk_principal_type nk = UserPrincipal \<and> nk_principal nk = u \<or>
     nk_principal_type nk = GroupPrincipal \<and>
       (nk_principal nk, u) \<in> set (group_users db) \<and> (nk_principal nk, orgId) \<in> set (group_orgs db)"

definition grants :: "database \<Rightarrow> node_key_row \<Rightarrow> string \<Rightarrow> bool" where
  "grants db nk perm \<longleftrightarrow>
     (\<exists>r\<in>set (roles db). role_id r = nk_role nk \<and> (\<exists>ps. role_permissions r = Some ps \<and> perm \<in> set ps))"

lemma set_membership_rows:
  "(m, r, ow) \<in> set (membership_rows db u orgId) \<longleftrightarrow>
    m \<in> set (memberships db) \<and> r \<in> set (roles db) \<and> (orgId, ow) \<in> set (org_owners db) \<and>
    role_id r = mem_role m \<and> mem_user m = u \<and> mem_org m = orgId \<and> mem_status m = Active"
  by (auto simp: membership_rows_def split: if_splits)

lemma loadOrgContext_None:
  assumes "db_ok db"
  shows "loadOrgContext db u orgId = None \<longleftrightarrow> \<not> active_member db u orgId"
proof -
  have "loadOrgContext db u orgId = None \<longleftrightarrow> membership_rows db u orgId = []"
    unfolding loadOrgContext_def by (cases "membership_rows db u orgId") (auto simp: queryOne_def)
  also have "\<dots> \<longleftrightarrow> (\<forall>m r ow. (m, r, ow) \<notin> set (membership_rows db u orgId))"
    by (cases "membership_rows db u orgId") force+
  also have "\<dots> \<longleftrightarrow> \<not> active_member db u orgId"
    using assms unfolding set_membership_rows active_member_def db_ok_def by fastforce
  finally show ?thesis .
qed

lemma loadOrgContext_owner:
  assumes "db_ok db" "loadOrgContext db u orgId = Some c"
  shows "oc_isOwner c \<longleftrightarrow> (orgId, u) \<in> set (org_owners db)"
proof -
  obtain m r ow where q: "queryOne (membership_rows db u orgId) = Some (m, r, ow)" "oc_isOwner c \<longleftrightarrow> ow = u"
    using assms(2) unfolding loadOrgContext_def by (auto split: option.splits)
  have row: "(orgId, ow) \<in> set (org_owners db)"
    using queryOne_Some[OF q(1)] by (simp add: set_membership_rows)
  moreover have "ow' = ow" if "(orgId, ow') \<in> set (org_owners db)" for ow'
    using assms(1) row that by (auto simp: db_ok_def dest: eq_key_imp_eq_value)
  ultimately show ?thesis using q(2) row by blast
qed

lemma set_userGroupIds:
  "g \<in> set (userGroupIds db u orgId) \<longleftrightarrow> (g, u) \<in> set (group_users db) \<and> (g, orgId) \<in> set (group_orgs db)"
  by (auto simp: userGroupIds_def)

lemma set_aclRows:
  "ps \<in> set (aclRows db i u (userGroupIds db u orgId)) \<longleftrightarrow>
    (\<exists>nk\<in>set (node_keys db). \<exists>r\<in>set (roles db). role_id r = nk_role nk \<and>
      nk_node nk \<in> set (ancestors (nodes db) i) \<and> matches_user db u orgId nk \<and> ps = role_permissions r)"
  unfolding aclRows_def matches_user_def set_userGroupIds
  by (auto split: if_splits)

lemma aclRows_grant:
  "(\<exists>ps. Some ps \<in> set (aclRows db i u (userGroupIds db u orgId)) \<and> perm \<in> set ps) \<longleftrightarrow>
    (\<exists>nk\<in>set (node_keys db). nk_node nk \<in> set (ancestors (nodes db) i) \<and> matches_user db u orgId nk \<and> grants db nk perm)"
  unfolding set_aclRows grants_def by (auto; metis)

lemma queryOne_node:
  "queryOne (filter (\<lambda>n. node_id n = i) (nodes db)) = Some n \<Longrightarrow> n \<in> set (nodes db) \<and> node_id n = i"
  by (auto dest!: queryOne_Some)

lemma queryOne_node_unique:
  assumes "db_ok db" "n \<in> set (nodes db)"
  shows "queryOne (filter (\<lambda>m. node_id m = node_id n) (nodes db)) = Some n"
proof -
  have "n \<in> set (filter (\<lambda>m. node_id m = node_id n) (nodes db))" using assms(2) by auto
  then obtain m where m: "queryOne (filter (\<lambda>m. node_id m = node_id n) (nodes db)) = Some m"
    by (metis empty_iff empty_set not_None_eq queryOne_None)
  then have "m = n"
    using queryOne_node[OF m] assms by (auto simp: db_ok_def distinct_map dest: inj_onD)
  with m show ?thesis by simp
qed

lemma nodeHasPermission_iff:
  assumes ok: "db_ok db" and n: "n \<in> set (nodes db)"
  shows "nodeHasPermission (resolveNodeAccess db u (node_id n)) perm \<longleftrightarrow>
    active_member db u (node_org n) \<and>
    ((node_owner n = u \<or> (node_org n, u) \<in> set (org_owners db)) \<and> perm \<in> set OWNER_NODE_PERMS \<or>
     (\<exists>nk\<in>set (node_keys db). (node_id n, nk_node nk) \<in> (parent_of (nodes db))\<^sup>* \<and>
        matches_user db u (node_org n) nk \<and> grants db nk perm))"
proof (cases "loadOrgContext db u (node_org n)")
  case None
  then have "\<not> active_member db u (node_org n)"
    using loadOrgContext_None[OF ok] by simp
  with None show ?thesis
    by (simp add: resolveNodeAccess_def queryOne_node_unique[OF ok n] nodeHasPermission_def)
next
  case (Some c)
  have act: "active_member db u (node_org n)"
    using Some loadOrgContext_None[OF ok, of u "node_org n"] by simp
  have anc: "a \<in> set (ancestors (nodes db) (node_id n)) \<longleftrightarrow> (node_id n, a) \<in> (parent_of (nodes db))\<^sup>*" for a
    using ok n ancestors_sound ancestors_complete by (auto simp: db_ok_def)
  let ?rows = "aclRows db (node_id n) u (userGroupIds db u (node_org n))"
  have "perm \<in> set (concat [case row of None \<Rightarrow> [] | Some ps \<Rightarrow> ps. row \<leftarrow> ?rows]) \<longleftrightarrow>
      (\<exists>ps. Some ps \<in> set ?rows \<and> perm \<in> set ps)"
    by (force split: option.splits)
  with aclRows_grant[of db "node_id n" u "node_org n" perm]
  show ?thesis
    using Some act loadOrgContext_owner[OF ok Some]
    by (simp add: resolveNodeAccess_def queryOne_node_unique[OF ok n] nodeHasPermission_def Let_def
        set_fold_set_add anc disj_commute conj_commute)
qed

text \<open>C1: the exact set of node permissions: an active member of the node's organisation holds a
  permission on a node iff it owns the node or the organisation and the permission is one of the
  owner's, or some access entry on the node or one of its ancestors, made to the user or to one of
  its groups of that organisation, carries a role holding it; anyone else holds none.\<close>

theorem node_permission_exact:
  assumes "db_ok db"
  shows "nodeHasPermission (resolveNodeAccess db u i) perm \<longleftrightarrow>
    (\<exists>n\<in>set (nodes db). node_id n = i \<and> active_member db u (node_org n) \<and>
      ((node_owner n = u \<or> (node_org n, u) \<in> set (org_owners db)) \<and> perm \<in> set OWNER_NODE_PERMS \<or>
       (\<exists>nk\<in>set (node_keys db). (i, nk_node nk) \<in> (parent_of (nodes db))\<^sup>* \<and>
          matches_user db u (node_org n) nk \<and> grants db nk perm)))"
proof (cases "\<exists>n\<in>set (nodes db). node_id n = i")
  case True
  then obtain n where n: "n \<in> set (nodes db)" "node_id n = i" by blast
  have "m = n" if "m \<in> set (nodes db)" "node_id m = i" for m
    using that n assms by (auto simp: db_ok_def distinct_map dest: inj_onD)
  then have "(\<exists>m\<in>set (nodes db). node_id m = i \<and> Q m) \<longleftrightarrow> Q n" for Q
    using n by blast
  then show ?thesis
    using nodeHasPermission_iff[OF assms n(1), of u perm] unfolding n(2) by presburger
next
  case False
  then have "queryOne (filter (\<lambda>n. node_id n = i) (nodes db)) = None" by auto
  then have "resolveNodeAccess db u i = None" by (simp add: resolveNodeAccess_def queryOne_def)
  with False show ?thesis by (auto simp: nodeHasPermission_def)
qed


definition wit_grant :: node_key_row where
  "wit_grant = \<lparr>nk_id = ''k'', nk_node = ''g'', nk_principal_type = GroupPrincipal, nk_principal = ''team'', nk_role = ''r'',
     nk_wrapped = [], nk_granted_by = None, nk_inherited_from = None\<rparr>"

definition wit_db :: "member_status \<Rightarrow> database" where
  "wit_db st = empty_db
    \<lparr>roles := [\<lparr>role_id = ''r'', role_org = Some ''o'', role_key = ''viewer'', role_name = [], role_description = [], role_color = [],
        role_is_system = True, role_permissions = Some VIEWER_PERMS\<rparr>],
     orgs := [\<lparr>org_id = ''o'', org_owner = ''z'', org_quota = None, org_key_epoch = 1, org_rotation_required = False\<rparr>],
     memberships := [\<lparr>mem_id = ''m'', mem_org = ''o'', mem_user = ''u'', mem_role = ''r'', mem_status = st, mem_quota = None\<rparr>],
     groups := [\<lparr>grp_id = ''team'', grp_org = ''o'', grp_name = [], grp_description = [], grp_color = [], grp_public = [],
        grp_rotation_required = False\<rparr>],
     group_members := [\<lparr>gm_group = ''team'', gm_user = ''u'', gm_wrapped = [], gm_manager = False\<rparr>],
     nodes := wit_nodes,
     node_keys := [wit_grant]\<rparr>"

lemmas wit_db_simps = wit_db_def wit_grant_def empty_db_def org_owners_def group_orgs_def group_users_def

lemma wit_grant_node: "nk_node wit_grant = ''g''"
  by (simp add: wit_grant_def)

lemma wit_db_ok: "db_ok (wit_db st)"
  by (simp add: db_ok_def wit_db_simps wit_nodes_def)

lemma wit_db_path: "(''c'', ''g'') \<in> (parent_of (nodes (wit_db st)))\<^sup>*"
proof -
  have "(''c'', ''f'') \<in> parent_of wit_nodes" "(''f'', ''g'') \<in> parent_of wit_nodes"
    using parent_ofI[of "wit_nodes ! 2" wit_nodes "wit_nodes ! 0"] parent_ofI[of "wit_nodes ! 0" wit_nodes "wit_nodes ! 1"]
    by (simp_all add: wit_nodes_def)
  then show ?thesis by (simp add: wit_db_simps)
qed

lemma wit_db_grant:
  "wit_grant \<in> set (node_keys (wit_db st)) \<and>
   matches_user (wit_db st) ''u'' ''o'' wit_grant \<and>
   grants (wit_db st) wit_grant ''node.download''"
  by (simp add: wit_db_simps matches_user_def grants_def VIEWER_PERMS_def)

theorem node_permission_exact_witness:
  "nodeHasPermission (resolveNodeAccess (wit_db Active) ''u'' ''c'') ''node.download''"
proof -
  let ?n = "wit_nodes ! 2"
  have "?n \<in> set (nodes (wit_db Active))" "node_id ?n = ''c''" "node_org ?n = ''o''"
    "active_member (wit_db Active) ''u'' ''o''"
    by (simp_all add: wit_db_simps wit_nodes_def active_member_def)
  then show ?thesis
    unfolding node_permission_exact [OF wit_db_ok] using wit_db_path wit_db_grant wit_grant_node
    by (intro bexI[of _ ?n] conjI disjI2 bexI[of _ wit_grant]) auto
qed

section \<open>Consequences at the guards\<close>

lemma resolveNodeAccess_accessible:
  "resolveNodeAccess db u i = Some a \<Longrightarrow> na_permissions a \<noteq> [] \<Longrightarrow> na_accessible a"
proof -
  assume a: "resolveNodeAccess db u i = Some a" and p: "na_permissions a \<noteq> []"
  obtain n where "queryOne (filter (\<lambda>n. node_id n = i) (nodes db)) = Some n"
    using a by (cases "queryOne (filter (\<lambda>n. node_id n = i) (nodes db))") (simp_all add: resolveNodeAccess_def)
  with a p show ?thesis
    by (auto simp: resolveNodeAccess_def Let_def set_of_list_def split: option.splits if_splits)
qed

lemma resolveNodeAccess_inactive:
  assumes "db_ok db" "n \<in> set (nodes db)" "\<not> active_member db u (node_org n)"
  shows "\<exists>a. resolveNodeAccess db u (node_id n) = Some a \<and> \<not> na_accessible a \<and> na_permissions a = []"
  using loadOrgContext_None[OF assms(1), of u "node_org n"] assms(3)
  by (simp add: resolveNodeAccess_def queryOne_node_unique[OF assms(1,2)])

text \<open>C2: a user who is not an active member of an organisation (suspended, invited, never joined)
  passes no guard of it, whatever it owns and whatever entries it still holds: every permission or
  membership guard of the organisation answers forbidden, and every guard of one of its nodes
  answers not found, the very answer given for a node that does not exist.\<close>

theorem inactive_passes_no_guard:
  assumes "db_ok db" "\<not> active_member db (au_id user) orgId"
  shows "requireOrgPerm db (Some user) orgId perm = Inl forbidden \<and>
    requireMembership db (Some user) orgId = Inl forbidden \<and>
    (\<forall>n\<in>set (nodes db). node_org n = orgId \<longrightarrow> requireNodePerm db (Some user) (node_id n) perm = Inl notFound) \<and>
    (\<forall>i. i \<notin> node_id ` set (nodes db) \<longrightarrow> requireNodePerm db (Some user) i perm = Inl notFound)"
proof -
  have none: "loadOrgContext db (au_id user) orgId = None"
    using assms loadOrgContext_None by blast
  have "requireNodePerm db (Some user) i perm = Inl notFound" if "i \<notin> node_id ` set (nodes db)" for i
  proof -
    from that have "filter (\<lambda>n. node_id n = i) (nodes db) = []" by (auto simp: filter_empty_conv)
    then show ?thesis by (simp add: requireNodePerm_def requireUser_def resolveNodeAccess_def queryOne_def)
  qed
  moreover have "requireNodePerm db (Some user) (node_id n) perm = Inl notFound"
    if "n \<in> set (nodes db)" "node_org n = orgId" for n
    using resolveNodeAccess_inactive[OF assms(1) that(1), of "au_id user"] assms(2) that(2)
    by (auto simp: requireNodePerm_def requireUser_def)
  ultimately show ?thesis
    using none by (simp add: requireOrgPerm_def requireMembership_def requireUser_def)
qed

theorem inactive_passes_no_guard_witness:
  "requireNodePerm (wit_db Suspended) (Some \<lparr>au_id = ''u'', au_fingerprint = [], au_email = [], au_displayName = []\<rparr>) ''c'' ''node.view'' = Inl notFound"
proof -
  have "wit_nodes ! 2 \<in> set (nodes (wit_db Suspended))" "node_org (wit_nodes ! 2) = ''o''" "node_id (wit_nodes ! 2) = ''c''"
    by (simp_all add: wit_db_simps wit_nodes_def)
  moreover have "\<not> active_member (wit_db Suspended) ''u'' ''o''"
    by (simp add: active_member_def wit_db_simps)
  ultimately show ?thesis
    using inactive_passes_no_guard [OF wit_db_ok, of Suspended "\<lparr>au_id = ''u'', au_fingerprint = [], au_email = [], au_displayName = []\<rparr>" "''o''" "''node.view''"]
    by (auto dest!: bspec[of _ _ "wit_nodes ! 2"])
qed

text \<open>C26: an access entry on a folder reaches everything below it: an active member for whom the
  entry was made (directly or through a group of the organisation) passes the guard of each
  descendant for each permission of the entry's role.\<close>

theorem folder_share_cascades:
  assumes "db_ok db" "n \<in> set (nodes db)" "(node_id n, folder) \<in> (parent_of (nodes db))\<^sup>*"
    and "active_member db (au_id user) (node_org n)"
    and "nk \<in> set (node_keys db)" "nk_node nk = folder" "matches_user db (au_id user) (node_org n) nk" "grants db nk perm"
  shows "\<exists>access. requireNodePerm db (Some user) (node_id n) perm = Inr access \<and> na_nodeId access = node_id n"
proof -
  have has: "nodeHasPermission (resolveNodeAccess db (au_id user) (node_id n)) perm"
    unfolding nodeHasPermission_iff[OF assms(1,2)] using assms(3-) by blast
  then obtain a where a: "resolveNodeAccess db (au_id user) (node_id n) = Some a" "perm \<in> set (na_permissions a)"
    by (auto simp: nodeHasPermission_def split: option.splits)
  then have "na_permissions a \<noteq> []" by (cases "na_permissions a") simp_all
  then have "na_accessible a" using resolveNodeAccess_accessible[OF a(1)] by simp
  moreover have "na_nodeId a = node_id n"
    using a(1) by (auto simp: resolveNodeAccess_def queryOne_node_unique[OF assms(1,2)] Let_def split: option.splits)
  ultimately show ?thesis
    using a by (auto simp: requireNodePerm_def requireUser_def nodeHasPermission_def)
qed

theorem folder_share_cascades_witness:
  "\<exists>access. requireNodePerm (wit_db Active) (Some \<lparr>au_id = ''u'', au_fingerprint = [], au_email = [], au_displayName = []\<rparr>) ''c'' ''node.download'' = Inr access"
proof -
  have n: "wit_nodes ! 2 \<in> set (nodes (wit_db Active))" "node_org (wit_nodes ! 2) = ''o''" "node_id (wit_nodes ! 2) = ''c''"
    and act: "active_member (wit_db Active) ''u'' ''o''"
    by (simp_all add: wit_db_simps wit_nodes_def active_member_def)
  have "\<exists>access. requireNodePerm (wit_db Active) (Some \<lparr>au_id = ''u'', au_fingerprint = [], au_email = [], au_displayName = []\<rparr>)
      (node_id (wit_nodes ! 2)) ''node.download'' = Inr access \<and> na_nodeId access = node_id (wit_nodes ! 2)"
    using n act wit_db_path wit_db_grant
    by (intro folder_share_cascades [of _ _ "''g''" _ "wit_grant"])
      (simp_all add: wit_db_ok wit_grant_node)
  with n show ?thesis by auto
qed

text \<open>C39: the organisation role does not leak into the content: replacing the roles of memberships
  by any others (for instance promoting a member to administrator) changes no node permission of
  anyone.\<close>

theorem org_role_grants_no_content:
  assumes "db_ok db" "db_ok (db\<lparr>memberships := map (\<lambda>m. m\<lparr>mem_role := f m\<rparr>) (memberships db)\<rparr>)" "n \<in> set (nodes db)"
  shows "nodeHasPermission (resolveNodeAccess (db\<lparr>memberships := map (\<lambda>m. m\<lparr>mem_role := f m\<rparr>) (memberships db)\<rparr>) u (node_id n)) perm \<longleftrightarrow>
    nodeHasPermission (resolveNodeAccess db u (node_id n)) perm"
proof -
  let ?db = "db\<lparr>memberships := map (\<lambda>m. m\<lparr>mem_role := f m\<rparr>) (memberships db)\<rparr>"
  have "n \<in> set (nodes ?db)" using assms(3) by simp
  moreover have "active_member ?db u orgId \<longleftrightarrow> active_member db u orgId" for orgId
    by (auto simp: active_member_def)
  moreover have "matches_user ?db u orgId nk \<longleftrightarrow> matches_user db u orgId nk" for orgId nk
    by (simp add: matches_user_def)
  moreover have "grants ?db nk perm \<longleftrightarrow> grants db nk perm" for nk
    by (simp add: grants_def)
  ultimately show ?thesis
    by (simp add: nodeHasPermission_iff[OF assms(1,3)] nodeHasPermission_iff[OF assms(2)])
qed

theorem org_role_grants_no_content_witness:
  "nodeHasPermission (resolveNodeAccess ((wit_db Active)\<lparr>memberships := map (\<lambda>m. m\<lparr>mem_role := ''r''\<rparr>) (memberships (wit_db Active))\<rparr>) ''u'' ''c'') ''node.edit'' \<longleftrightarrow>
   nodeHasPermission (resolveNodeAccess (wit_db Active) ''u'' ''c'') ''node.edit''"
  using org_role_grants_no_content [OF wit_db_ok, of "\<lambda>_. ''r''" Active "wit_nodes ! 2" "''u''" "''node.edit''"]
  by (simp add: wit_db_simps wit_nodes_def db_ok_def)

lemma floor_seconds: "\<not> a < b div 1000 \<Longrightarrow> b < (a + 1) * (1000 :: int)"
  using mult_div_mod_eq[of 1000 b] pos_mod_bound[of 1000 b] by simp

text \<open>A request is authenticated only with a bearer token that verifies, for an existing active
  account, issued in or after the second of the account's last revocation, and, outside the exempt
  paths, with the second factor enrolled where the site requires it; the identity attached is the
  one of the token. Every refusal is a 401, or the 403 that asks for enrolment.\<close>

theorem authenticate_sound:
  "case authenticate verify mfaRequired users header url of
     Inr user \<Rightarrow> \<exists>h claims row. header = Some h \<and> prefix ''Bearer '' h \<and> verify (js_trim (drop 7 h)) = Some claims \<and>
       row \<in> set users \<and> ur_id row = tc_sub claims \<and> au_id user = tc_sub claims \<and> ur_status row = ''active'' \<and>
       ur_token_epoch row < (tc_iat claims + 1) * 1000 \<and>
       (mfaRequired (ur_id row) \<longrightarrow> (\<exists>p\<in>set MFA_EXEMPT. prefix p (takeWhile (\<lambda>c. c \<noteq> CHR ''?'') url)))
   | Inl e \<Rightarrow> e = unauthorized \<or> e = mfa_enrollment_required"
proof (cases "authenticate verify mfaRequired users header url")
  case (Inl e)
  then show ?thesis
    unfolding authenticate_def by (simp split: option.splits if_split_asm) 
next
  case (Inr user)
  obtain h where h: "header = Some h" "prefix ''Bearer '' h"
    using Inr unfolding authenticate_def by (simp split: option.splits if_split_asm)
  obtain claims where c: "verify (js_trim (drop 7 h)) = Some claims"
    using Inr unfolding authenticate_def h(1) by (simp split: option.splits if_split_asm)
  obtain row where r: "queryOne (filter (\<lambda>u. ur_id u = tc_sub claims) users) = Some row"
    using Inr unfolding authenticate_def h(1) by (simp add: c split: option.splits if_split_asm)
  then have row: "row \<in> set users" "ur_id row = tc_sub claims" by (auto dest!: queryOne_Some)
  have *: "ur_status row = ''active''" "\<not> tc_iat claims < ur_token_epoch row div 1000"
    "list_ex (\<lambda>p. prefix p (takeWhile (\<lambda>c. c \<noteq> CHR ''?'') url)) MFA_EXEMPT \<or> \<not> mfaRequired (ur_id row)"
    "au_id user = ur_id row"
    using Inr unfolding authenticate_def h(1) by (auto simp: c r h(2) split: if_split_asm)
  from *(2) have "ur_token_epoch row < (tc_iat claims + 1) * 1000"
    by (rule floor_seconds)
  moreover have "mfaRequired (ur_id row) \<longrightarrow> (\<exists>p\<in>set MFA_EXEMPT. prefix p (takeWhile (\<lambda>c. c \<noteq> CHR ''?'') url))"
    using *(3) unfolding list_ex_iff by blast
  ultimately show ?thesis
    unfolding Inr sum.case by (intro exI[of _ h] exI[of _ claims] exI[of _ row] conjI) (simp_all only: h c row *)
qed

theorem authenticate_sound_witness:
  "authenticate (\<lambda>_. Some \<lparr>tc_sub = ''u'', tc_iat = 5\<rparr>) (\<lambda>_. True)
     [\<lparr>ur_id = ''u'', ur_fingerprint = [], ur_email = [], ur_display_name = [], ur_status = ''active'', ur_token_epoch = 6000\<rparr>]
     (Some ''Bearer t'') ''/api/nodes'' = Inl unauthorized"
proof -
  let ?a = "authenticate (\<lambda>_. Some \<lparr>tc_sub = ''u'', tc_iat = 5\<rparr>) (\<lambda>_. True)
     [\<lparr>ur_id = ''u'', ur_fingerprint = [], ur_email = [], ur_display_name = [], ur_status = ''active'', ur_token_epoch = 6000\<rparr>]
     (Some ''Bearer t'') ''/api/nodes''"
  have "case ?a of Inr user \<Rightarrow> False | Inl e \<Rightarrow> e = unauthorized \<or> e = mfa_enrollment_required"
    using authenticate_sound [where verify = "\<lambda>_. Some \<lparr>tc_sub = ''u'', tc_iat = 5\<rparr>" and mfaRequired = "\<lambda>_. True"
      and users = "[\<lparr>ur_id = ''u'', ur_fingerprint = [], ur_email = [], ur_display_name = [], ur_status = ''active'', ur_token_epoch = 6000\<rparr>]"
      and header = "Some ''Bearer t''" and url = "''/api/nodes''"] by (simp split: sum.splits)
  moreover have "?a \<noteq> Inl mfa_enrollment_required"
    by (simp add: authenticate_def queryOne_def unauthorized_def mfa_enrollment_required_def)
  ultimately show ?thesis by (auto split: sum.splits)
qed

end
