(* ===== verification/Paging.thy ===== *)
theory Paging
  imports Prelude
begin

text \<open>
  Reading a table page by page with a cursor: \<^verbatim>\<open>WHERE id > cursor ORDER BY id LIMIT n\<close>, stopping at
  the first incomplete page. The audit verification and the backlog of the collaboration relay
  read their tables this way. \<open>paged\<close> is the contract: keys strictly increase along the ordered
  rows and pages are not empty; then the pages concatenate to the whole table.
\<close>

definition beyond :: "('r \<Rightarrow> nat) \<Rightarrow> nat option \<Rightarrow> 'r \<Rightarrow> bool" where
  "beyond key cursor r = (case cursor of None \<Rightarrow> True | Some a \<Rightarrow> a < key r)"

definition next_page :: "('r \<Rightarrow> nat) \<Rightarrow> nat \<Rightarrow> 'r list \<Rightarrow> nat option \<Rightarrow> 'r list" where
  "next_page key n rows cursor = take n (filter (beyond key cursor) rows)"

function scan_pages :: "('r \<Rightarrow> nat) \<Rightarrow> nat \<Rightarrow> 'r list \<Rightarrow> ('r \<Rightarrow> 's \<Rightarrow> 's) \<Rightarrow> nat option \<Rightarrow> 's \<Rightarrow> 's" where
  "scan_pages key n rows step cursor st =
     (let page = next_page key n rows cursor
      in if page = [] then st
         else let st' = fold step page st
              in if length page < n then st'
                 else scan_pages key n rows step (Some (key (last page))) st')"
  by pat_completeness auto

lemma filter_shrinks:
  "x \<in> set xs \<Longrightarrow> P x \<Longrightarrow> \<not> Q x \<Longrightarrow> (\<And>y. Q y \<Longrightarrow> P y) \<Longrightarrow> length (filter Q xs) < length (filter P xs)"
proof (induction xs)
  case (Cons y ys)
  have "length (filter Q ys) \<le> length (filter P ys)"
    using Cons.prems(4) by (induction ys) auto
  with Cons show ?case by (auto simp: less_Suc_eq_le)
qed simp

termination scan_pages
proof (relation "measure (\<lambda>(key, n, rows, step, cursor, st). length (filter (beyond key cursor) rows))", goal_cases)
  case (2 key n rows step cursor st page st')
  have "last page \<in> set (filter (beyond key cursor) rows)"
    using 2(2) last_in_set in_set_takeD unfolding 2(1) next_page_def by metis
  then have "length (filter (beyond key (Some (key (last page)))) rows) < length (filter (beyond key cursor) rows)"
    by (intro filter_shrinks[of "last page"]) (auto simp: beyond_def split: option.splits)
  then show ?case by simp
qed simp

declare scan_pages.simps [simp del]

locale paged =
  fixes key :: "'r \<Rightarrow> nat" and n :: nat
  assumes page_size: "0 < n"
begin

lemma later_rows:
  assumes "sorted_wrt (\<lambda>a b. key a < key b) rows" "next_page key n rows cursor \<noteq> []"
  shows "filter (beyond key (Some (key (last (next_page key n rows cursor))))) rows =
    drop n (filter (beyond key cursor) rows)"
proof -
  let ?F = "filter (beyond key cursor) rows"
  let ?l = "last (take n ?F)"
  have srt: "sorted_wrt (\<lambda>a b. key a < key b) ?F" using assms(1) by (rule sorted_wrt_filter)
  have ne: "take n ?F \<noteq> []" using assms(2) by (simp add: next_page_def)
  have l: "?l \<in> set ?F" using ne last_in_set in_set_takeD by metis
  have "filter (beyond key (Some (key ?l))) rows = filter (beyond key (Some (key ?l))) ?F"
    using l by (auto simp: beyond_def split: option.splits intro!: filter_cong)
  also have "\<dots> = filter (beyond key (Some (key ?l))) (take n ?F @ drop n ?F)" by simp
  also have "\<dots> = drop n ?F"
  proof -
    have 1: "\<not> key ?l < key x" if "x \<in> set (take n ?F)" for x
    proof -
      have t: "take n ?F = butlast (take n ?F) @ [?l]" using ne by simp
      have "sorted_wrt (\<lambda>a b. key a < key b) (butlast (take n ?F) @ [?l])"
        using srt unfolding t[symmetric] by (rule sorted_wrt_take)
      moreover have "x \<in> set (butlast (take n ?F)) \<or> x = ?l" using that t by (metis Un_iff empty_iff insert_iff list.set set_append)
      ultimately show ?thesis by (auto simp: sorted_wrt_append)
    qed
    have 2: "key ?l < key x" if "x \<in> set (drop n ?F)" for x
    proof -
      have "sorted_wrt (\<lambda>a b. key a < key b) (take n ?F @ drop n ?F)" using srt by simp
      with that ne show ?thesis unfolding sorted_wrt_append by simp
    qed
    have "filter (beyond key (Some (key ?l))) (take n ?F) = []" using 1 by (auto simp: filter_empty_conv beyond_def)
    moreover have "filter (beyond key (Some (key ?l))) (drop n ?F) = drop n ?F" using 2 by (auto simp: filter_id_conv beyond_def)
    ultimately show ?thesis by (simp only: filter_append append_Nil)
  qed
  finally show ?thesis by (simp only: next_page_def)
qed

lemma scan_from:
  assumes "sorted_wrt (\<lambda>a b. key a < key b) rows"
  shows "scan_pages key n rows step cursor st = fold step (filter (beyond key cursor) rows) st"
proof (induction "length (filter (beyond key cursor) rows)" arbitrary: cursor st rule: less_induct)
  case less
  let ?F = "filter (beyond key cursor) rows" and ?page = "next_page key n rows cursor"
  show ?case
  proof (cases "?page = []")
    case True
    then have "?F = []" using page_size by (simp add: next_page_def)
    with True show ?thesis by (subst scan_pages.simps) simp
  next
    case False
    show ?thesis
    proof (cases "length ?page < n")
      case True
      then have "?page = ?F" by (auto simp: next_page_def)
      with False True show ?thesis by (subst scan_pages.simps) (simp add: Let_def)
    next
      case full: False
      have later: "filter (beyond key (Some (key (last ?page)))) rows = drop n ?F"
        by (rule later_rows[OF assms False])
      have "?F \<noteq> []" using False by (auto simp: next_page_def)
      then have "length (drop n ?F) < length ?F" using page_size by simp
      then have "scan_pages key n rows step (Some (key (last ?page))) (fold step ?page st) = fold step (drop n ?F) (fold step ?page st)"
        using less[of "Some (key (last ?page))"] later by simp
      also have "\<dots> = fold step (?page @ drop n ?F) st" by simp
      also have "?page @ drop n ?F = ?F" by (simp add: next_page_def)
      finally show ?thesis
        using False full by (subst scan_pages.simps) (simp add: Let_def)
    qed
  qed
qed

lemma scan_all:
  "sorted_wrt (\<lambda>a b. key a < key b) rows \<Longrightarrow> scan_pages key n rows step None st = fold step rows st"
  using scan_from[of rows step None st] by (simp add: beyond_def)

end

end
