(* ===== verification/Relay.thy ===== *)
theory Relay
  imports Complex_Main Canonical Rbac Paging
begin

text \<open>
  The collaboration relay, \<^verbatim>\<open>server/src/collab/relay.ts\<close>: rooms of sockets, admission, the handling of
  the frames of a socket, the storage guards, ejection, compaction and the backlog. JavaScript runs
  a handler without interruption between two awaits: each such segment is one function on the state,
  and the events of the step function interleave the segments of any number of connections. The
  messages sent, the closed sockets and the messages for the other instances are the output.
  Byte counts are rational, since the code halves the length of a hexadecimal text.
\<close>

section \<open>Data\<close>

record relay_config =
  maxCollabMessageBytes :: nat
  maxCollabMessagesPerSec :: nat
  maxCollabConnectionsPerUser :: nat
  maxCollabBytesPerUserPerMinute :: rat

definition MAX_CIPHERTEXT_HEX :: "relay_config \<Rightarrow> nat" where
  "MAX_CIPHERTEXT_HEX cfg = maxCollabMessageBytes cfg * 2"

definition MAX_AWARENESS_CHARS :: nat where "MAX_AWARENESS_CHARS = 64 * 1024"
definition DISK_RECHECK_MS :: int where "DISK_RECHECK_MS = 5000"
definition ORG_USAGE_TTL_MS :: int where "ORG_USAGE_TTL_MS = 30000"
definition COLLAB_PAGE_SIZE :: nat where "COLLAB_PAGE_SIZE = 5000"

record peer =
  p_user :: string
  p_org :: string
  p_node :: string
  p_canWrite :: bool
  p_keyEpoch :: int
  p_msgCount :: nat
  p_windowStart :: int

datatype 'n server_msg =
    Ready bool int
  | OrgReady
  | PeerJoin string
  | Err string "string option" "nat option"
  | Update nat string string string
  | Ack string nat
  | Awareness string nat "'n json"
  | NodesChanged

datatype 'n relay_msg =
    RBcast string "'n server_msg"
  | RKick string string
  | ROrg string
  | RKickUser string string

text \<open>\<open>Unhandled\<close> is a rejection that no code of the process handles.\<close>

datatype 'n effect =
    Send nat "'n server_msg"
  | CloseSocket nat nat string
  | Publish "'n relay_msg"
  | Unhandled nat

record collab_row =
  cr_id :: nat
  cr_node :: string
  cr_ciphertext :: "8 word list"
  cr_nonce :: "8 word list"
  cr_author :: string

record key_state =
  ks_org :: string
  ks_key_epoch :: int
  ks_rotation_required :: bool

datatype place = InRoom string | InOrg string

text \<open>What an update waits for: the verdict on the disk or on the quota, either already known from a
  cache or being measured since the given time, or its insertion.\<close>

datatype stage = AtDisk "bool option" int | AtQuota "bool option" int | AtInsert

record upload =
  up_conn :: nat
  up_stage :: stage
  up_ct :: string
  up_nonce :: string

record relay =
  rooms :: "(string \<times> nat list) list"
  orgRooms :: "(string \<times> nat list) list"
  peers :: "nat \<Rightarrow> peer option"
  orgPeers :: "nat \<Rightarrow> string option"
  gone :: "nat list"
  cleanups :: "(nat \<times> place \<times> string) list"
  connectionsByUser :: "(string \<times> nat) list"
  bytesByUser :: "(string \<times> int \<times> rat) list"
  diskCache :: "int \<times> bool"
  orgUsage :: "(string \<times> int \<times> rat option \<times> rat) list"
  uploads :: "upload list"
  nodeKeys :: "(string \<times> key_state) list"
  updates :: "collab_row list"
  nextId :: nat
  orgQuota :: "(string \<times> rat option) list"
  versionBytes :: "string \<Rightarrow> rat"

section \<open>Rooms\<close>

definition room_of :: "(string \<times> nat list) list \<Rightarrow> string \<Rightarrow> nat list" where
  "room_of rs k = (case map_of rs k of None \<Rightarrow> [] | Some cs \<Rightarrow> cs)"

definition room_add :: "string \<Rightarrow> nat \<Rightarrow> (string \<times> nat list) list \<Rightarrow> (string \<times> nat list) list" where
  "room_add k c rs = AList.update k (set_add c (room_of rs k)) rs"

definition room_remove :: "string \<Rightarrow> nat \<Rightarrow> (string \<times> nat list) list \<Rightarrow> (string \<times> nat list) list" where
  "room_remove k c rs =
     (case map_of rs k of None \<Rightarrow> rs
      | Some cs \<Rightarrow> (let cs' = removeAll c cs in if cs' = [] then AList.delete k rs else AList.update k cs' rs))"

definition broadcast :: "relay \<Rightarrow> string \<Rightarrow> nat option \<Rightarrow> 'n server_msg \<Rightarrow> 'n effect list" where
  "broadcast st node from m = [Send c m. c \<leftarrow> room_of (rooms st) node, from \<noteq> Some c]"

definition kickRoomLocal :: "relay \<Rightarrow> string \<Rightarrow> string \<Rightarrow> relay \<times> 'n effect list" where
  "kickRoomLocal st node reason =
     (st\<lparr>rooms := AList.delete node (rooms st)\<rparr>, [CloseSocket c 4001 reason. c \<leftarrow> room_of (rooms st) node])"

definition kickRoom :: "relay \<Rightarrow> string \<Rightarrow> string \<Rightarrow> relay \<times> 'n effect list" where
  "kickRoom st node reason =
     (case kickRoomLocal st node reason of (st', outs) \<Rightarrow> (st', outs @ [Publish (RKick node reason)]))"

definition kickUserLocal :: "relay \<Rightarrow> string \<Rightarrow> string \<Rightarrow> 'n effect list" where
  "kickUserLocal st user reason =
     [CloseSocket c 4001 reason. room \<leftarrow> rooms st, c \<leftarrow> snd room, map_option p_user (peers st c) = Some user] @
     [CloseSocket c 4001 reason. room \<leftarrow> orgRooms st, c \<leftarrow> snd room, orgPeers st c = Some user]"

definition kickUser :: "relay \<Rightarrow> string \<Rightarrow> string \<Rightarrow> 'n effect list" where
  "kickUser st user reason = kickUserLocal st user reason @ [Publish (RKickUser user reason)]"

definition notifyOrgLocal :: "relay \<Rightarrow> string \<Rightarrow> 'n effect list" where
  "notifyOrgLocal st org = [Send c NodesChanged. c \<leftarrow> room_of (orgRooms st) org]"

definition notifyOrg :: "relay \<Rightarrow> string \<Rightarrow> 'n effect list" where
  "notifyOrg st org = notifyOrgLocal st org @ [Publish (ROrg org)]"

text \<open>A message of another instance.\<close>

definition onRelay :: "relay \<Rightarrow> 'n relay_msg \<Rightarrow> relay \<times> 'n effect list" where
  "onRelay st m =
     (case m of
        RBcast node msg \<Rightarrow> (st, broadcast st node None msg)
      | RKick node reason \<Rightarrow> kickRoomLocal st node reason
      | ROrg org \<Rightarrow> (st, notifyOrgLocal st org)
      | RKickUser user reason \<Rightarrow> (st, kickUserLocal st user reason))"

section \<open>Admission\<close>

definition hex_or_dash :: "char \<Rightarrow> bool" where
  "hex_or_dash c \<longleftrightarrow> hex_value c \<noteq> None \<or> c = CHR ''-''"

definition uuid_like :: "string \<Rightarrow> bool" where
  "uuid_like s \<longleftrightarrow> length s = 36 \<and> list_all hex_or_dash s"

text \<open>An error of the database is a refusal.\<close>

definition socketUserAllowed :: "(uuid \<Rightarrow> bool option) \<Rightarrow> user_row list option \<Rightarrow> token_claims \<Rightarrow> bool" where
  "socketUserAllowed mfaRequired rows claims =
     (case rows of None \<Rightarrow> False
      | Some us \<Rightarrow>
         (case queryOne (filter (\<lambda>u. ur_id u = tc_sub claims) us) of
            None \<Rightarrow> False
          | Some u \<Rightarrow>
              if ur_status u \<noteq> ''active'' then False
              else if tc_iat claims < ur_token_epoch u div 1000 then False
              else mfaRequired (tc_sub claims) = Some False))"

text \<open>The identity of a socket: a single-use ticket, or the token of the query while it is allowed.\<close>

definition socketClaims :: "(string \<Rightarrow> string \<Rightarrow> token_claims option) \<Rightarrow> (string \<Rightarrow> token_claims option) \<Rightarrow> bool \<Rightarrow>
    string option \<Rightarrow> string option \<Rightarrow> string \<Rightarrow> token_claims option" where
  "socketClaims consume verify allowQueryToken ticket tok target =
     (if ticket \<noteq> None \<and> ticket \<noteq> Some [] then consume (the ticket) target
      else if \<not> allowQueryToken then None
      else verify (case tok of None \<Rightarrow> [] | Some t \<Rightarrow> t))"

text \<open>What the admission queries answer, each at its own time: the claims, the account test, the
  access on the node and the state of its key. The last segment runs without interruption.\<close>

definition admit_room :: "relay_config \<Rightarrow> relay \<Rightarrow> nat \<Rightarrow> string \<Rightarrow> token_claims option \<Rightarrow> bool \<Rightarrow> node_access option \<Rightarrow>
    key_state option \<Rightarrow> int \<Rightarrow> relay \<times> 'n effect list" where
  "admit_room cfg st c node claims allowed access ks now =
     (case claims of
        None \<Rightarrow> (st, [CloseSocket c 1008 ''unauthorized''])
      | Some cl \<Rightarrow>
          if \<not> uuid_like node \<or> \<not> allowed then (st, [CloseSocket c 1008 ''unauthorized''])
          else (case access of
             None \<Rightarrow> (st, [CloseSocket c 1008 ''forbidden''])
           | Some ac \<Rightarrow>
               if \<not> na_accessible ac \<or> ''node.view'' \<notin> set (na_permissions ac) then (st, [CloseSocket c 1008 ''forbidden''])
               else (case ks of
                  None \<Rightarrow> (st, [CloseSocket c 1008 ''forbidden''])
                | Some k \<Rightarrow>
                    if c \<in> set (gone st) then (st, [])
                    else let user = tc_sub cl;
                             open_count = (case map_of (connectionsByUser st) user of None \<Rightarrow> 0 | Some n \<Rightarrow> n)
                         in if open_count \<ge> maxCollabConnectionsPerUser cfg
                            then (st, [CloseSocket c 1013 ''too many connections''])
                            else let p = \<lparr>p_user = user, p_org = na_orgId ac, p_node = node,
                                          p_canWrite = (''node.edit'' \<in> set (na_permissions ac) \<and> \<not> ks_rotation_required k),
                                          p_keyEpoch = ks_key_epoch k, p_msgCount = 0, p_windowStart = now\<rparr>;
                                     st' = st\<lparr>connectionsByUser := AList.update user (open_count + 1) (connectionsByUser st),
                                              peers := (peers st)(c \<mapsto> p),
                                              rooms := room_add node c (rooms st),
                                              cleanups := AList.update c (InRoom node, user) (cleanups st)\<rparr>
                                 in (st', [Send c (Ready (p_canWrite p) (p_keyEpoch p))] @
                                          broadcast st' node (Some c) (PeerJoin user) @
                                          [Publish (RBcast node (PeerJoin user))]))))"

definition admit_org :: "relay_config \<Rightarrow> relay \<Rightarrow> nat \<Rightarrow> string \<Rightarrow> token_claims option \<Rightarrow> bool \<Rightarrow> bool \<Rightarrow>
    relay \<times> 'n effect list" where
  "admit_org cfg st c org claims allowed member =
     (case claims of
        None \<Rightarrow> (st, [CloseSocket c 1008 ''unauthorized''])
      | Some cl \<Rightarrow>
          if \<not> uuid_like org \<or> \<not> allowed then (st, [CloseSocket c 1008 ''unauthorized''])
          else if \<not> member then (st, [CloseSocket c 1008 ''forbidden''])
          else if c \<in> set (gone st) then (st, [])
          else let user = tc_sub cl;
                   open_count = (case map_of (connectionsByUser st) user of None \<Rightarrow> 0 | Some n \<Rightarrow> n)
               in if open_count \<ge> maxCollabConnectionsPerUser cfg
                  then (st, [CloseSocket c 1013 ''too many connections''])
                  else (st\<lparr>connectionsByUser := AList.update user (open_count + 1) (connectionsByUser st),
                           orgPeers := (orgPeers st)(c \<mapsto> user),
                           orgRooms := room_add org c (orgRooms st),
                           cleanups := AList.update c (InOrg org, user) (cleanups st)\<rparr>,
                        [Send c OrgReady]))"

text \<open>The socket is gone: the first of its close and error events runs the registered cleanup, once.\<close>

definition socket_gone :: "relay \<Rightarrow> nat \<Rightarrow> relay" where
  "socket_gone st c =
     (if c \<in> set (gone st) then st
      else let st1 = st\<lparr>gone := c # gone st\<rparr>
           in case map_of (cleanups st) c of
                None \<Rightarrow> st1
              | Some (place, user) \<Rightarrow>
                  (let n = (case map_of (connectionsByUser st) user of None \<Rightarrow> 1 | Some n \<Rightarrow> n) - 1
                   in st1\<lparr>cleanups := AList.delete c (cleanups st),
                          rooms := (case place of InRoom node \<Rightarrow> room_remove node c (rooms st) | InOrg _ \<Rightarrow> rooms st),
                          orgRooms := (case place of InRoom _ \<Rightarrow> orgRooms st | InOrg org \<Rightarrow> room_remove org c (orgRooms st)),
                          connectionsByUser := (if n = 0 then AList.delete user (connectionsByUser st)
                                                else AList.update user n (connectionsByUser st))\<rparr>))"

section \<open>Storage guards\<close>

definition consumeCollabBytes :: "relay_config \<Rightarrow> (string \<times> int \<times> rat) list \<Rightarrow> string \<Rightarrow> rat \<Rightarrow> int \<Rightarrow>
    (string \<times> int \<times> rat) list \<times> bool" where
  "consumeCollabBytes cfg bm user bytes now =
     (let stale = (case map_of bm user of None \<Rightarrow> True | Some (start, _) \<Rightarrow> now - start \<ge> 60000);
          w = (if stale then (now, 0) else the (map_of bm user));
          bm1 = (if stale then AList.update user w bm else bm)
      in if snd w + bytes > maxCollabBytesPerUserPerMinute cfg then (bm1, False)
         else (AList.update user (fst w, snd w + bytes) bm1, True))"

text \<open>\<^verbatim>\<open>collabDiskAllows\<close> up to its first await: the cached verdict while it is recent.\<close>

definition disk_start :: "relay \<Rightarrow> int \<Rightarrow> stage" where
  "disk_start st now = AtDisk (if now - fst (diskCache st) < DISK_RECHECK_MS then Some (snd (diskCache st)) else None) now"

definition usage_fits :: "rat option \<Rightarrow> rat \<Rightarrow> rat \<Rightarrow> bool" where
  "usage_fits quota used bytes = (case quota of None \<Rightarrow> True | Some q \<Rightarrow> used + bytes \<le> q)"

definition quota_start :: "relay \<Rightarrow> string \<Rightarrow> rat \<Rightarrow> int \<Rightarrow> stage" where
  "quota_start st org bytes now =
     (case map_of (orgUsage st) org of
        None \<Rightarrow> AtQuota None now
      | Some (t0, quota, used) \<Rightarrow>
          if now - t0 \<ge> ORG_USAGE_TTL_MS then AtQuota None now else AtQuota (Some (usage_fits quota used bytes)) now)"

text \<open>The usage query: the versions of the organisation's nodes and its collaboration log.\<close>

definition org_used :: "relay \<Rightarrow> string \<Rightarrow> rat" where
  "org_used st org = versionBytes st org +
     (\<Sum>r\<leftarrow>updates st. if map_option ks_org (map_of (nodeKeys st) (cr_node r)) = Some org then of_nat (length (cr_ciphertext r)) else 0)"

definition recordCollabBytes :: "string \<Rightarrow> rat \<Rightarrow> relay \<Rightarrow> relay" where
  "recordCollabBytes org bytes st =
     (case map_of (orgUsage st) org of None \<Rightarrow> st
      | Some (t0, quota, used) \<Rightarrow> st\<lparr>orgUsage := AList.update org (t0, quota, used + bytes) (orgUsage st)\<rparr>)"

section \<open>Frames\<close>

definition reject :: "relay_config \<Rightarrow> nat \<Rightarrow> string \<Rightarrow> string \<Rightarrow> 'n effect" where
  "reject cfg c errcode nonce =
     Send c (Err errcode (if nonce = [] then None else Some nonce)
                 (if errcode = ''update_too_large'' then Some (maxCollabMessageBytes cfg) else None))"

definition all_hex :: "string \<Rightarrow> bool" where
  "all_hex s \<longleftrightarrow> s \<noteq> [] \<and> list_all (\<lambda>c. hex_value c \<noteq> None) s"

definition nonce_ok :: "string \<Rightarrow> bool" where
  "nonce_ok s \<longleftrightarrow> length s = 24 \<and> list_all (\<lambda>c. hex_value c \<noteq> None) s"

definition half_length :: "string \<Rightarrow> rat" where
  "half_length ct = of_nat (length ct) / 2"

definition update_frame :: "relay_config \<Rightarrow> relay \<Rightarrow> nat \<Rightarrow> peer \<Rightarrow> 'n json \<Rightarrow> int \<Rightarrow> relay \<times> 'n effect list" where
  "update_frame cfg st c p msg now =
     (let ct = str_of (prop_of msg ''ciphertext'');
          rawNonce = str_of (prop_of msg ''nonce'');
          nonce = (if nonce_ok rawNonce then rawNonce else [])
      in if \<not> p_canWrite p then (st, [reject cfg c ''read_only'' nonce])
         else if length ct > MAX_CIPHERTEXT_HEX cfg then (st, [reject cfg c ''update_too_large'' nonce])
         else if \<not> all_hex ct \<or> nonce = [] then (st, [reject cfg c ''invalid_update'' nonce])
         else (case consumeCollabBytes cfg (bytesByUser st) (p_user p) (half_length ct) now of
             (bm, False) \<Rightarrow> (st\<lparr>bytesByUser := bm\<rparr>, [reject cfg c ''rate_limited_bytes'' nonce])
           | (bm, True) \<Rightarrow>
               (st\<lparr>bytesByUser := bm,
                   uploads := uploads st @ [\<lparr>up_conn = c, up_stage = disk_start st now, up_ct = ct, up_nonce = nonce\<rparr>]\<rparr>, [])))"

definition awareness_frame :: "relay \<Rightarrow> nat \<Rightarrow> peer \<Rightarrow> string \<Rightarrow> 'n json \<Rightarrow> 'n effect list" where
  "awareness_frame st c p text msg =
     (let payload = prop_of msg ''payload'';
          u = prop_of payload ''u''
      in if (case u of JStr s \<Rightarrow> length s > MAX_AWARENESS_CHARS | _ \<Rightarrow> False) then []
         else if length text > MAX_AWARENESS_CHARS + 1024 then []
         else let m = Awareness (p_user p) c payload
              in broadcast st (p_node p) (Some c) m @ [Publish (RBcast (p_node p) m)])"

definition frame_window :: "peer \<Rightarrow> int \<Rightarrow> peer" where
  "frame_window p now =
     (let p1 = (if now - p_windowStart p \<ge> 1000 then p\<lparr>p_windowStart := now, p_msgCount := 0\<rparr> else p)
      in p1\<lparr>p_msgCount := p_msgCount p1 + 1\<rparr>)"

text \<open>The first segment of the handling of a frame; \<open>parse\<close> is \<^verbatim>\<open>JSON.parse\<close>. Reading a property of a
  parsed \<^verbatim>\<open>null\<close> throws inside an asynchronous function that nothing awaits.\<close>

definition on_frame :: "relay_config \<Rightarrow> (string \<Rightarrow> 'n json option) \<Rightarrow> relay \<Rightarrow> nat \<Rightarrow> string \<Rightarrow> int \<Rightarrow>
    relay \<times> 'n effect list" where
  "on_frame cfg parse st c text now =
     (case peers st c of
        None \<Rightarrow> (st, [])
      | Some p0 \<Rightarrow>
          (let p = frame_window p0 now;
               st1 = st\<lparr>peers := (peers st)(c \<mapsto> p)\<rparr>
           in if p_msgCount p > maxCollabMessagesPerSec cfg then (st1, [CloseSocket c 1013 ''rate limited''])
              else if length text > MAX_CIPHERTEXT_HEX cfg + 4096 then (st1, [reject cfg c ''update_too_large'' []])
              else (case parse text of
                 None \<Rightarrow> (st1, [])
               | Some msg \<Rightarrow>
                   if msg = JNull then (st1, [Unhandled c])
                   else if prop_of msg ''type'' = JStr ''update'' then update_frame cfg st1 c p msg now
                   else if prop_of msg ''type'' = JStr ''awareness'' then (st1, awareness_frame st1 c p text msg)
                   else (st1, []))))"

section \<open>The later segments of an update\<close>

definition refused :: "relay_config \<Rightarrow> upload \<Rightarrow> string \<Rightarrow> relay \<Rightarrow> relay \<times> 'n effect list \<times> stage option" where
  "refused cfg u errcode st = (st, [reject cfg (up_conn u) errcode (up_nonce u)], None)"

definition insert_update :: "relay_config \<Rightarrow> relay \<Rightarrow> upload \<Rightarrow> peer \<Rightarrow> relay \<times> 'n effect list \<times> stage option" where
  "insert_update cfg st u p =
     (case map_of (nodeKeys st) (p_node p) of
        Some k \<Rightarrow>
          if \<not> ks_rotation_required k \<and> ks_key_epoch k = p_keyEpoch p
          then let row = \<lparr>cr_id = nextId st, cr_node = p_node p, cr_ciphertext = hex_buffer (up_ct u),
                          cr_nonce = hex_buffer (up_nonce u), cr_author = p_user p\<rparr>;
                   st1 = recordCollabBytes (p_org p) (half_length (up_ct u))
                           (st\<lparr>updates := updates st @ [row], nextId := nextId st + 1\<rparr>);
                   m = Update (nextId st) (up_ct u) (up_nonce u) (p_user p)
               in (st1, broadcast st1 (p_node p) (Some (up_conn u)) m @ [Publish (RBcast (p_node p) m)] @
                        [Send (up_conn u) (Ack (up_nonce u) (nextId st))], None)
          else (st, [reject cfg (up_conn u) ''key_rotation_required'' (up_nonce u),
                     CloseSocket (up_conn u) 4001 ''key-rotation-required''], None)
      | None \<Rightarrow> (st, [reject cfg (up_conn u) ''key_rotation_required'' (up_nonce u),
                      CloseSocket (up_conn u) 4001 ''key-rotation-required''], None))"

definition quota_decided :: "relay_config \<Rightarrow> upload \<Rightarrow> bool \<Rightarrow> relay \<Rightarrow> relay \<times> 'n effect list \<times> stage option" where
  "quota_decided cfg u verdict st = (if verdict then (st, [], Some AtInsert) else refused cfg u ''quota_exceeded'' st)"

definition resume_stage :: "relay_config \<Rightarrow> relay \<Rightarrow> upload \<Rightarrow> peer \<Rightarrow> int \<Rightarrow> bool \<Rightarrow> bool \<Rightarrow>
    relay \<times> 'n effect list \<times> stage option" where
  "resume_stage cfg st u p now measured dbfails =
     (let bytes = half_length (up_ct u)
      in case up_stage u of
           AtDisk cached since \<Rightarrow>
             (let verdict = (case cached of Some v \<Rightarrow> v | None \<Rightarrow> measured);
                  st1 = (case cached of Some _ \<Rightarrow> st | None \<Rightarrow> st\<lparr>diskCache := (since, measured)\<rparr>)
              in if verdict then (st1, [], Some (quota_start st1 (p_org p) bytes now)) else refused cfg u ''disk_full'' st1)
         | AtQuota (Some verdict) since \<Rightarrow> quota_decided cfg u verdict st
         | AtQuota None since \<Rightarrow>
             (if dbfails then refused cfg u ''persist_failed'' st
              else let quota = (case map_of (orgQuota st) (p_org p) of None \<Rightarrow> None | Some q \<Rightarrow> q);
                       used = (if map_of (orgQuota st) (p_org p) = None then 0 else org_used st (p_org p))
                   in quota_decided cfg u (usage_fits quota used bytes)
                        (st\<lparr>orgUsage := AList.update (p_org p) (since, quota, used) (orgUsage st)\<rparr>))
         | AtInsert \<Rightarrow> if dbfails then refused cfg u ''persist_failed'' st else insert_update cfg st u p)"

text \<open>Continuing the \<open>i\<close>-th update under way.\<close>

definition resume :: "relay_config \<Rightarrow> relay \<Rightarrow> nat \<Rightarrow> int \<Rightarrow> bool \<Rightarrow> bool \<Rightarrow> relay \<times> 'n effect list" where
  "resume cfg st i now measured dbfails =
     (if i \<ge> length (uploads st) then (st, [])
      else let u = uploads st ! i
           in case peers st (up_conn u) of
                None \<Rightarrow> (st, [])
              | Some p \<Rightarrow>
                  (case resume_stage cfg st u p now measured dbfails of
                     (st1, outs, None) \<Rightarrow> (st1\<lparr>uploads := splice_remove i (uploads st)\<rparr>, outs)
                   | (st1, outs, Some stg) \<Rightarrow> (st1\<lparr>uploads := (uploads st)[i := u\<lparr>up_stage := stg\<rparr>]\<rparr>, outs)))"

section \<open>Requests\<close>

text \<open>Compaction: \<open>guard\<close> is the answer of the permission check, \<open>safe_int\<close> the value of a number that
  is a safe integer.\<close>

definition compact_body :: "('n \<Rightarrow> int option) \<Rightarrow> 'n json \<Rightarrow> (string \<times> string \<times> int) option" where
  "compact_body safe_int body =
     (let ct = str_of (prop_of body ''ciphertext''); nonce = str_of (prop_of body ''nonce'')
      in if \<not> all_hex ct \<or> \<not> nonce_ok nonce then None
         else case prop_of body ''upToSeq'' of
                JNum n \<Rightarrow> (case safe_int n of None \<Rightarrow> None | Some i \<Rightarrow> if i < 0 then None else Some (ct, nonce, i))
              | _ \<Rightarrow> None)"

definition compact :: "('n \<Rightarrow> int option) \<Rightarrow> relay \<Rightarrow> (api_error + node_access) \<Rightarrow> string \<Rightarrow> string \<Rightarrow> 'n json \<Rightarrow>
    relay \<times> 'n effect list \<times> (api_error + nat)" where
  "compact safe_int st guard user node body =
     (case guard of
        Inl e \<Rightarrow> (st, [], Inl e)
      | Inr access \<Rightarrow>
          (case compact_body safe_int body of
             None \<Rightarrow> (st, [], Inl badRequest)
           | Some (ct, nonce, upTo) \<Rightarrow>
               (let kept = filter (\<lambda>r. \<not> (cr_node r = node \<and> int (cr_id r) \<le> upTo)) (updates st);
                    row = \<lparr>cr_id = nextId st, cr_node = node, cr_ciphertext = hex_buffer ct,
                           cr_nonce = hex_buffer nonce, cr_author = user\<rparr>
                in case kickRoom (st\<lparr>updates := kept @ [row], nextId := nextId st + 1\<rparr>) node ''rekeyed'' of
                     (st', outs) \<Rightarrow> (st', outs, Inr (nextId st)))))"

text \<open>One page of the backlog, and the client's loop over the pages.\<close>

definition node_rows :: "relay \<Rightarrow> string \<Rightarrow> collab_row list" where
  "node_rows st node = sort_key cr_id (filter (\<lambda>r. cr_node r = node) (updates st))"

definition backlog :: "collab_row list \<Rightarrow> nat \<Rightarrow> bool \<times> collab_row list" where
  "backlog rows since =
     (let got = take (COLLAB_PAGE_SIZE + 1) (filter (\<lambda>r. since < cr_id r) rows);
          hasMore = (length got > COLLAB_PAGE_SIZE)
      in (hasMore, if hasMore then take COLLAB_PAGE_SIZE got else got))"

text \<open>The client's loop over the pages, \<^verbatim>\<open>readAllCollabUpdates\<close> of \<^verbatim>\<open>web-studio/src/drive-cloud/collab.ts\<close>,
  reading the server's log.\<close>

definition page_last :: "collab_row list \<Rightarrow> nat \<Rightarrow> nat" where
  "page_last page since = (if page = [] then since else Max (cr_id ` set page))"

function read_all :: "collab_row list \<Rightarrow> nat \<Rightarrow> collab_row list \<Rightarrow> collab_row list \<times> nat" where
  "read_all rows since acc =
     (case backlog rows since of
        (hm, page) \<Rightarrow>
          (let all' = acc @ page; last' = page_last page since
           in if \<not> hm \<or> last' \<le> since then (all', max since last') else read_all rows last' all'))"
  by pat_completeness auto

lemma backlog_after: "backlog rows since = (hm, page) \<Longrightarrow> r \<in> set page \<Longrightarrow> r \<in> set rows \<and> since < cr_id r"
  by (auto simp: backlog_def Let_def split: if_splits dest!: in_set_takeD)

termination read_all
proof (relation "measure (\<lambda>(rows, since, acc). length (filter (\<lambda>r. since < cr_id r) rows))", goal_cases)
  case (2 rows since acc hm page all' last')
  then have "page \<noteq> []" by (auto simp: page_last_def)
  then have "last' \<in> cr_id ` set page" using 2 Max_in[of "cr_id ` set page"] by (simp add: page_last_def)
  then obtain r where "r \<in> set page" "cr_id r = last'" by auto
  then have "r \<in> set rows" "since < cr_id r" "\<not> last' < cr_id r" "since < last'"
    using 2 backlog_after[of rows since hm page r] by auto
  then have "length (filter (\<lambda>r. last' < cr_id r) rows) < length (filter (\<lambda>r. since < cr_id r) rows)"
    by (intro filter_shrinks[of r]) auto
  then show ?case by simp
qed simp

section \<open>Events\<close>

datatype 'n event =
    OpenRoom nat string "token_claims option" bool "node_access option" "key_state option" int
  | OpenOrg nat string "token_claims option" bool bool
  | SocketGone nat
  | Frame nat string int
  | Resume nat int bool bool
  | Compact "api_error + node_access" string string "'n json"
  | KickRoom string string
  | KickUser string string
  | NotifyOrg string
  | Remote "'n relay_msg"
  | KeyChange string key_state

fun relay_step :: "relay_config \<Rightarrow> (string \<Rightarrow> 'n json option) \<Rightarrow> ('n \<Rightarrow> int option) \<Rightarrow> relay \<Rightarrow> 'n event \<Rightarrow>
    relay \<times> 'n effect list" where
  "relay_step cfg parse safe_int st (OpenRoom c node claims allowed access ks now) = admit_room cfg st c node claims allowed access ks now"
| "relay_step cfg parse safe_int st (OpenOrg c org claims allowed member) = admit_org cfg st c org claims allowed member"
| "relay_step cfg parse safe_int st (SocketGone c) = (socket_gone st c, [])"
| "relay_step cfg parse safe_int st (Frame c text now) = on_frame cfg parse st c text now"
| "relay_step cfg parse safe_int st (Resume i now measured dbfails) = resume cfg st i now measured dbfails"
| "relay_step cfg parse safe_int st (Compact guard user node body) =
     (case compact safe_int st guard user node body of (st', outs, _) \<Rightarrow> (st', outs))"
| "relay_step cfg parse safe_int st (KickRoom node reason) = kickRoom st node reason"
| "relay_step cfg parse safe_int st (KickUser user reason) = (st, kickUser st user reason)"
| "relay_step cfg parse safe_int st (NotifyOrg org) = (st, notifyOrg st org)"
| "relay_step cfg parse safe_int st (Remote m) = onRelay st m"
| "relay_step cfg parse safe_int st (KeyChange node k) = (st\<lparr>nodeKeys := AList.update node k (nodeKeys st)\<rparr>, [])"

text \<open>A socket is opened once.\<close>

fun fresh_socket :: "relay \<Rightarrow> 'n event \<Rightarrow> bool" where
  "fresh_socket st (OpenRoom c _ _ _ _ _ _) = (peers st c = None \<and> orgPeers st c = None)"
| "fresh_socket st (OpenOrg c _ _ _ _) = (peers st c = None \<and> orgPeers st c = None)"
| "fresh_socket st _ = True"

definition relay_init :: "(string \<times> key_state) list \<Rightarrow> (string \<times> rat option) list \<Rightarrow> (string \<Rightarrow> rat) \<Rightarrow> relay" where
  "relay_init keys quotas versions =
     \<lparr>rooms = [], orgRooms = [], peers = (\<lambda>_. None), orgPeers = (\<lambda>_. None), gone = [], cleanups = [],
      connectionsByUser = [], bytesByUser = [], diskCache = (0, True), orgUsage = [], uploads = [],
      nodeKeys = keys, updates = [], nextId = 1, orgQuota = quotas, versionBytes = versions\<rparr>"

inductive run :: "relay_config \<Rightarrow> (string \<Rightarrow> 'n json option) \<Rightarrow> ('n \<Rightarrow> int option) \<Rightarrow> relay \<Rightarrow> 'n event list \<Rightarrow>
    relay \<Rightarrow> 'n effect list \<Rightarrow> bool" for cfg parse safe_int st0 where
  run_none: "run cfg parse safe_int st0 [] st0 []"
| run_step: "run cfg parse safe_int st0 evs st outs \<Longrightarrow> fresh_socket st ev \<Longrightarrow>
    relay_step cfg parse safe_int st ev = (st', outs') \<Longrightarrow>
    run cfg parse safe_int st0 (evs @ [ev]) st' (outs @ outs')"

end
