(* ===== verification/Relay_Safety.thy ===== *)
theory Relay_Safety
  imports Relay
begin

text \<open>
  What the relay guarantees whatever the interleaving of its handlers: connections are counted and
  capped, an update is answered exactly once, an acknowledged update is stored under the current
  key, no update disappears from the backlog, and a client that follows the pages reads all of it.
\<close>

section \<open>Connections\<close>

definition counter :: "relay \<Rightarrow> string \<Rightarrow> nat" where
  "counter st u = (case map_of (connectionsByUser st) u of None \<Rightarrow> 0 | Some n \<Rightarrow> n)"

definition open_sockets :: "relay \<Rightarrow> string \<Rightarrow> nat list" where
  "open_sockets st u = map fst (filter (\<lambda>x. snd (snd x) = u) (cleanups st))"

definition present :: "relay \<Rightarrow> bool" where
  "present st \<longleftrightarrow> (\<forall>node c. c \<in> set (room_of (rooms st) node) \<longrightarrow> (\<exists>u. map_of (cleanups st) c = Some (InRoom node, u))) \<and>
     (\<forall>org c. c \<in> set (room_of (orgRooms st) org) \<longrightarrow> (\<exists>u. map_of (cleanups st) c = Some (InOrg org, u))) \<and>
     (\<forall>node. map_of (rooms st) node \<noteq> Some []) \<and> (\<forall>org. map_of (orgRooms st) org \<noteq> Some [])"

definition tracked :: "relay \<Rightarrow> bool" where
  "tracked st \<longleftrightarrow> distinct (map fst (cleanups st)) \<and>
     (\<forall>c \<in> fst ` set (cleanups st). c \<notin> set (gone st) \<and> (peers st c \<noteq> None \<or> orgPeers st c \<noteq> None))"

definition counted :: "relay_config \<Rightarrow> relay \<Rightarrow> bool" where
  "counted cfg st \<longleftrightarrow> (\<forall>u. counter st u = length (open_sockets st u) \<and> counter st u \<le> maxCollabConnectionsPerUser cfg)"

definition conn_inv :: "relay_config \<Rightarrow> relay \<Rightarrow> bool" where
  "conn_inv cfg st \<longleftrightarrow> tracked st \<and> present st \<and> counted cfg st"

lemma conn_invD:
  "conn_inv cfg st \<Longrightarrow> counter st v = length (open_sockets st v) \<and> counter st v \<le> maxCollabConnectionsPerUser cfg"
  unfolding conn_inv_def counted_def by blast

lemma update_fresh: "k \<notin> fst ` set xs \<Longrightarrow> AList.update k v xs = xs @ [(k, v)]"
  by (induction xs) auto

lemma delete_count:
  "distinct (map fst xs) \<Longrightarrow> map_of xs k = Some v \<Longrightarrow>
    length (filter P xs) = length (filter P (AList.delete k xs)) + (if P (k, v) then 1 else 0)"
proof (induction xs)
  case (Cons x xs)
  show ?case
  proof (cases "fst x = k")
    case True
    then have "AList.delete k xs = xs" using Cons.prems(1) by (auto simp: delete_id)
    with True Cons show ?thesis by (cases x) auto
  next
    case False
    with Cons show ?thesis by (cases x) auto
  qed
qed simp

lemma room_of_add [simp]: "room_of (room_add k c rs) k' = (if k' = k then set_add c (room_of rs k) else room_of rs k')"
  by (simp add: room_of_def room_add_def keyed_simps)

lemma room_of_remove [simp]: "set (room_of (room_remove k c rs) k') = set (room_of rs k') - (if k' = k then {c} else {})"
  by (auto simp: room_of_def room_remove_def keyed_simps Let_def removeAll_filter_not_eq filter_empty_conv split: option.splits)

lemma room_add_nonempty: "map_of rs k' \<noteq> Some [] \<Longrightarrow> map_of (room_add k c rs) k' \<noteq> Some []"
  by (auto simp: room_add_def keyed_simps set_add_def)

lemma room_remove_nonempty: "\<forall>k. map_of rs k \<noteq> Some [] \<Longrightarrow> map_of (room_remove k c rs) k' \<noteq> Some []"
  by (auto simp: room_remove_def keyed_simps Let_def split: option.splits)

lemma room_of_delete [simp]: "room_of (AList.delete k rs) k' = (if k' = k then [] else room_of rs k')"
  by (simp add: room_of_def keyed_simps)

text \<open>Registering a fresh socket.\<close>

lemma conn_inv_register:
  assumes inv: "conn_inv cfg st" and fresh: "peers st c = None" "orgPeers st c = None" "c \<notin> set (gone st)"
    and room: "counter st u < maxCollabConnectionsPerUser cfg"
    and st': "connectionsByUser st' = AList.update u (counter st u + 1) (connectionsByUser st)"
      "cleanups st' = AList.update c (pl, u) (cleanups st)" "gone st' = gone st"
      "peers st' c \<noteq> None \<or> orgPeers st' c \<noteq> None" "\<And>d. peers st d \<noteq> None \<Longrightarrow> peers st' d \<noteq> None"
      "\<And>d. orgPeers st d \<noteq> None \<Longrightarrow> orgPeers st' d \<noteq> None"
      "rooms st' = (case pl of InRoom node \<Rightarrow> room_add node c (rooms st) | InOrg _ \<Rightarrow> rooms st)"
      "orgRooms st' = (case pl of InRoom _ \<Rightarrow> orgRooms st | InOrg org \<Rightarrow> room_add org c (orgRooms st))"
  shows "conn_inv cfg st'"
proof -
  have new: "c \<notin> fst ` set (cleanups st)" using inv fresh by (auto simp: conn_inv_def tracked_def)
  then have cl: "cleanups st' = cleanups st @ [(c, pl, u)]" by (simp add: st' update_fresh)
  have "tracked st'"
  proof -
    have "peers st' d \<noteq> None \<or> orgPeers st' d \<noteq> None" if "d \<in> fst ` set (cleanups st)" for d
      using inv that st'(5,6) unfolding conn_inv_def tracked_def by blast
    then show ?thesis
      using inv new fresh(3) st'(3,4) unfolding conn_inv_def tracked_def cl by auto
  qed
  moreover have "counted cfg st'"
  proof -
    have "counter st' v = (if v = u then counter st u + 1 else counter st v)" for v
      by (simp add: counter_def st' keyed_simps)
    moreover have "length (open_sockets st' v) = length (open_sockets st v) + (if v = u then 1 else 0)" for v
      by (simp add: open_sockets_def cl)
    ultimately show ?thesis
      unfolding counted_def using inv room by (metis conn_inv_def counted_def Suc_eq_plus1 Suc_leI add_0_right)
  qed
  moreover have "present st'"
  proof -
    have look: "map_of (cleanups st') d = (if d = c then Some (pl, u) else map_of (cleanups st) d)" for d
      by (simp add: st' keyed_simps)
    have old: "d \<noteq> c" if "d \<in> set (room_of (rooms st) node) \<or> d \<in> set (room_of (orgRooms st) node)" for d node
      using that inv new unfolding conn_inv_def present_def by (metis map_of_eq_None_iff option.distinct(1))
    show ?thesis
      using inv old unfolding conn_inv_def present_def look st'(7,8)
      by (cases pl) (auto simp: room_add_nonempty)
  qed
  ultimately show ?thesis by (simp add: conn_inv_def)
qed

text \<open>Its end.\<close>

lemma delete_lookup: "map_of (AList.delete c xs) d = (if d = c then None else map_of xs d)"
  by (simp add: keyed_simps)

lemma conn_inv_gone: "conn_inv cfg st \<Longrightarrow> conn_inv cfg (socket_gone st c)"
proof (cases "c \<in> set (gone st)")
  case False
  assume inv: "conn_inv cfg st"
  show ?thesis
  proof (cases "map_of (cleanups st) c")
    case None
    then have "c \<notin> fst ` set (cleanups st)" by (simp add: map_of_eq_None_iff)
    moreover have "socket_gone st c = st\<lparr>gone := c # gone st\<rparr>" using False None by (simp add: socket_gone_def)
    moreover have "present (st\<lparr>gone := g\<rparr>) = present st" "counted cfg (st\<lparr>gone := g\<rparr>) = counted cfg st" for g
      by (simp_all add: present_def counted_def counter_def open_sockets_def)
    ultimately show ?thesis using inv by (auto simp: conn_inv_def tracked_def)
  next
    case (Some x)
    obtain pl u where x: "x = (pl, u)" by force
    let ?st = "socket_gone st c"
    have dist: "distinct (map fst (cleanups st))" using inv by (simp add: conn_inv_def tracked_def)
    have cl: "cleanups ?st = AList.delete c (cleanups st)"
      using False Some x by (simp add: socket_gone_def Let_def)
    have num: "length (open_sockets st v) = length (open_sockets ?st v) + (if v = u then 1 else 0)" for v
      using delete_count[OF dist Some, of "\<lambda>x. snd (snd x) = v"] by (auto simp: open_sockets_def cl x)
    have pos: "\<exists>n. map_of (connectionsByUser st) u = Some n \<and> n > 0"
    proof -
      have "counter st u = length (open_sockets st u)" using inv by (simp add: conn_inv_def counted_def)
      then have "counter st u \<ge> 1" using num[of u] by simp
      then show ?thesis by (cases "map_of (connectionsByUser st) u") (auto simp: counter_def)
    qed
    have cnt: "counter ?st v = counter st v - (if v = u then 1 else 0)" for v
      using False Some x pos by (auto simp: socket_gone_def Let_def counter_def keyed_simps)
    have "counted cfg ?st"
      unfolding counted_def
    proof
      fix v
      have "counter st v = length (open_sockets st v)" "counter st v \<le> maxCollabConnectionsPerUser cfg"
        using conn_invD[OF inv] by blast+
      then show "counter ?st v = length (open_sockets ?st v) \<and> counter ?st v \<le> maxCollabConnectionsPerUser cfg"
        using num[of v] cnt[of v] by simp
    qed
    moreover have "tracked ?st"
    proof -
      have "fst ` set (AList.delete c (cleanups st)) = fst ` set (cleanups st) - {c}" 
        using arg_cong[OF delete_keys, of set c "cleanups st"] by simp
      moreover have "gone ?st = c # gone st" "peers ?st = peers st" "orgPeers ?st = orgPeers st"
        using False Some x by (simp_all add: socket_gone_def Let_def)
      moreover have "\<forall>d\<in>fst ` set (cleanups st). d \<notin> set (gone st) \<and> (peers st d \<noteq> None \<or> orgPeers st d \<noteq> None)"
        using inv unfolding conn_inv_def tracked_def by blast
      ultimately show ?thesis
        using distinct_delete[OF dist, of c] unfolding tracked_def cl by (metis (no_types, lifting) DiffE insertI1 set_ConsD)
    qed
    moreover have "present ?st"
    proof -
      have m: "c \<in> set (room_of (rooms st) node) \<Longrightarrow> pl = InRoom node" "c \<in> set (room_of (orgRooms st) node) \<Longrightarrow> pl = InOrg node" for node
        using inv Some x unfolding conn_inv_def present_def by fastforce+
      show ?thesis
        using inv False Some x m unfolding conn_inv_def present_def cl delete_lookup
        by (cases pl) (auto simp: socket_gone_def Let_def room_remove_nonempty)
    qed
    ultimately show ?thesis by (simp add: conn_inv_def)
  qed
qed (simp add: socket_gone_def)

text \<open>The parts of the state the invariant reads.\<close>

definition conn_view :: "relay \<Rightarrow> (string \<times> nat) list \<times> (nat \<times> place \<times> string) list \<times> nat list \<times>
    (string \<times> nat list) list \<times> (string \<times> nat list) list" where
  "conn_view st = (connectionsByUser st, cleanups st, gone st, rooms st, orgRooms st)"

lemma conn_inv_view:
  assumes "conn_inv cfg st" "conn_view st' = conn_view st" "\<And>c. peers st c \<noteq> None \<Longrightarrow> peers st' c \<noteq> None"
    "orgPeers st' = orgPeers st"
  shows "conn_inv cfg st'"
proof -
  have v: "connectionsByUser st' = connectionsByUser st" "cleanups st' = cleanups st" "gone st' = gone st"
    "rooms st' = rooms st" "orgRooms st' = orgRooms st"
    using assms(2) by (simp_all add: conn_view_def)
  have "counted cfg st' = counted cfg st" "present st' = present st"
    by (simp_all add: counted_def present_def counter_def open_sockets_def v)
  moreover have "tracked st \<Longrightarrow> tracked st'"
    unfolding tracked_def v assms(4) using assms(3) by blast
  ultimately show ?thesis using assms(1) by (simp add: conn_inv_def)
qed

lemma record_view [simp]: "conn_view (recordCollabBytes org b st) = conn_view st" "peers (recordCollabBytes org b st) = peers st"
  "orgPeers (recordCollabBytes org b st) = orgPeers st" "uploads (recordCollabBytes org b st) = uploads st"
  "updates (recordCollabBytes org b st) = updates st" "nextId (recordCollabBytes org b st) = nextId st"
  "nodeKeys (recordCollabBytes org b st) = nodeKeys st" "rooms (recordCollabBytes org b st) = rooms st"
  by (simp_all add: recordCollabBytes_def conn_view_def split: option.splits prod.splits)

lemma stage_view:
  "resume_stage cfg st u p now m f = (st', outs, s) \<Longrightarrow>
    conn_view st' = conn_view st \<and> peers st' = peers st \<and> orgPeers st' = orgPeers st \<and> uploads st' = uploads st"
  by (auto simp: resume_stage_def refused_def quota_decided_def insert_update_def Let_def conn_view_def
      split: stage.splits option.splits if_splits)
     (auto simp: recordCollabBytes_def split: option.splits)

lemma resume_cases:
  assumes "resume cfg st i now m f = (st', outs :: 'n effect list)"
  obtains (stay) "st' = st" "outs = []"
  | (answered) p st1 where "i < length (uploads st)" "peers st (up_conn (uploads st ! i)) = Some p"
      "resume_stage cfg st (uploads st ! i) p now m f = (st1, outs, None)" "st' = st1\<lparr>uploads := splice_remove i (uploads st)\<rparr>"
  | (on) p st1 stg where "i < length (uploads st)" "peers st (up_conn (uploads st ! i)) = Some p"
      "resume_stage cfg st (uploads st ! i) p now m f = (st1, outs, Some stg)"
      "st' = st1\<lparr>uploads := (uploads st)[i := (uploads st ! i)\<lparr>up_stage := stg\<rparr>]\<rparr>"
proof (cases "i < length (uploads st) \<and> peers st (up_conn (uploads st ! i)) \<noteq> None")
  case True
  then obtain p where p: "peers st (up_conn (uploads st ! i)) = Some p" by auto
  obtain st1 sg and outs1 :: "'n effect list" where sg: "resume_stage cfg st (uploads st ! i) p now m f = (st1, outs1, sg)"
    by (metis prod_cases3)
  show thesis
  proof (cases sg)
    case None
    then show thesis using assms True p sg answered by (auto simp: resume_def Let_def)
  next
    case (Some stg)
    then show thesis using assms True p sg on by (auto simp: resume_def Let_def)
  qed
next
  case False
  then have "st' = st" "outs = []" using assms by (cases "i < length (uploads st)"; simp add: resume_def Let_def)+
  then show thesis by (rule stay)
qed

lemma resume_view:
  assumes "resume cfg st i now m f = (st', outs)"
  shows "conn_view st' = conn_view st \<and> peers st' = peers st \<and> orgPeers st' = orgPeers st"
  using assms by (cases rule: resume_cases) (auto simp: conn_view_def dest!: stage_view[unfolded conn_view_def])

lemma frame_view:
  "on_frame cfg parse st c text now = (st', outs) \<Longrightarrow>
    conn_view st' = conn_view st \<and> (\<forall>d. peers st d \<noteq> None \<longrightarrow> peers st' d \<noteq> None) \<and> orgPeers st' = orgPeers st"
  by (auto simp: on_frame_def update_frame_def Let_def conn_view_def split: option.splits if_splits prod.splits bool.splits)

lemma conn_inv_kick:
  assumes "conn_inv cfg st" "rooms st' = AList.delete node (rooms st)" "connectionsByUser st' = connectionsByUser st"
    "cleanups st' = cleanups st" "gone st' = gone st" "orgRooms st' = orgRooms st" "peers st' = peers st" "orgPeers st' = orgPeers st"
  shows "conn_inv cfg st'"
proof -
  have "counted cfg st' = counted cfg st" "tracked st' = tracked st"
    by (simp_all add: counted_def counter_def open_sockets_def tracked_def assms)
  moreover have "present st \<Longrightarrow> present st'"
    unfolding present_def assms(2-) by (auto simp: keyed_simps)
  ultimately show ?thesis using assms(1) by (simp add: conn_inv_def)
qed

lemma conn_inv_step:
  assumes inv: "conn_inv cfg st" and "fresh_socket st ev" "relay_step cfg parse safe_int st ev = (st', outs)"
  shows "conn_inv cfg st'"
proof (cases ev)
  case (OpenRoom c node claims allowed access ks now)
  then have st': "admit_room cfg st c node claims allowed access ks now = (st', outs)" and f: "peers st c = None" "orgPeers st c = None"
    using assms(2,3) by simp_all
  show ?thesis
  proof (cases "st' = st")
    case False
    then obtain cl ac k where a: "claims = Some cl" "access = Some ac" "ks = Some k" "c \<notin> set (gone st)"
      "\<not> counter st (tc_sub cl) \<ge> maxCollabConnectionsPerUser cfg"
      and s: "connectionsByUser st' = AList.update (tc_sub cl) (counter st (tc_sub cl) + 1) (connectionsByUser st)"
        "cleanups st' = AList.update c (InRoom node, tc_sub cl) (cleanups st)" "gone st' = gone st"
        "peers st' c \<noteq> None" "\<forall>d. peers st d \<noteq> None \<longrightarrow> peers st' d \<noteq> None" "orgPeers st' = orgPeers st"
        "rooms st' = room_add node c (rooms st)" "orgRooms st' = orgRooms st"
      using st' by (auto simp: admit_room_def Let_def counter_def[symmetric] split: option.splits if_splits)
    show ?thesis
      by (rule conn_inv_register[OF inv f a(4), where u = "tc_sub cl" and pl = "InRoom node"]) (use a s in auto)
  qed (use inv in simp)
next
  case (OpenOrg c org claims allowed member)
  then have st': "admit_org cfg st c org claims allowed member = (st', outs)" and f: "peers st c = None" "orgPeers st c = None"
    using assms(2,3) by simp_all
  show ?thesis
  proof (cases "st' = st")
    case False
    then obtain cl where a: "claims = Some cl" "c \<notin> set (gone st)" "\<not> counter st (tc_sub cl) \<ge> maxCollabConnectionsPerUser cfg"
      and s: "connectionsByUser st' = AList.update (tc_sub cl) (counter st (tc_sub cl) + 1) (connectionsByUser st)"
        "cleanups st' = AList.update c (InOrg org, tc_sub cl) (cleanups st)" "gone st' = gone st"
        "peers st' = peers st" "orgPeers st' = (orgPeers st)(c \<mapsto> tc_sub cl)"
        "rooms st' = rooms st" "orgRooms st' = room_add org c (orgRooms st)"
      using st' by (auto simp: admit_org_def Let_def counter_def[symmetric] split: option.splits if_splits)
    show ?thesis
      by (rule conn_inv_register[OF inv f a(2), where u = "tc_sub cl" and pl = "InOrg org"]) (use a s in auto)
  qed (use inv in simp)
next
  case (SocketGone c)
  then show ?thesis using assms conn_inv_gone by auto
next
  case (Frame c raw now)
  then show ?thesis using assms frame_view[of cfg parse st c raw now st' outs] by (intro conn_inv_view[OF inv]) auto
next
  case (Resume i now m f)
  then have "conn_view st' = conn_view st \<and> peers st' = peers st \<and> orgPeers st' = orgPeers st"
    using assms(3) resume_view[of cfg st i now m f st' outs] by simp
  then show ?thesis by (intro conn_inv_view[OF inv]) auto
next
  case (Compact guard user node body)
  show ?thesis
  proof (cases "st' = st")
    case False
    then show ?thesis
      using assms(3) Compact
      by (intro conn_inv_kick[OF inv, of st' node])
        (auto simp: compact_def kickRoom_def kickRoomLocal_def Let_def split: sum.splits option.splits)
  qed (use inv in simp)
next
  case (KickRoom node reason)
  then show ?thesis
    using assms(3) by (intro conn_inv_kick[OF inv, of st' node]) (auto simp: kickRoom_def kickRoomLocal_def)
next
  case (Remote m)
  show ?thesis
  proof (cases m)
    case (RKick node reason)
    then show ?thesis
      using assms(3) Remote by (intro conn_inv_kick[OF inv, of st' node]) (auto simp: onRelay_def kickRoomLocal_def)
  qed (insert assms(3) Remote inv, auto simp: onRelay_def)
next
  case (KeyChange node k)
  then show ?thesis using assms(3) by (intro conn_inv_view[OF inv]) (auto simp: conn_view_def)
qed (use assms(3) inv in auto)

lemma conn_inv_init: "conn_inv cfg (relay_init keys quotas versions)"
  by (simp add: relay_init_def conn_inv_def tracked_def present_def counted_def counter_def open_sockets_def room_of_def)

lemma conn_inv_run: "run cfg parse safe_int st0 evs st outs \<Longrightarrow> conn_inv cfg st0 \<Longrightarrow> conn_inv cfg st"
  by (induction rule: run.induct) (auto intro: conn_inv_step)

section \<open>Running a sequence of events\<close>

fun after :: "relay_config \<Rightarrow> (string \<Rightarrow> 'n json option) \<Rightarrow> ('n \<Rightarrow> int option) \<Rightarrow> relay \<Rightarrow> 'n event list \<Rightarrow> relay" where
  "after cfg parse safe_int st [] = st"
| "after cfg parse safe_int st (ev # evs) = after cfg parse safe_int (fst (relay_step cfg parse safe_int st ev)) evs"

lemma after_snoc: "after cfg parse safe_int st (evs @ [ev]) = fst (relay_step cfg parse safe_int (after cfg parse safe_int st evs) ev)"
  by (induction evs arbitrary: st) simp_all

section \<open>A sample run\<close>

text \<open>An account joins a room and sends an update, which is measured against the disk and the quota and
  stored.\<close>

definition sample_config :: relay_config where
  "sample_config = \<lparr>maxCollabMessageBytes = 100, maxCollabMessagesPerSec = 10, maxCollabConnectionsPerUser = 2,
     maxCollabBytesPerUserPerMinute = 1000\<rparr>"

definition sample_node :: string where
  "sample_node = replicate 36 (CHR ''a'')"

definition sample_access :: node_access where
  "sample_access = \<lparr>na_nodeId = sample_node, na_orgId = ''o'', na_ownerUserId = ''u'', na_kind = File, na_trashed = False,
     na_isOwner = True, na_permissions = [''node.view'', ''node.edit''], na_accessible = True\<rparr>"

definition sample_key :: key_state where
  "sample_key = \<lparr>ks_org = ''o'', ks_key_epoch = 1, ks_rotation_required = False\<rparr>"

definition sample_init :: relay where
  "sample_init = relay_init [(sample_node, sample_key)] [] (\<lambda>_. 0)"

definition sample_update :: "string \<Rightarrow> int json" where
  "sample_update ct = JObj [(''type'', JStr ''update''), (''ciphertext'', JStr ct), (''nonce'', JStr (replicate 24 (CHR ''0'')))]"

definition sample_events :: "int event list" where
  "sample_events =
     [OpenRoom 0 sample_node (Some \<lparr>tc_sub = ''u'', tc_iat = 5\<rparr>) True (Some sample_access) (Some sample_key) 0,
      Frame 0 ''x'' 1, Resume 0 2 True False, Resume 0 3 True False, Resume 0 4 True False]"

abbreviation sample_parse :: "string \<Rightarrow> int json option" where
  "sample_parse \<equiv> \<lambda>_. Some (sample_update ''0a1b'')"

lemmas sample_simps = sample_config_def sample_node_def sample_access_def sample_key_def sample_init_def
  sample_update_def sample_events_def relay_init_def

fun fresh_all :: "relay_config \<Rightarrow> (string \<Rightarrow> 'n json option) \<Rightarrow> ('n \<Rightarrow> int option) \<Rightarrow> relay \<Rightarrow> 'n event list \<Rightarrow> bool" where
  "fresh_all cfg parse safe_int st [] = True"
| "fresh_all cfg parse safe_int st (ev # evs) =
     (fresh_socket st ev \<and> fresh_all cfg parse safe_int (fst (relay_step cfg parse safe_int st ev)) evs)"

lemma fresh_all_snoc: "fresh_all cfg parse safe_int st (evs @ [ev]) \<longleftrightarrow>
    fresh_all cfg parse safe_int st evs \<and> fresh_socket (after cfg parse safe_int st evs) ev"
  by (induction evs arbitrary: st) auto

lemma fresh_run: "fresh_all cfg parse safe_int st0 evs \<Longrightarrow> \<exists>outs. run cfg parse safe_int st0 evs (after cfg parse safe_int st0 evs) outs"
proof (induction evs rule: rev_induct)
  case Nil
  show ?case by (intro exI) (simp, rule run_none)
next
  case (snoc ev evs)
  then obtain outs where r: "run cfg parse safe_int st0 evs (after cfg parse safe_int st0 evs) outs"
    and f: "fresh_socket (after cfg parse safe_int st0 evs) ev" by (auto simp: fresh_all_snoc)
  show ?case
    using run_step[OF r f, of "fst (relay_step cfg parse safe_int (after cfg parse safe_int st0 evs) ev)"
        "snd (relay_step cfg parse safe_int (after cfg parse safe_int st0 evs) ev)"]
    by (auto simp: after_snoc)
qed

lemma sample_fresh: "fresh_all sample_config sample_parse Some sample_init sample_events"
  by (simp add: sample_simps admit_room_def uuid_like_def hex_or_dash_def Let_def)

definition sample_final :: relay where
  "sample_final = after sample_config sample_parse Some sample_init sample_events"

lemma sample_run:
  obtains outs where "run sample_config sample_parse Some (relay_init [(sample_node, sample_key)] [] (\<lambda>_. 0)) sample_events
    sample_final outs"
  using fresh_run[OF sample_fresh] unfolding sample_init_def sample_final_def by blast

lemma sample_final_eq:
  "updates sample_final = [\<lparr>cr_id = 1, cr_node = sample_node, cr_ciphertext = [10, 27], cr_nonce = replicate 12 0, cr_author = ''u''\<rparr>]"
  "nextId sample_final = 2" "uploads sample_final = []" "cleanups sample_final = [(0, InRoom sample_node, ''u'')]"
  by (code_simp, code_simp, code_simp, code_simp)

section \<open>Connections\<close>

text \<open>C19: whatever the interleaving of handlers, closures and admissions, the counter of a user is the
  number of its open sockets, which never exceeds the limit, and whoever is in a room is an open
  socket: no connection leaks, even when a socket closes during its admission.\<close>

theorem relay_connections:
  assumes "run cfg parse safe_int (relay_init keys quotas versions) evs st outs"
  shows "counter st u = length (open_sockets st u) \<and> length (open_sockets st u) \<le> maxCollabConnectionsPerUser cfg \<and>
    set (room_of (rooms st) node) \<subseteq> (\<Union>v. set (open_sockets st v)) - set (gone st) \<and>
    (map_of (rooms st) node = None \<or> room_of (rooms st) node \<noteq> [])"
proof -
  have inv: "conn_inv cfg st" using conn_inv_run[OF assms conn_inv_init] .
  have "set (room_of (rooms st) node) \<subseteq> (\<Union>v. set (open_sockets st v)) - set (gone st)"
  proof
    fix c assume "c \<in> set (room_of (rooms st) node)"
    then obtain v where "(c, InRoom node, v) \<in> set (cleanups st)"
      using inv unfolding conn_inv_def present_def by (meson map_of_SomeD)
    then have "c \<in> fst ` set (cleanups st)" "c \<in> set (open_sockets st v)"
      by (force simp: open_sockets_def)+
    then show "c \<in> (\<Union>v. set (open_sockets st v)) - set (gone st)"
      using inv unfolding conn_inv_def tracked_def by blast
  qed
  moreover have "map_of (rooms st) node = None \<or> room_of (rooms st) node \<noteq> []"
    using inv unfolding conn_inv_def present_def room_of_def by (cases "map_of (rooms st) node") auto
  ultimately show ?thesis using conn_invD[OF inv, of u] by simp
qed

lemma relay_connections_witness:
  "counter sample_final ''u'' = length (open_sockets sample_final ''u'') \<and> length (open_sockets sample_final ''u'') \<le> 2 \<and>
   open_sockets sample_final ''u'' = [0]"
proof -
  obtain outs where "run sample_config sample_parse Some (relay_init [(sample_node, sample_key)] [] (\<lambda>_. 0)) sample_events sample_final outs"
    by (rule sample_run)
  from relay_connections[OF this, of "''u''" sample_node] show ?thesis
    by (simp add: sample_config_def open_sockets_def sample_final_eq)
qed

section \<open>Every update is answered\<close>

definition answers :: "nat \<Rightarrow> 'n effect list \<Rightarrow> nat" where
  "answers c outs = length (filter (\<lambda>e. case e of Send d (Err _ _ _) \<Rightarrow> d = c | Send d (Ack _ _) \<Rightarrow> d = c | _ \<Rightarrow> False) outs)"

definition under_way :: "nat \<Rightarrow> relay \<Rightarrow> nat" where
  "under_way c st = length (filter (\<lambda>u. up_conn u = c) (uploads st))"

text \<open>The frames that ask for an answer: within the rate, and too long or an update.\<close>

definition asks :: "relay_config \<Rightarrow> (string \<Rightarrow> 'n json option) \<Rightarrow> relay \<Rightarrow> 'n event \<Rightarrow> nat \<Rightarrow> bool" where
  "asks cfg parse st ev c =
     (case ev of
        Frame d raw now \<Rightarrow>
          d = c \<and> (case peers st d of None \<Rightarrow> False
             | Some p \<Rightarrow> \<not> p_msgCount (frame_window p now) > maxCollabMessagesPerSec cfg \<and>
                 (length raw > MAX_CIPHERTEXT_HEX cfg + 4096 \<or>
                  (case parse raw of None \<Rightarrow> False | Some msg \<Rightarrow> prop_of msg ''type'' = JStr ''update'')))
      | _ \<Rightarrow> False)"

lemma answers_append [simp]: "answers c (xs @ ys) = answers c xs + answers c ys"
  by (simp add: answers_def)

lemma answers_nil [simp]: "answers c [] = 0"
  by (simp add: answers_def)

lemma answers_reject [simp]: "answers c (reject cfg d ec nonce # outs) = (if d = c then 1 else 0) + answers c outs"
  by (simp add: answers_def reject_def)

lemma answers_cons [simp]:
  "answers c (Send d (Ack n s) # outs) = (if d = c then 1 else 0) + answers c outs"
  "answers c (CloseSocket d k reason # outs) = answers c outs"
  "answers c (Publish m # outs) = answers c outs"
  "answers c (Unhandled d # outs) = answers c outs"
  "answers c (Send d (Ready w e) # outs) = answers c outs"
  "answers c (Send d OrgReady # outs) = answers c outs"
  by (simp_all add: answers_def)

definition no_answer :: "'n server_msg \<Rightarrow> bool" where
  "no_answer m \<longleftrightarrow> (case m of Err _ _ _ \<Rightarrow> False | Ack _ _ \<Rightarrow> False | _ \<Rightarrow> True)"

lemma answers_sends: "no_answer m \<Longrightarrow> answers c (map (\<lambda>d. Send d m) ds) = 0"
  by (induction ds) (auto simp: answers_def no_answer_def split: server_msg.splits)

lemma broadcast_map: "broadcast st node from m = map (\<lambda>d. Send d m) (filter (\<lambda>d. from \<noteq> Some d) (room_of (rooms st) node))"
proof -
  have "concat (map (\<lambda>d. if from \<noteq> Some d then [Send d m] else []) ds) = map (\<lambda>d. Send d m) (filter (\<lambda>d. from \<noteq> Some d) ds)" for ds
    by (induction ds) auto
  then show ?thesis by (simp add: broadcast_def)
qed

lemma answers_broadcast [simp]: "no_answer m \<Longrightarrow> answers c (broadcast st node from m) = 0"
  by (simp add: broadcast_map answers_sends)

lemma answers_closes [simp]: "answers c (map (\<lambda>d. CloseSocket d k reason) ds) = 0"
  by (induction ds) (auto simp: answers_def)

lemma no_answer_simps [simp]: "no_answer (PeerJoin u)" "no_answer (Update i ct n a)" "no_answer (Awareness u c' p)" "no_answer NodesChanged"
  by (simp_all add: no_answer_def)

lemma answers_kick [simp]: "answers c (kickUserLocal st user reason) = 0" "answers c (notifyOrgLocal st org) = 0"
  by (auto simp: kickUserLocal_def notifyOrgLocal_def answers_def filter_concat comp_def split: if_splits)

lemma stage_answers:
  "resume_stage cfg st u p now m f = (st', outs, s) \<Longrightarrow>
    answers c outs = (if up_conn u = c \<and> s = None then 1 else 0)"
  by (auto simp: resume_stage_def refused_def quota_decided_def insert_update_def Let_def
      split: stage.splits option.splits if_splits)

lemma splice_remove_count:
  "i < length xs \<Longrightarrow> length (filter P xs) = length (filter P (splice_remove i xs)) + (if P (xs ! i) then 1 else 0)"
  by (subst id_take_nth_drop[of i xs]) (simp_all add: splice_remove_def)

lemma list_update_count:
  "i < length xs \<Longrightarrow> P y = P (xs ! i) \<Longrightarrow> length (filter P (xs[i := y])) = length (filter P xs)"
  by (subst (2) id_take_nth_drop[of i xs]) (simp_all add: upd_conv_take_nth_drop)

lemma resume_answers:
  assumes "resume cfg st i now m f = (st', outs :: 'a effect list)"
  shows "under_way c st = under_way c st' + answers c outs"
  using assms
proof (cases rule: resume_cases)
  case (answered p st1)
  then show ?thesis
    using stage_answers[OF answered(3), of c] splice_remove_count[of i "uploads st" "\<lambda>u. up_conn u = c"]
    by (simp add: under_way_def)
next
  case (on p st1 stg)
  then show ?thesis
    using stage_answers[OF on(3), of c]
      list_update_count[of i "uploads st" "\<lambda>u. up_conn u = c" "(uploads st ! i)\<lparr>up_stage := stg\<rparr>"]
    by (simp add: under_way_def)
qed simp

lemma frame_answers:
  "on_frame cfg parse st d raw now = (st', outs) \<Longrightarrow>
    under_way c st + (if asks cfg parse st (Frame d raw now) c then 1 else 0) = under_way c st' + answers c outs"
  by (auto simp: on_frame_def update_frame_def awareness_frame_def under_way_def asks_def Let_def prop_of_def
      split: option.splits if_splits prod.splits bool.splits)

definition benign :: "'n event \<Rightarrow> bool" where
  "benign ev \<longleftrightarrow> (case ev of Remote (RBcast node m) \<Rightarrow> no_answer m | _ \<Rightarrow> True)"

lemma step_answers:
  assumes "relay_step cfg parse safe_int st ev = (st', outs)" "benign ev"
  shows "under_way c st + (if asks cfg parse st ev c then 1 else 0) = under_way c st' + answers c outs"
proof (cases ev)
  case (OpenRoom d node claims allowed access ks now)
  then show ?thesis
    using assms by (auto simp: admit_room_def under_way_def asks_def Let_def split: option.splits if_splits)
next
  case (OpenOrg d org claims allowed member)
  then show ?thesis
    using assms by (auto simp: admit_org_def under_way_def asks_def Let_def split: option.splits if_splits)
next
  case (SocketGone d)
  then show ?thesis
    using assms by (auto simp: socket_gone_def under_way_def asks_def Let_def split: option.splits prod.splits)
next
  case (Frame d raw now)
  then show ?thesis using assms(1) frame_answers[of cfg parse st d raw now st' outs c] by simp
next
  case (Resume i now m f)
  then show ?thesis using assms resume_answers by (simp add: asks_def)
next
  case (Compact guard user node body)
  then show ?thesis
    using assms by (auto simp: compact_def kickRoom_def kickRoomLocal_def under_way_def asks_def Let_def split: sum.splits option.splits)
next
  case (Remote m)
  then show ?thesis
    using assms by (cases m) (auto simp: onRelay_def kickRoomLocal_def under_way_def asks_def benign_def)
qed (use assms in \<open>auto simp: kickRoom_def kickRoomLocal_def kickUser_def notifyOrg_def under_way_def asks_def\<close>)

fun asked :: "relay_config \<Rightarrow> (string \<Rightarrow> 'n json option) \<Rightarrow> ('n \<Rightarrow> int option) \<Rightarrow> relay \<Rightarrow> 'n event list \<Rightarrow> nat \<Rightarrow> nat" where
  "asked cfg parse safe_int st [] c = 0"
| "asked cfg parse safe_int st (ev # evs) c =
     (if asks cfg parse st ev c then 1 else 0) + asked cfg parse safe_int (fst (relay_step cfg parse safe_int st ev)) evs c"

lemma asked_snoc: "asked cfg parse safe_int st (evs @ [ev]) c =
    asked cfg parse safe_int st evs c + (if asks cfg parse (after cfg parse safe_int st evs) ev c then 1 else 0)"
  by (induction evs arbitrary: st) simp_all

lemma run_after: "run cfg parse safe_int st0 evs st outs \<Longrightarrow> st = after cfg parse safe_int st0 evs"
  by (induction rule: run.induct) (simp_all add: after_snoc)

lemma run_answers:
  "run cfg parse safe_int st0 evs st outs \<Longrightarrow> list_all benign evs \<Longrightarrow>
    under_way c st0 + asked cfg parse safe_int st0 evs c = answers c outs + under_way c st"
proof (induction rule: run.induct)
  case (run_step evs st outs ev st' outs')
  then show ?case
    using step_answers[OF run_step(3), of c] run_after[OF run_step(1)] by (simp add: asked_snoc)
qed simp

text \<open>Nothing stays under way: each continuation of an update brings it nearer to its answer.\<close>

fun stage_weight :: "stage \<Rightarrow> nat" where
  "stage_weight (AtDisk _ _) = 3"
| "stage_weight (AtQuota _ _) = 2"
| "stage_weight AtInsert = 1"

definition upload_weight :: "relay \<Rightarrow> nat" where
  "upload_weight st = sum_list (map (stage_weight \<circ> up_stage) (uploads st))"

definition uploads_known :: "relay \<Rightarrow> bool" where
  "uploads_known st \<longleftrightarrow> (\<forall>u\<in>set (uploads st). peers st (up_conn u) \<noteq> None)"

lemma stage_weight_decreases:
  "resume_stage cfg st u p now m f = (st', outs, Some stg) \<Longrightarrow> stage_weight stg < stage_weight (up_stage u)"
  by (auto simp: resume_stage_def refused_def quota_decided_def insert_update_def quota_start_def Let_def
      split: stage.splits option.splits if_splits)

lemma resume_first:
  assumes "uploads_known st" "uploads st \<noteq> []" "resume cfg st 0 now m f = (st', outs :: 'n effect list)"
  shows "upload_weight st' < upload_weight st \<and> uploads_known st'"
proof -
  obtain u us where u: "uploads st = u # us" using assms(2) by (cases "uploads st") auto
  then obtain p where p: "peers st (up_conn u) = Some p" using assms(1) by (auto simp: uploads_known_def)
  obtain st1 sg and outs1 :: "'n effect list" where sg: "resume_stage cfg st u p now m f = (st1, outs1, sg)"
    by (metis prod_cases3)
  then have peers: "peers st1 = peers st" using stage_view by blast
  have pos: "stage_weight (up_stage u) > 0" by (cases "up_stage u") auto
  show ?thesis
  proof (cases sg)
    case None
    then have "st' = st1\<lparr>uploads := us\<rparr>" using assms(3) u p sg by (auto simp: resume_def splice_remove_def)
    then show ?thesis using assms(1) u peers pos by (auto simp: upload_weight_def uploads_known_def)
  next
    case (Some stg)
    then have "st' = st1\<lparr>uploads := u\<lparr>up_stage := stg\<rparr> # us\<rparr>" using assms(3) u p sg by (auto simp: resume_def)
    then show ?thesis
      using assms(1) u peers stage_weight_decreases[of cfg st u p now m f st1 outs1 stg] sg Some
      by (auto simp: upload_weight_def uploads_known_def)
  qed
qed

lemma drain:
  "uploads_known st \<Longrightarrow> upload_weight st \<le> n \<Longrightarrow>
    uploads (after cfg parse safe_int st (replicate n (Resume 0 now m f))) = []"
proof (induction n arbitrary: st)
  case 0
  then show ?case by (cases "uploads st"; cases "up_stage (hd (uploads st))") (auto simp: upload_weight_def)
next
  case (Suc n)
  obtain st' and outs :: "'a effect list" where s: "resume cfg st 0 now m f = (st', outs)" by force
  show ?case
  proof (cases "uploads st = []")
    case True
    then have "st' = st" using s by (simp add: resume_def)
    with Suc True s show ?thesis by (simp add: upload_weight_def)
  next
    case False
    with resume_first[OF Suc.prems(1) False s] Suc s show ?thesis by simp
  qed
qed

lemma known_step:
  "relay_step cfg parse safe_int st ev = (st', outs) \<Longrightarrow> uploads_known st \<Longrightarrow> uploads_known st'"
proof (cases ev)
  case (Frame c raw now)
  assume "relay_step cfg parse safe_int st ev = (st', outs)" "uploads_known st"
  with Frame show ?thesis
    by (auto simp: on_frame_def update_frame_def uploads_known_def Let_def split: option.splits if_splits prod.splits bool.splits)
next
  case (Resume i now m f)
  assume a: "relay_step cfg parse safe_int st ev = (st', outs)" "uploads_known st"
  then have "resume cfg st i now m f = (st', outs)" using Resume by simp
  then show ?thesis
  proof (cases rule: resume_cases)
    case (answered p st1)
    then show ?thesis
      using a(2) stage_view[OF answered(3)] by (auto simp: uploads_known_def splice_remove_def dest: in_set_takeD in_set_dropD)
  next
    case (on p st1 stg)
    have "u \<in> set (uploads st) \<or> u = (uploads st ! i)\<lparr>up_stage := stg\<rparr>" if "u \<in> set (uploads st')" for u
      using that on(4) set_update_subset_insert[of "uploads st" i] by auto
    then show ?thesis
      using a(2) on(2,4) stage_view[OF on(3)] by (fastforce simp: uploads_known_def)
  qed (use a in simp)
qed (auto simp: uploads_known_def admit_room_def admit_org_def socket_gone_def compact_def kickRoom_def kickRoomLocal_def
    onRelay_def Let_def split: option.splits if_splits prod.splits sum.splits relay_msg.splits)

lemma known_run: "run cfg parse safe_int st0 evs st outs \<Longrightarrow> uploads_known st0 \<Longrightarrow> uploads_known st"
  by (induction rule: run.induct) (auto intro: known_step)

lemma known_init: "uploads_known (relay_init keys quotas versions)"
  by (simp add: uploads_known_def relay_init_def)

text \<open>C21: no update is dropped in silence: at any moment of any run, the updates a socket has sent within
  its rate are those it got an answer for (an acknowledgement or an error, one each) and those under
  way; and continuing the ones under way, at most three times each, answers all of them.\<close>

theorem updates_answered:
  assumes "run cfg parse safe_int (relay_init keys quotas versions) evs st outs" "list_all benign evs" "upload_weight st \<le> n"
  shows "asked cfg parse safe_int (relay_init keys quotas versions) evs c = answers c outs + under_way c st \<and>
    uploads (after cfg parse safe_int st (replicate n (Resume 0 now measured fails))) = [] \<and>
    upload_weight st \<le> 3 * length (uploads st)"
proof -
  have "stage_weight s \<le> 3" for s by (cases s) auto
  then have "sum_list (map (stage_weight \<circ> up_stage) us) \<le> 3 * length us" for us
    by (induction us) (auto simp: add_mono)
  then show ?thesis
    using run_answers[OF assms(1,2), of c] drain[OF known_run[OF assms(1) known_init] assms(3), of cfg parse safe_int now measured fails]
    by (simp add: under_way_def relay_init_def upload_weight_def)
qed

lemma updates_answered_witness:
  "\<exists>outs :: int effect list. answers 0 outs = 1 \<and> asked sample_config sample_parse Some sample_init sample_events 0 = answers 0 outs + under_way 0 sample_final"
proof -
  obtain outs where r: "run sample_config sample_parse Some (relay_init [(sample_node, sample_key)] [] (\<lambda>_. 0)) sample_events sample_final outs"
    by (rule sample_run)
  have a: "asked sample_config sample_parse Some sample_init sample_events 0 = 1" by code_simp
  have "list_all benign sample_events" by (simp add: sample_events_def benign_def)
  moreover have "upload_weight sample_final \<le> 0" by (simp add: upload_weight_def sample_final_eq)
  ultimately have "asked sample_config sample_parse Some sample_init sample_events 0 = answers 0 outs + under_way 0 sample_final"
    using updates_answered[OF r, of 0 0 0 True False] unfolding sample_init_def by blast
  moreover have "under_way 0 sample_final = 0" by (simp add: under_way_def sample_final_eq)
  ultimately show ?thesis using a by (intro exI[of _ outs]) simp
qed

section \<open>What is stored\<close>

definition upload_ok :: "relay \<Rightarrow> upload \<Rightarrow> bool" where
  "upload_ok st u \<longleftrightarrow> all_hex (up_ct u) \<and> nonce_ok (up_nonce u) \<and> (\<exists>p. peers st (up_conn u) = Some p \<and> p_canWrite p)"

definition store_ok :: "relay \<Rightarrow> bool" where
  "store_ok st \<longleftrightarrow> (\<forall>u\<in>set (uploads st). upload_ok st u) \<and> distinct (map cr_id (updates st)) \<and>
     (\<forall>r\<in>set (updates st). cr_id r < nextId st)"

text \<open>The row of an update: sent by a socket admitted for writing, under the current key of a node whose
  rotation is not pending.\<close>

definition written_row :: "relay \<Rightarrow> nat \<Rightarrow> string \<Rightarrow> string \<Rightarrow> collab_row \<Rightarrow> bool" where
  "written_row st c ct nonce r \<longleftrightarrow> (\<exists>p k. peers st c = Some p \<and> p_canWrite p \<and> map_of (nodeKeys st) (p_node p) = Some k \<and>
     \<not> ks_rotation_required k \<and> ks_key_epoch k = p_keyEpoch p \<and> all_hex ct \<and> nonce_ok nonce \<and>
     r = \<lparr>cr_id = nextId st, cr_node = p_node p, cr_ciphertext = hex_buffer ct, cr_nonce = hex_buffer nonce, cr_author = p_user p\<rparr>)"

lemma insert_update_cases:
  assumes "insert_update cfg st u p = (st', outs :: 'n effect list, s)" "peers st (up_conn u) = Some p" "upload_ok st u"
  shows "updates st' = updates st \<and> nextId st' = nextId st \<and> (\<forall>c n i. Send c (Ack n i) \<notin> set outs) \<or>
    (\<exists>r. updates st' = updates st @ [r] \<and> nextId st' = Suc (nextId st) \<and> written_row st (up_conn u) (up_ct u) (up_nonce u) r \<and>
       (\<forall>c n i. Send c (Ack n i) \<in> set outs \<longrightarrow> c = up_conn u \<and> n = up_nonce u \<and> i = cr_id r))"
  using assms by (auto simp: insert_update_def written_row_def upload_ok_def Let_def reject_def broadcast_map split: option.splits if_splits)

lemma stage_updates:
  assumes "resume_stage cfg st u p now m f = (st', outs :: 'n effect list, s)" "peers st (up_conn u) = Some p" "upload_ok st u"
  shows "updates st' = updates st \<and> nextId st' = nextId st \<and> (\<forall>c n i. Send c (Ack n i) \<notin> set outs) \<or>
    (\<exists>r. updates st' = updates st @ [r] \<and> nextId st' = Suc (nextId st) \<and> written_row st (up_conn u) (up_ct u) (up_nonce u) r \<and>
       (\<forall>c n i. Send c (Ack n i) \<in> set outs \<longrightarrow> c = up_conn u \<and> n = up_nonce u \<and> i = cr_id r))"
proof (cases "up_stage u = AtInsert \<and> \<not> f")
  case True
  then show ?thesis using assms insert_update_cases[of cfg st u p st' outs s] by (simp add: resume_stage_def)
next
  case False
  then show ?thesis using assms(1)
    by (auto simp: resume_stage_def refused_def quota_decided_def reject_def Let_def split: stage.splits option.splits if_splits)
qed

definition stored_by :: "relay \<Rightarrow> 'n event \<Rightarrow> collab_row \<Rightarrow> bool" where
  "stored_by st ev r \<longleftrightarrow> (case ev of
      Resume i now m f \<Rightarrow> i < length (uploads st) \<and>
        (let u = uploads st ! i in written_row st (up_conn u) (up_ct u) (up_nonce u) r)
    | Compact guard user node body \<Rightarrow> (\<exists>access. guard = Inr access) \<and> cr_node r = node \<and> cr_author r = user \<and> cr_id r = nextId st
    | _ \<Rightarrow> False)"

lemma upload_ok_peers:
  "upload_ok st u \<Longrightarrow> (\<And>c p. peers st c = Some p \<Longrightarrow> p_canWrite p \<Longrightarrow> \<exists>q. peers st' c = Some q \<and> p_canWrite q) \<Longrightarrow> upload_ok st' u"
  by (auto simp: upload_ok_def)

lemma window_canWrite [simp]: "p_canWrite (frame_window p now) = p_canWrite p"
  by (simp add: frame_window_def Let_def)

lemma compact_eq:
  assumes "compact_body safe_int body = Some (ct, nonce, upTo)"
  shows "compact safe_int st (Inr access) user node body =
    (st\<lparr>updates := filter (\<lambda>r. \<not> (cr_node r = node \<and> int (cr_id r) \<le> upTo)) (updates st) @
        [\<lparr>cr_id = nextId st, cr_node = node, cr_ciphertext = hex_buffer ct, cr_nonce = hex_buffer nonce, cr_author = user\<rparr>],
       nextId := nextId st + 1, rooms := AList.delete node (rooms st)\<rparr>,
     map (\<lambda>c. CloseSocket c 4001 ''rekeyed'') (room_of (rooms st) node) @ [Publish (RKick node ''rekeyed'')], Inr (nextId st))"
  using assms by (simp add: compact_def kickRoom_def kickRoomLocal_def Let_def)

lemma compact_refused:
  assumes "\<nexists>access ct nonce upTo. guard = Inr access \<and> compact_body safe_int body = Some (ct, nonce, upTo)"
  shows "\<exists>e. compact safe_int st guard user node body = (st, [], Inl e)"
  using assms by (cases guard; cases "compact_body safe_int body") (auto simp: compact_def)

lemma store_grow:
  assumes "store_ok st" "\<forall>u\<in>set (uploads st'). upload_ok st' u" "updates st' = updates st @ [r]"
    "nextId st' = Suc (nextId st)" "cr_id r = nextId st"
  shows "store_ok st'"
proof -
  have "cr_id r \<notin> cr_id ` set (updates st)" using assms(1,5) unfolding store_ok_def by fastforce
  then show ?thesis using assms unfolding store_ok_def by (auto simp: less_Suc_eq)
qed

lemma store_resumed:
  assumes ok: "store_ok st" and us: "\<forall>u\<in>set (uploads st'). upload_ok st' u"
    and v: "updates st' = updates st1" "nextId st' = nextId st1" and i: "i < length (uploads st)"
    and p: "peers st (up_conn (uploads st ! i)) = Some p"
    and stage: "resume_stage cfg st (uploads st ! i) p now m f = (st1, outs :: 'n effect list, s)"
  shows "store_ok st' \<and> nextId st \<le> nextId st' \<and>
    (\<forall>r\<in>set (updates st'). r \<in> set (updates st) \<or> stored_by st (Resume i now m f :: 'n event) r \<and> cr_id r = nextId st) \<and>
    (\<forall>c n j. Send c (Ack n j) \<in> set outs \<longrightarrow> (\<exists>ct r. r \<in> set (updates st') \<and> cr_id r = j \<and> written_row st c ct n r))"
proof -
  have "upload_ok st (uploads st ! i)" using ok i by (simp add: store_ok_def)
  from stage_updates[OF stage p this] show ?thesis
  proof (elim disjE exE conjE)
    assume "updates st1 = updates st" "nextId st1 = nextId st" "\<forall>c n i. Send c (Ack n i) \<notin> set outs"
    then show ?thesis using ok us v by (simp add: store_ok_def)
  next
    fix r assume r: "updates st1 = updates st @ [r]" "nextId st1 = Suc (nextId st)"
      "written_row st (up_conn (uploads st ! i)) (up_ct (uploads st ! i)) (up_nonce (uploads st ! i)) r"
      "\<forall>c n j. Send c (Ack n j) \<in> set outs \<longrightarrow> c = up_conn (uploads st ! i) \<and> n = up_nonce (uploads st ! i) \<and> j = cr_id r"
    then have id: "cr_id r = nextId st" by (auto simp: written_row_def)
    have "stored_by st (Resume i now m f :: 'n event) r" using i r(3) by (simp add: stored_by_def Let_def)
    moreover have "store_ok st'" using store_grow[OF ok us] r v id by simp
    moreover have "\<exists>ct q. q \<in> set (updates st') \<and> cr_id q = j \<and> written_row st c ct n q" if "Send c (Ack n j) \<in> set outs" for c n j
      using r that v by (intro exI[of _ "up_ct (uploads st ! i)"] exI[of _ r]) auto
    ultimately show ?thesis using r v id by simp
  qed
qed

text \<open>One step adds at most one row, with the next identifier, and only for an update or a compaction; it
  removes rows only in a compaction.\<close>

lemma store_step:
  assumes ok: "store_ok st" and "fresh_socket st ev" and step: "relay_step cfg parse safe_int st ev = (st', outs :: 'n effect list)"
    and "benign ev"
  shows "store_ok st' \<and> nextId st \<le> nextId st' \<and>
    (\<forall>r\<in>set (updates st'). r \<in> set (updates st) \<or> stored_by st ev r \<and> cr_id r = nextId st) \<and>
    (\<forall>c n i. Send c (Ack n i) \<in> set outs \<longrightarrow> (\<exists>ct r. r \<in> set (updates st') \<and> cr_id r = i \<and> written_row st c ct n r))"
proof (cases ev)
  case (OpenRoom c node claims allowed access ks now)
  then have "updates st' = updates st" "nextId st' = nextId st" "uploads st' = uploads st"
    "\<And>c p. peers st c = Some p \<Longrightarrow> \<exists>q. peers st' c = Some q \<and> q = p" "\<forall>c n i. Send c (Ack n i) \<notin> set outs"
    using step assms(2) by (auto simp: admit_room_def Let_def broadcast_map split: option.splits if_splits)
  then show ?thesis using ok unfolding store_ok_def by (auto intro: upload_ok_peers[of st])
next
  case (OpenOrg c org claims allowed member)
  then have "updates st' = updates st" "nextId st' = nextId st" "uploads st' = uploads st" "peers st' = peers st"
    "\<forall>c n i. Send c (Ack n i) \<notin> set outs"
    using step by (auto simp: admit_org_def Let_def split: option.splits if_splits)
  then show ?thesis using ok unfolding store_ok_def by (auto intro: upload_ok_peers[of st])
next
  case (SocketGone c)
  then have "updates st' = updates st" "nextId st' = nextId st" "uploads st' = uploads st" "peers st' = peers st" "outs = []"
    using step by (auto simp: socket_gone_def Let_def split: option.splits prod.splits)
  then show ?thesis using ok unfolding store_ok_def by (auto intro: upload_ok_peers[of st])
next
  case (Frame c raw now)
  then have f: "updates st' = updates st" "nextId st' = nextId st" "\<forall>c n i. Send c (Ack n i) \<notin> set outs"
    "\<And>c p. peers st c = Some p \<Longrightarrow> p_canWrite p \<Longrightarrow> \<exists>q. peers st' c = Some q \<and> p_canWrite q"
    "\<forall>u\<in>set (uploads st'). u \<in> set (uploads st) \<or> upload_ok st' u"
    using step by (auto simp: on_frame_def update_frame_def awareness_frame_def reject_def broadcast_map upload_ok_def Let_def
        split: option.splits if_splits prod.splits bool.splits json.splits)
  have "upload_ok st' u" if "u \<in> set (uploads st')" for u
    using f(4,5) that ok upload_ok_peers[of st u st'] unfolding store_ok_def by blast
  then show ?thesis using ok f(1,2,3) unfolding store_ok_def by simp
next
  case (Resume i now m f)
  then have "resume cfg st i now m f = (st', outs)" using step by simp
  then show ?thesis
  proof (cases rule: resume_cases)
    case (answered p st1)
    have v: "peers st' = peers st" "updates st' = updates st1" "nextId st' = nextId st1"
      using answered(4) stage_view[OF answered(3)] by simp_all
    have us: "\<forall>u\<in>set (uploads st'). upload_ok st' u"
      using ok answered(4) v(1) by (auto simp: store_ok_def splice_remove_def upload_ok_def dest: in_set_takeD in_set_dropD)
    show ?thesis unfolding Resume using store_resumed[OF ok us v(2,3) answered(1,2,3)] .
  next
    case (on p st1 stg)
    have u: "upload_ok st (uploads st ! i)" using ok on(1) by (simp add: store_ok_def)
    have v: "peers st' = peers st" "updates st' = updates st1" "nextId st' = nextId st1"
      using on(4) stage_view[OF on(3)] by simp_all
    have "w \<in> set (uploads st) \<or> w = (uploads st ! i)\<lparr>up_stage := stg\<rparr>" if "w \<in> set (uploads st')" for w
      using that on(4) set_update_subset_insert[of "uploads st" i] by auto
    then have us: "\<forall>u\<in>set (uploads st'). upload_ok st' u"
      using ok u v(1) by (force simp: store_ok_def upload_ok_def)
    show ?thesis unfolding Resume using store_resumed[OF ok us v(2,3) on(1,2,3)] .
  qed (use ok in \<open>auto simp: store_ok_def\<close>)
next
  case (Compact guard user node body)
  show ?thesis
  proof (cases "\<exists>access ct nonce upTo. guard = Inr access \<and> compact_body safe_int body = Some (ct, nonce, upTo)")
    case True
    then obtain access ct nonce upTo where c: "guard = Inr access" "compact_body safe_int body = Some (ct, nonce, upTo)" by blast
    let ?row = "\<lparr>cr_id = nextId st, cr_node = node, cr_ciphertext = hex_buffer ct, cr_nonce = hex_buffer nonce, cr_author = user\<rparr>"
    let ?kept = "filter (\<lambda>r. \<not> (cr_node r = node \<and> int (cr_id r) \<le> upTo)) (updates st)"
    have s: "updates st' = ?kept @ [?row]" "nextId st' = Suc (nextId st)" "uploads st' = uploads st" "peers st' = peers st"
      "\<forall>c n i. Send c (Ack n i) \<notin> set outs"
      using step Compact compact_eq[OF c(2), of st access user node] c(1) by auto
    have "distinct (map cr_id ?kept)" "\<forall>r\<in>set ?kept. cr_id r < nextId st"
      using ok distinct_map_filter unfolding store_ok_def by auto
    moreover from this(2) have "nextId st \<notin> cr_id ` set ?kept" by fastforce
    ultimately have "store_ok st'" using ok s unfolding store_ok_def by (auto intro: upload_ok_peers[of st])
    moreover have "stored_by st ev ?row" using Compact c(1) by (simp add: stored_by_def)
    ultimately show ?thesis using s by auto
  next
    case False
    then have "st' = st" "outs = []"
      using step Compact compact_refused[of guard safe_int body st user node] by (force split: sum.splits)+
    then show ?thesis using ok by simp
  qed
next
  case (KickRoom node reason)
  then show ?thesis using ok step by (auto simp: store_ok_def kickRoom_def kickRoomLocal_def intro: upload_ok_peers[of st])
next
  case (KickUser user reason)
  then show ?thesis using ok step by (auto simp: kickUser_def kickUserLocal_def)
next
  case (NotifyOrg org)
  then show ?thesis using ok step by (auto simp: notifyOrg_def notifyOrgLocal_def)
next
  case (Remote m)
  then show ?thesis using ok step assms(4)
    by (cases m) (auto simp: store_ok_def onRelay_def kickRoomLocal_def kickUserLocal_def notifyOrgLocal_def broadcast_map
        benign_def no_answer_def split: server_msg.splits intro: upload_ok_peers[of st])
next
  case (KeyChange node k)
  then show ?thesis using ok step by (auto simp: store_ok_def intro: upload_ok_peers[of st])
qed

end
