(* ===== verification/Relay_Log.thy ===== *)
theory Relay_Log
  imports Relay_Safety
begin

text \<open>
  The encrypted log behind a room: what the relay stores is authorised, a client reads all of it page
  after page, and the compaction that follows a key rotation deletes nothing the client has not
  read. The last section states two defects of the handling of frames.
\<close>

section \<open>Runs\<close>

lemma store_init: "store_ok (relay_init keys quotas versions)"
  by (simp add: store_ok_def relay_init_def)

lemma store_run:
  "run cfg parse safe_int st0 evs st outs \<Longrightarrow> list_all benign evs \<Longrightarrow> store_ok st0 \<Longrightarrow>
    store_ok st \<and> nextId st0 \<le> nextId st \<and> (\<forall>r\<in>set (updates st). r \<in> set (updates st0) \<or> nextId st0 \<le> cr_id r)"
proof (induction rule: run.induct)
  case (run_step evs st outs ev st' outs')
  then have ih: "store_ok st" "nextId st0 \<le> nextId st" "\<forall>r\<in>set (updates st). r \<in> set (updates st0) \<or> nextId st0 \<le> cr_id r"
    and b: "benign ev" by auto
  from store_step[OF ih(1) run_step(2,3) b] ih show ?case by fastforce
qed auto

text \<open>C3: whatever the run, each row the log gains comes from a socket admitted for writing, under the
  current key of a node whose rotation is not pending, or from a compaction by someone the guard let
  through; and an update is acknowledged only when its row is in the log under the acknowledged
  number.\<close>

theorem log_authorised:
  assumes "run cfg parse safe_int (relay_init keys quotas versions) evs st outs" "list_all benign (ev # evs)"
    and "fresh_socket st ev" "relay_step cfg parse safe_int st ev = (st', outs')"
  shows "(\<forall>r\<in>set (updates st') - set (updates st). stored_by st ev r) \<and>
    (\<forall>c n i. Send c (Ack n i) \<in> set outs' \<longrightarrow> (\<exists>ct r. r \<in> set (updates st') \<and> cr_id r = i \<and> written_row st c ct n r))"
proof -
  have "store_ok st" using store_run[OF assms(1) _ store_init] assms(2) by simp
  moreover have "benign ev" using assms(2) by simp
  ultimately show ?thesis using store_step[OF _ assms(3,4)] by blast
qed

text \<open>A second update of the same socket, up to its insertion.\<close>

definition sample_pending :: relay where
  "sample_pending = after sample_config sample_parse Some sample_final [Frame 0 ''x'' 1, Resume 0 2 True False, Resume 0 3 True False]"

lemma sample_pending_run:
  obtains outs where "run sample_config sample_parse Some sample_final
    [Frame 0 ''x'' 1, Resume 0 2 True False, Resume 0 3 True False] sample_pending outs"
  using fresh_run[of sample_config sample_parse Some sample_final "[Frame 0 ''x'' 1, Resume 0 2 True False, Resume 0 3 True False]"]
  unfolding sample_pending_def by (simp del: after.simps relay_step.simps) blast

lemma log_authorised_witness:
  "\<exists>r. updates (fst (relay_step sample_config sample_parse Some
       (after sample_config sample_parse Some sample_init (butlast sample_events)) (Resume 0 4 True False))) = [r] \<and>
     stored_by (after sample_config sample_parse Some sample_init (butlast sample_events)) (Resume 0 4 True False :: int event) r"
proof -
  let ?st = "after sample_config sample_parse Some sample_init (butlast sample_events)"
  let ?ev = "Resume 0 4 True False :: int event"
  have "fresh_all sample_config sample_parse Some sample_init (butlast sample_events @ [?ev])"
    using sample_fresh by (simp add: sample_events_def)
  then obtain outs where r: "run sample_config sample_parse Some (relay_init [(sample_node, sample_key)] [] (\<lambda>_. 0)) (butlast sample_events) ?st outs"
    using fresh_run[of sample_config sample_parse Some sample_init "butlast sample_events"] by (auto simp: fresh_all_snoc sample_init_def)
  have b: "list_all benign (?ev # butlast sample_events)" by (simp add: sample_events_def benign_def)
  have e: "updates ?st = []" by code_simp
  have "sample_final = fst (relay_step sample_config sample_parse Some ?st ?ev)"
    unfolding sample_final_def after_snoc[symmetric] by (simp add: sample_events_def)
  then have u: "updates (fst (relay_step sample_config sample_parse Some ?st ?ev)) =
    [\<lparr>cr_id = 1, cr_node = sample_node, cr_ciphertext = [10, 27], cr_nonce = replicate 12 0, cr_author = ''u''\<rparr>]"
    by (simp only: sample_final_eq)
  have "fresh_socket ?st ?ev" by simp
  from log_authorised[OF r b this prod.collapse[symmetric]] e show ?thesis unfolding u by simp
qed

section \<open>Reading the log\<close>

definition ids_increase :: "collab_row list \<Rightarrow> bool" where
  "ids_increase rows \<longleftrightarrow> sorted_wrt (\<lambda>a b. cr_id a < cr_id b) rows"

lemma ids_increase_filter: "ids_increase rows \<Longrightarrow> ids_increase (filter P rows)"
  by (simp add: ids_increase_def sorted_wrt_filter)

lemma page_size_pos: "0 < COLLAB_PAGE_SIZE"
  by (simp add: COLLAB_PAGE_SIZE_def)

lemma filter_rest:
  assumes "ids_increase xs" "ys \<noteq> []" "xs = ys @ zs"
  shows "filter (\<lambda>r. Max (cr_id ` set ys) < cr_id r) xs = zs"
proof -
  have "Max (cr_id ` set ys) \<in> cr_id ` set ys" using assms(2) by (intro Max_in) auto
  then obtain y where y: "y \<in> set ys" "cr_id y = Max (cr_id ` set ys)" by auto
  have "\<not> Max (cr_id ` set ys) < cr_id r" if "r \<in> set ys" for r
    using that by (meson List.finite_set Max_ge finite_imageI image_eqI not_less)
  moreover have "Max (cr_id ` set ys) < cr_id r" if "r \<in> set zs" for r
    using assms(1,3) y that by (auto simp: ids_increase_def sorted_wrt_append)
  ultimately show ?thesis by (simp add: assms(3))
qed

lemma backlog_eq:
  "backlog rows since = (let F = filter (\<lambda>r. since < cr_id r) rows
    in if length F > COLLAB_PAGE_SIZE then (True, take COLLAB_PAGE_SIZE F) else (False, F))"
  by (auto simp: backlog_def Let_def min_def)

lemma read_all_complete:
  "ids_increase rows \<Longrightarrow> read_all rows since acc =
    (acc @ filter (\<lambda>r. since < cr_id r) rows, page_last (filter (\<lambda>r. since < cr_id r) rows) since)"
proof (induction rows since acc rule: read_all.induct)
  case (1 rows since acc)
  let ?F = "filter (\<lambda>r. since < cr_id r) rows"
  let ?page = "take COLLAB_PAGE_SIZE ?F"
  have above: "since < page_last ys since" if "ys \<noteq> []" "set ys \<subseteq> set ?F" for ys
  proof -
    have "Max (cr_id ` set ys) \<in> cr_id ` set ys" using that(1) by (intro Max_in) auto
    then obtain y where "y \<in> set ys" "cr_id y = Max (cr_id ` set ys)" by auto
    with that show ?thesis by (auto simp: page_last_def)
  qed
  show ?case
  proof (cases "length ?F > COLLAB_PAGE_SIZE")
    case False
    then have b: "backlog rows since = (False, ?F)" by (simp add: backlog_eq)
    have "max since (page_last ?F since) = page_last ?F since"
      using above[of ?F] by (cases "?F = []") (auto simp: page_last_def max_def)
    then show ?thesis by (simp add: read_all.simps[of rows] b Let_def)
  next
    case True
    then have b: "backlog rows since = (True, ?page)" by (simp add: backlog_eq)
    have ne: "?page \<noteq> []" "drop COLLAB_PAGE_SIZE ?F \<noteq> []" using True page_size_pos by auto
    let ?last = "page_last ?page since"
    have gt: "since < ?last" using above[OF ne(1)] by (meson set_take_subset)
    have "filter (\<lambda>r. ?last < cr_id r) rows = filter (\<lambda>r. ?last < cr_id r) ?F"
      using gt by (auto intro: filter_cong)
    also have "\<dots> = drop COLLAB_PAGE_SIZE ?F"
      using filter_rest[OF ids_increase_filter[OF 1(2)] ne(1) append_take_drop_id[symmetric]]
      unfolding page_last_def if_not_P[OF ne(1)] .
    finally have rest: "filter (\<lambda>r. ?last < cr_id r) rows = drop COLLAB_PAGE_SIZE ?F" .
    have "read_all rows since acc = read_all rows ?last (acc @ ?page)"
      using gt by (simp add: read_all.simps[of rows since] b Let_def)
    also have "\<dots> = ((acc @ ?page) @ drop COLLAB_PAGE_SIZE ?F, page_last (drop COLLAB_PAGE_SIZE ?F) ?last)"
      using 1(1)[OF b[symmetric] refl refl _ 1(2)] gt by (simp add: rest)
    also have "page_last (drop COLLAB_PAGE_SIZE ?F) ?last = page_last ?F since"
    proof -
      let ?d = "drop COLLAB_PAGE_SIZE ?F"
      have le: "\<forall>r\<in>set ?page. \<forall>q\<in>set ?d. cr_id r < cr_id q"
        using ids_increase_filter[OF 1(2)] append_take_drop_id[of COLLAB_PAGE_SIZE ?F]
        unfolding ids_increase_def by (metis sorted_wrt_append)
      have "Max (cr_id ` set ?page) < Max (cr_id ` set ?d)"
      proof -
        obtain q where q: "q \<in> set ?d" using ne(2) by (cases ?d) auto
        have "Max (cr_id ` set ?page) \<in> cr_id ` set ?page" using ne(1) by (intro Max_in) auto
        then show ?thesis using le q by (metis (no_types, lifting) List.finite_set Max_ge finite_imageI imageE imageI less_le_trans)
      qed
      moreover have "cr_id ` set ?F = cr_id ` set ?page \<union> cr_id ` set ?d"
        by (metis append_take_drop_id image_Un set_append)
      ultimately have "Max (cr_id ` set ?F) = Max (cr_id ` set ?d)"
        using ne by (subst \<open>cr_id ` set ?F = _\<close>, subst Max_Un) auto
      then show ?thesis using ne by (auto simp: page_last_def)
    qed
    finally show ?thesis by simp
  qed
qed

lemma node_rows_increase: "store_ok st \<Longrightarrow> ids_increase (node_rows st node)"
proof -
  assume ok: "store_ok st"
  have "distinct (map cr_id (filter (\<lambda>r. cr_node r = node) (updates st)))"
    using ok distinct_map_filter unfolding store_ok_def by blast
  then have "distinct (map cr_id (node_rows st node))"
    unfolding node_rows_def distinct_map by simp
  moreover have "sorted (map cr_id (node_rows st node))" unfolding node_rows_def by (rule sorted_sort_key)
  ultimately have "sorted_wrt (<) (map cr_id (node_rows st node))" by (simp only: strict_sorted_iff)
  then show ?thesis unfolding ids_increase_def sorted_wrt_map .
qed

lemma set_node_rows: "set (node_rows st node) = {r \<in> set (updates st). cr_node r = node}"
  by (auto simp: node_rows_def)

lemma read_log:
  assumes "run cfg parse safe_int (relay_init keys quotas versions) evs st outs" "list_all benign evs"
    and "read_all (node_rows st node) 0 [] = (got, n)"
  shows "got = node_rows st node \<and> (\<forall>r\<in>set (updates st). cr_node r = node \<longrightarrow> cr_id r \<le> n) \<and> n < nextId st"
proof -
  have s: "store_ok st" "1 \<le> nextId st" "\<forall>r\<in>set (updates st). 1 \<le> cr_id r"
    using store_run[OF assms(1,2) store_init] by (auto simp: relay_init_def)
  have "filter (\<lambda>r. 0 < cr_id r) (node_rows st node) = node_rows st node"
    using s(3) by (auto simp: filter_id_conv set_node_rows)
  then have g: "got = node_rows st node" "n = page_last (node_rows st node) 0"
    using read_all_complete[OF node_rows_increase[OF s(1)], of node 0 "[]"] assms(3) by auto
  have "cr_id r \<le> n" if "r \<in> set (node_rows st node)" for r
    using that g(2) by (auto simp: page_last_def)
  moreover have "n < nextId st"
  proof (cases "node_rows st node = []")
    case False
    then have "n \<in> cr_id ` set (node_rows st node)" using g(2) by (simp add: page_last_def)
    then show ?thesis using s(1) by (auto simp: set_node_rows store_ok_def)
  qed (use g s in \<open>simp add: page_last_def\<close>)
  ultimately show ?thesis using g(1) by (simp add: set_node_rows)
qed

text \<open>C17: a client reads the whole log of a node, in order; and when, after any further events, it sends the
  compaction with the number its reading ended with, the log loses exactly the rows it has read and
  gains the snapshot: updates that arrived meanwhile stay, and no other node is touched.\<close>

theorem compaction_keeps_unread:
  assumes "run cfg parse safe_int (relay_init keys quotas versions) evs st outs" "list_all benign evs"
    and "read_all (node_rows st node) 0 [] = (got, n)"
    and "run cfg parse safe_int st evs2 st2 outs2" "list_all benign evs2"
    and "compact_body safe_int body = Some (ct, nonce, int n)"
    and "compact safe_int st2 (Inr access) user node body = (st3, outs3, res)"
  shows "got = node_rows st node \<and> res = Inr (nextId st2) \<and>
    set (node_rows st3 node) = set (node_rows st2 node) - set got \<union>
      {\<lparr>cr_id = nextId st2, cr_node = node, cr_ciphertext = hex_buffer ct, cr_nonce = hex_buffer nonce, cr_author = user\<rparr>} \<and>
    (node' \<noteq> node \<longrightarrow> set (node_rows st3 node') = set (node_rows st2 node'))"
proof -
  have g: "got = node_rows st node" "\<forall>r\<in>set (updates st). cr_node r = node \<longrightarrow> cr_id r \<le> n" "n < nextId st"
    using read_log[OF assms(1-3)] by auto
  have "store_ok st" using store_run[OF assms(1,2) store_init] by blast
  then have later: "\<forall>r\<in>set (updates st2). r \<in> set (updates st) \<or> nextId st \<le> cr_id r"
    using store_run[OF assms(4,5)] by blast
  let ?row = "\<lparr>cr_id = nextId st2, cr_node = node, cr_ciphertext = hex_buffer ct, cr_nonce = hex_buffer nonce, cr_author = user\<rparr>"
  have st3: "updates st3 = filter (\<lambda>r. \<not> (cr_node r = node \<and> int (cr_id r) \<le> int n)) (updates st2) @ [?row]" "res = Inr (nextId st2)"
    using assms(7) compact_eq[OF assms(6), of st2 access user node] by auto
  have "cr_id r \<le> n \<longleftrightarrow> r \<in> set got" if "r \<in> set (updates st2)" "cr_node r = node" for r
    using that g later by (fastforce simp: set_node_rows)
  then have "set (node_rows st3 node) = set (node_rows st2 node) - set got \<union> {?row}"
    using st3(1) by (auto simp: set_node_rows)
  moreover have "node' \<noteq> node \<Longrightarrow> set (node_rows st3 node') = set (node_rows st2 node')"
    using st3(1) by (auto simp: set_node_rows)
  ultimately show ?thesis using g(1) st3(2) by blast
qed

lemma compaction_keeps_unread_witness:
  "\<exists>n. let body = JObj [(''ciphertext'', JStr ''0a''), (''nonce'', JStr (replicate 24 (CHR ''0''))), (''upToSeq'', JNum (int n))];
           st3 = fst (compact Some sample_pending (Inr sample_access) ''u'' sample_node body :: relay \<times> int effect list \<times> _)
       in set (node_rows st3 sample_node) = set (node_rows sample_pending sample_node) - set (node_rows sample_final sample_node) \<union>
            {\<lparr>cr_id = nextId sample_pending, cr_node = sample_node, cr_ciphertext = hex_buffer ''0a'',
              cr_nonce = hex_buffer (replicate 24 (CHR ''0'')), cr_author = ''u''\<rparr>}"
proof -
  obtain outs where r: "run sample_config sample_parse Some (relay_init [(sample_node, sample_key)] [] (\<lambda>_. 0)) sample_events sample_final outs"
    by (rule sample_run)
  obtain outs2 where r2: "run sample_config sample_parse Some sample_final
    [Frame 0 ''x'' 1, Resume 0 2 True False, Resume 0 3 True False] sample_pending outs2" by (rule sample_pending_run)
  obtain got n where g: "read_all (node_rows sample_final sample_node) 0 [] = (got, n)" by (rule prod.exhaust)
  let ?body = "JObj [(''ciphertext'', JStr ''0a''), (''nonce'', JStr (replicate 24 (CHR ''0''))), (''upToSeq'', JNum (int n))]"
  let ?res = "compact Some sample_pending (Inr sample_access) ''u'' sample_node ?body :: relay \<times> int effect list \<times> (api_error + nat)"
  have h: "all_hex ''0a''" "nonce_ok (replicate 24 (CHR ''0''))" by code_simp+
  then have b: "compact_body Some ?body = Some (''0a'', replicate 24 (CHR ''0''), int n)"
    by (simp add: compact_body_def prop_of_def str_of_def)
  have c: "?res = (fst ?res, fst (snd ?res), snd (snd ?res))" by simp
  have "list_all benign sample_events" "list_all benign [Frame 0 ''x'' 1, Resume 0 2 True False, Resume 0 3 True False :: int event]"
    by (simp_all add: sample_events_def benign_def)
  from compaction_keeps_unread[OF r this(1) g r2 this(2) b c, of sample_node] show ?thesis
    by (intro exI[of _ n]) (simp add: Let_def)
qed

section \<open>Two defects of the handling of frames\<close>



lemma hex_pairs_length: "hex_pairs s = Some bs \<Longrightarrow> length s = 2 * length bs"
  by (induction s arbitrary: bs rule: hex_pairs.induct) (auto split: option.splits)

lemma hex_buffer_odd: "odd (length ct) \<Longrightarrow> 2 * length (hex_buffer ct) < length ct"
proof -
  assume "odd (length ct)"
  moreover have "length (hex_buffer ct) \<le> length ct div 2"
    using hex_pairs_length[of "take (2 * (length ct div 2)) ct"] by (auto simp: hex_buffer_def split: option.splits)
  ultimately show ?thesis by (auto elim!: oddE)
qed

text \<open>C31: an update whose hexadecimal text has odd length passes the checks of the frame, and what is
  stored under the acknowledged number is shorter than the text the peers receive.\<close>

theorem odd_update_truncated:
  assumes "p_canWrite p" "length ct \<le> MAX_CIPHERTEXT_HEX cfg" "all_hex ct" "nonce_ok nonce" "odd (length ct)"
    and "consumeCollabBytes cfg (bytesByUser st) (p_user p) (half_length ct) now = (bm, True)"
    and "prop_of msg ''ciphertext'' = JStr ct" "prop_of msg ''nonce'' = JStr nonce"
    and "map_of (nodeKeys st) (p_node p) = Some k" "\<not> ks_rotation_required k" "ks_key_epoch k = p_keyEpoch p"
    and "u = \<lparr>up_conn = c, up_stage = disk_start st now, up_ct = ct, up_nonce = nonce\<rparr>"
  shows "uploads (fst (update_frame cfg st c p msg now)) = uploads st @ [u] \<and>
    (\<exists>r outs. updates (fst (insert_update cfg st u p)) = updates st @ [r] \<and> fst (snd (insert_update cfg st u p)) = outs \<and>
       Publish (RBcast (p_node p) (Update (cr_id r) ct nonce (p_user p))) \<in> set outs \<and>
       Send c (Ack nonce (cr_id r)) \<in> set outs \<and> 2 * length (cr_ciphertext r) < length ct)"
proof -
  have "nonce \<noteq> []" using assms(4) by (auto simp: nonce_ok_def)
  then have "uploads (fst (update_frame cfg st c p msg now)) = uploads st @ [u]"
    using assms(1-8,12) by (simp add: update_frame_def Let_def str_of_def)
  then show ?thesis
    using assms(9-12) hex_buffer_odd[OF assms(5)] by (simp add: insert_update_def Let_def recordCollabBytes_def split: option.split)
qed

lemma odd_update_truncated_witness:
  "\<exists>r. updates (fst (insert_update sample_config sample_final
      \<lparr>up_conn = 0, up_stage = disk_start sample_final 9, up_ct = ''0a1'', up_nonce = replicate 24 (CHR ''0'')\<rparr>
      \<lparr>p_user = ''u'', p_org = ''o'', p_node = sample_node, p_canWrite = True, p_keyEpoch = 1, p_msgCount = 1, p_windowStart = 0\<rparr>)) =
      updates sample_final @ [r] \<and> 2 * length (cr_ciphertext r) < 3"
proof -
  let ?p = "\<lparr>p_user = ''u'', p_org = ''o'', p_node = sample_node, p_canWrite = True, p_keyEpoch = 1, p_msgCount = 1, p_windowStart = 0\<rparr>"
  let ?nonce = "replicate 24 (CHR ''0'')"
  have c: "snd (consumeCollabBytes sample_config (bytesByUser sample_final) (p_user ?p) (half_length ''0a1'') 9)" by code_simp
  have k: "map_of (nodeKeys sample_final) (p_node ?p) = Some sample_key" by code_simp
  have "consumeCollabBytes sample_config (bytesByUser sample_final) (p_user ?p) (half_length ''0a1'') 9 =
      (fst (consumeCollabBytes sample_config (bytesByUser sample_final) (p_user ?p) (half_length ''0a1'') 9), True)"
    using c by (simp add: prod_eq_iff)
  note bytes = this
  have h: "all_hex ''0a1''" "nonce_ok ?nonce" "length ''0a1'' \<le> MAX_CIPHERTEXT_HEX sample_config" by code_simp+
  from odd_update_truncated[OF _ h(3) h(1) h(2) _ bytes _ _ k _ _ refl,
      of "JObj [(''ciphertext'', JStr ''0a1''), (''nonce'', JStr ?nonce)] :: int json" 0]
  show ?thesis by (auto simp: sample_key_def prop_of_def)
qed

end
