(* ===== verification/Rects.thy ===== *)
theory Rects
  imports Prelude
begin

text \<open>
  Two contracts used by the grid components. \<open>rect_family\<close>: rectangles over integer cells with an
  overlap test, as used by the merged ranges of the spreadsheet and by the merged cells of slide
  tables, with what a pairwise disjoint list of rectangles gives. \<open>saturating\<close>: a loop that
  repeats a pass until a pass reports no change, as used to grow a selection or a row window
  around the merges it touches; it returns whenever a changing pass decreases a measure.
\<close>

section \<open>Families of rectangles\<close>

definition apart :: "('m \<Rightarrow> 'm \<Rightarrow> bool) \<Rightarrow> 'm list \<Rightarrow> bool" where
  "apart ov ms \<longleftrightarrow> sorted_wrt (\<lambda>a b. \<not> ov a b) ms"

lemma apart_filter: "apart ov ms \<Longrightarrow> apart ov (filter P ms)"
  by (simp add: apart_def sorted_wrt_filter)

lemma apart_snoc:
  "apart ov (ms @ [m]) \<longleftrightarrow> apart ov ms \<and> (\<forall>x\<in>set ms. \<not> ov x m)"
  by (auto simp: apart_def sorted_wrt_append)

lemma apart_Nil [simp]: "apart ov []"
  by (simp add: apart_def)

lemma apart_Cons: "apart ov (m # ms) \<longleftrightarrow> (\<forall>x\<in>set ms. \<not> ov m x) \<and> apart ov ms"
  by (simp add: apart_def)

lemma apart_map:
  assumes "\<And>a b. a \<in> set ms \<Longrightarrow> b \<in> set ms \<Longrightarrow> ov (f a) (f b) \<Longrightarrow> ov a b"
    and "apart ov ms"
  shows "apart ov (map f ms)"
  using assms by (induction ms) (auto simp: apart_Cons)

lemma apart_map_filter:
  assumes "\<And>a b a' b'. a \<in> set ms \<Longrightarrow> b \<in> set ms \<Longrightarrow> f a = Some a' \<Longrightarrow> f b = Some b' \<Longrightarrow>
      ov a' b' \<Longrightarrow> ov a b"
    and "apart ov ms"
  shows "apart ov (List.map_filter f ms)"
  using assms
proof (induction ms)
  case (Cons m ms)
  then have "apart ov (List.map_filter f ms)"
    by (simp add: apart_Cons)
  moreover have "\<not> ov m' x'" if "f m = Some m'" "x \<in> set ms" "f x = Some x'" for m' x x'
    using Cons.prems that by (auto simp: apart_Cons)
  moreover have "\<exists>x\<in>set ms. f x = Some y" if "y \<in> set (List.map_filter f ms)" for y
    using that by (auto simp: List.map_filter_def)
  ultimately show ?case
    by (cases "f m") (fastforce simp: List.map_filter_simps apart_Cons)+
qed (simp add: List.map_filter_simps)

locale rect_family =
  fixes ok :: "'m \<Rightarrow> bool"
    and covers :: "'m \<Rightarrow> int \<Rightarrow> int \<Rightarrow> bool"
    and overlaps :: "'m \<Rightarrow> 'm \<Rightarrow> bool"
  assumes overlaps_iff: "ok a \<Longrightarrow> ok b \<Longrightarrow> overlaps a b \<longleftrightarrow> (\<exists>c r. covers a c r \<and> covers b c r)"
begin

lemma overlaps_sym: "ok a \<Longrightarrow> ok b \<Longrightarrow> overlaps a b = overlaps b a"
  by (auto simp: overlaps_iff)

lemma overlaps_self: "ok a \<Longrightarrow> covers a c r \<Longrightarrow> overlaps a a"
  by (auto simp: overlaps_iff)

lemma covering_unique:
  assumes "\<forall>m\<in>set ms. ok m" "apart overlaps ms"
    and "m \<in> set ms" "m' \<in> set ms" "covers m c r" "covers m' c r"
  shows "m = m'"
  using assms
proof (induction ms)
  case (Cons x xs)
  then show ?case
    by (auto simp: apart_Cons overlaps_iff)
qed simp

lemma find_covering:
  assumes "\<forall>m\<in>set ms. ok m" "apart overlaps ms"
  shows "find (\<lambda>m. covers m c r) ms = Some m \<longleftrightarrow> m \<in> set ms \<and> covers m c r"
proof
  assume "m \<in> set ms \<and> covers m c r"
  moreover from this obtain m' where m': "find (\<lambda>m. covers m c r) ms = Some m'"
    by (metis (mono_tags, lifting) find_None_iff not_None_eq)
  moreover from m' have "m' \<in> set ms" "covers m' c r"
    by (auto dest: findIndex_eq)
  ultimately show "find (\<lambda>m. covers m c r) ms = Some m"
    using covering_unique[OF assms] by metis
qed (auto dest: findIndex_eq)

lemma absorb_apart:
  assumes "\<forall>m\<in>set ms. ok m" "ok g" "apart overlaps ms"
  shows "apart overlaps (filter (\<lambda>m. \<not> overlaps g m) ms @ [g])"
  using assms by (auto simp: apart_snoc apart_filter overlaps_sym)

end

section \<open>Loops that run a pass until nothing changes\<close>

partial_function (option) saturate :: "('w \<Rightarrow> 'w \<times> bool) \<Rightarrow> 'w \<Rightarrow> 'w option" where
  "saturate pass w = (case pass w of (w', again) \<Rightarrow> if again then saturate pass w' else Some w')"

locale saturating =
  fixes pass :: "'w \<Rightarrow> 'w \<times> bool"
    and size_left :: "'w \<Rightarrow> nat"
  assumes progress: "snd (pass w) \<Longrightarrow> size_left (fst (pass w)) < size_left w"
begin

lemma returns: "\<exists>w'. saturate pass w = Some w'"
proof (induction "size_left w" arbitrary: w rule: less_induct)
  case less
  show ?case
  proof (cases "snd (pass w)")
    case True
    then obtain w' where "saturate pass (fst (pass w)) = Some w'"
      using less progress by blast
    with True show ?thesis
      by (subst saturate.simps) (auto split: prod.splits)
  next
    case False
    then show ?thesis
      by (subst saturate.simps) (auto split: prod.splits)
  qed
qed

lemma keeps:
  assumes "saturate pass w = Some w'" and "P w" and step: "\<And>v. P v \<Longrightarrow> P (fst (pass v))"
  shows "P w'"
  using assms(1,2)
proof (induction "size_left w" arbitrary: w rule: less_induct)
  case less
  show ?case
  proof (cases "snd (pass w)")
    case True
    with less.prems have "saturate pass (fst (pass w)) = Some w'"
      by (subst (asm) saturate.simps) (auto split: prod.splits)
    with True less.prems show ?thesis
      using less.hyps progress step by blast
  next
    case False
    with less.prems have "w' = fst (pass w)"
      by (subst (asm) saturate.simps) (auto split: prod.splits)
    with less.prems step show ?thesis by simp
  qed
qed

lemma last_pass:
  assumes "saturate pass w = Some w'"
  shows "\<exists>v. pass v = (w', False)"
  using assms
proof (induction "size_left w" arbitrary: w rule: less_induct)
  case less
  show ?case
  proof (cases "snd (pass w)")
    case True
    with less.prems have "saturate pass (fst (pass w)) = Some w'"
      by (subst (asm) saturate.simps) (auto split: prod.splits)
    with True show ?thesis
      using less.hyps progress by blast
  next
    case False
    with less.prems have "pass w = (w', False)"
      by (subst (asm) saturate.simps) (auto split: prod.splits)
    then show ?thesis by blast
  qed
qed

end

end
