(* ===== verification/Sheet_Merges.thy ===== *)
theory Sheet_Merges
  imports Rects
begin

text \<open>
  Merged ranges of a spreadsheet, \<^verbatim>\<open>web-studio/src/sheet/merges.ts\<close>. A merge is an inclusive
  rectangle of cells; \<^verbatim>\<open>toggleMerge\<close> merges or unmerges a selection.
\<close>

record merge_rect =
  m_c0 :: int
  m_r0 :: int
  m_c1 :: int
  m_r1 :: int

definition norm :: "merge_rect \<Rightarrow> merge_rect" where
  "norm r = \<lparr>m_c0 = min (m_c0 r) (m_c1 r), m_r0 = min (m_r0 r) (m_r1 r),
             m_c1 = max (m_c0 r) (m_c1 r), m_r1 = max (m_r0 r) (m_r1 r)\<rparr>"

definition intersects :: "merge_rect \<Rightarrow> merge_rect \<Rightarrow> bool" where
  "intersects a b \<longleftrightarrow> m_c0 a \<le> m_c1 b \<and> m_c1 a \<ge> m_c0 b \<and> m_r0 a \<le> m_r1 b \<and> m_r1 a \<ge> m_r0 b"

definition in_rect :: "merge_rect \<Rightarrow> int \<Rightarrow> int \<Rightarrow> bool" where
  "in_rect m c r \<longleftrightarrow> c \<ge> m_c0 m \<and> c \<le> m_c1 m \<and> r \<ge> m_r0 m \<and> r \<le> m_r1 m"

definition mergeAt :: "merge_rect list option \<Rightarrow> int \<Rightarrow> int \<Rightarrow> merge_rect option" where
  "mergeAt merges c r =
     (case merges of None \<Rightarrow> None | Some ms \<Rightarrow> find (\<lambda>m. in_rect m c r) ms)"

definition isMergeOrigin :: "merge_rect \<Rightarrow> int \<Rightarrow> int \<Rightarrow> bool" where
  "isMergeOrigin m c r \<longleftrightarrow> c = m_c0 m \<and> r = m_r0 m"

definition isCovered :: "merge_rect list option \<Rightarrow> int \<Rightarrow> int \<Rightarrow> bool" where
  "isCovered merges c r =
     (case mergeAt merges c r of None \<Rightarrow> False | Some m \<Rightarrow> \<not> isMergeOrigin m c r)"

text \<open>\<^verbatim>\<open>spanAt\<close>: the pair (colSpan, rowSpan) of an origin cell.\<close>

definition spanAt :: "merge_rect list option \<Rightarrow> int \<Rightarrow> int \<Rightarrow> (int \<times> int) option" where
  "spanAt merges c r =
     (case mergeAt merges c r of
        None \<Rightarrow> None
      | Some m \<Rightarrow> if \<not> isMergeOrigin m c r then None
                  else Some (m_c1 m - m_c0 m + 1, m_r1 m - m_r0 m + 1))"

definition toggleMerge :: "merge_rect list option \<Rightarrow> merge_rect \<Rightarrow> merge_rect list" where
  "toggleMerge merges sel =
     (let list = (case merges of None \<Rightarrow> [] | Some ms \<Rightarrow> ms);
          s = norm sel;
          hit = filter (\<lambda>m. intersects m s) list
      in if hit \<noteq> [] then filter (\<lambda>m. \<not> intersects m s) list
         else if m_c0 s = m_c1 s \<and> m_r0 s = m_r1 s then list
         else list @ [s])"

section \<open>Well-formed merge lists\<close>

text \<open>What the sheet relies on: normalised rectangles of several cells, pairwise disjoint.\<close>

definition normalised :: "merge_rect \<Rightarrow> bool" where
  "normalised m \<longleftrightarrow> m_c0 m \<le> m_c1 m \<and> m_r0 m \<le> m_r1 m"

definition several :: "merge_rect \<Rightarrow> bool" where
  "several m \<longleftrightarrow> \<not> (m_c0 m = m_c1 m \<and> m_r0 m = m_r1 m)"

definition wf_merges :: "merge_rect list \<Rightarrow> bool" where
  "wf_merges ms \<longleftrightarrow> (\<forall>m\<in>set ms. normalised m \<and> several m) \<and> apart intersects ms"

lemmas [rect_simps] = intersects_def in_rect_def normalised_def several_def norm_def

interpretation sm: rect_family normalised in_rect intersects
proof
  fix a b assume "normalised a" "normalised b"
  show "intersects a b \<longleftrightarrow> (\<exists>c r. in_rect a c r \<and> in_rect b c r)"
  proof
    assume "intersects a b"
    with \<open>normalised a\<close> \<open>normalised b\<close>
    have "in_rect a (max (m_c0 a) (m_c0 b)) (max (m_r0 a) (m_r0 b)) \<and>
          in_rect b (max (m_c0 a) (m_c0 b)) (max (m_r0 a) (m_r0 b))"
      by (simp add: rect_simps)
    then show "\<exists>c r. in_rect a c r \<and> in_rect b c r" by blast
  qed (auto simp: rect_simps)
qed

lemma normalised_norm [simp]: "normalised (norm r)"
  by (simp add: rect_simps le_max_iff_disj)

lemma norm_normalised: "normalised r \<Longrightarrow> norm r = r"
  by (simp add: rect_simps)

lemma wf_mergesD:
  "wf_merges ms \<Longrightarrow> \<forall>m\<in>set ms. normalised m" "wf_merges ms \<Longrightarrow> apart intersects ms"
  by (auto simp: wf_merges_def)

lemma wf_merges_filter: "wf_merges ms \<Longrightarrow> wf_merges (filter P ms)"
  by (auto simp: wf_merges_def apart_filter)

lemma wf_merges_snoc:
  "wf_merges (ms @ [s]) \<longleftrightarrow>
     wf_merges ms \<and> normalised s \<and> several s \<and> (\<forall>m\<in>set ms. \<not> intersects m s)"
  by (auto simp: wf_merges_def apart_snoc)

lemma mergeAt_iff:
  "wf_merges ms \<Longrightarrow> mergeAt (Some ms) c r = Some m \<longleftrightarrow> m \<in> set ms \<and> in_rect m c r"
  unfolding mergeAt_def using sm.find_covering[OF wf_mergesD] by simp

section \<open>Properties\<close>

text \<open>Whatever selection is toggled, a list of disjoint, normalised, multi-cell merges stays one.\<close>

theorem toggleMerge_wf:
  assumes "wf_merges ms"
  shows "wf_merges (toggleMerge (Some ms) sel)"
  using assms
  by (auto simp: toggleMerge_def Let_def wf_merges_filter wf_merges_snoc several_def filter_empty_conv)

theorem toggleMerge_wf_witness:
  "wf_merges (toggleMerge (Some [\<lparr>m_c0 = 0, m_r0 = 0, m_c1 = 1, m_r1 = 1\<rparr>])
     \<lparr>m_c0 = 4, m_r0 = 3, m_c1 = 2, m_r1 = 2\<rparr>)"
  by (rule toggleMerge_wf) (simp add: wf_merges_def rect_simps apart_Cons)

text \<open>On a well-formed list, merging a fresh selection and toggling the same selection again
  gives the list back; and in between exactly the cells of the selection other than its
  top-left corner have become covered.\<close>

theorem toggleMerge_twice:
  assumes "wf_merges ms" and "\<forall>m\<in>set ms. \<not> intersects m (norm sel)" and "several (norm sel)"
  shows "toggleMerge (Some (toggleMerge (Some ms) sel)) sel = ms \<and>
    (isCovered (Some (toggleMerge (Some ms) sel)) c r \<longleftrightarrow>
       isCovered (Some ms) c r \<or> (in_rect (norm sel) c r \<and> \<not> isMergeOrigin (norm sel) c r))"
proof
  let ?s = "norm sel"
  have eq: "toggleMerge (Some ms) sel = ms @ [?s]"
    using assms(2,3) by (auto simp: toggleMerge_def Let_def filter_empty_conv several_def)
  have "intersects ?s ?s"
    using normalised_norm[of sel] by (simp add: intersects_def normalised_def)
  then show "toggleMerge (Some (toggleMerge (Some ms) sel)) sel = ms"
    using assms(2) by (simp add: eq) (simp add: toggleMerge_def Let_def filter_id_conv)
  have wf': "wf_merges (ms @ [?s])"
    using assms by (simp add: wf_merges_snoc)
  have cov: "isCovered (Some l) c r \<longleftrightarrow>
      (\<exists>m\<in>set l. in_rect m c r \<and> \<not> isMergeOrigin m c r)" if "wf_merges l" for l
  proof (cases "mergeAt (Some l) c r")
    case None
    then show ?thesis
      using mergeAt_iff[OF that, of c r] by (auto simp: isCovered_def)
  next
    case (Some m)
    then have "m' \<in> set l \<and> in_rect m' c r \<longleftrightarrow> m' = m" for m'
      using mergeAt_iff[OF that, of c r] by (metis option.inject)
    with Some show ?thesis
      unfolding isCovered_def by (simp, metis)
  qed
  show "isCovered (Some (toggleMerge (Some ms) sel)) c r \<longleftrightarrow>
      isCovered (Some ms) c r \<or> (in_rect ?s c r \<and> \<not> isMergeOrigin ?s c r)"
    unfolding eq cov[OF wf'] cov[OF assms(1)] by auto
qed

theorem toggleMerge_twice_witness:
  "toggleMerge (Some (toggleMerge (Some []) \<lparr>m_c0 = 1, m_r0 = 1, m_c1 = 0, m_r1 = 0\<rparr>))
     \<lparr>m_c0 = 1, m_r0 = 1, m_c1 = 0, m_r1 = 0\<rparr> = []"
  using toggleMerge_twice [of "[]" "\<lparr>m_c0 = 1, m_r0 = 1, m_c1 = 0, m_r1 = 0\<rparr>" 0 0]
  by (simp add: wf_merges_def rect_simps)

end
