(* ===== verification/Slide_Table.thy ===== *)
theory Slide_Table
  imports Rects
begin

text \<open>
  Tables on slides, \<^verbatim>\<open>web-studio/src/slides/table.ts\<close>: merging and splitting cells, inserting and
  deleting rows and columns while keeping the merges coherent, and importing tab-separated text.
  A merge is anchored at its top-left cell and spans \<open>rs\<close> rows and \<open>cs\<close> columns.
\<close>

record table_merge =
  t_r :: int
  t_c :: int
  t_rs :: int
  t_cs :: int

record cell_pos =
  p_r :: int
  p_c :: int

datatype table_style = Plain | Banded | Grid | Accent

record table_data =
  td_rows :: int
  td_cols :: int
  td_cells :: "string list list"
  td_merges :: "table_merge list option"
  td_style :: "table_style option"
  td_headerRow :: "bool option"
  td_firstCol :: "bool option"

definition merges_of :: "table_data \<Rightarrow> table_merge list" where
  "merges_of t = (case td_merges t of None \<Rightarrow> [] | Some ms \<Rightarrow> ms)"

definition set_merges :: "table_merge list \<Rightarrow> table_data \<Rightarrow> table_data" where
  "set_merges ms t = t\<lparr>td_merges := (if ms = [] then None else Some ms)\<rparr>"

section \<open>Reading merges\<close>

definition tmergeAt :: "table_data \<Rightarrow> int \<Rightarrow> int \<Rightarrow> table_merge option" where
  "tmergeAt t r c = find (\<lambda>m. t_r m = r \<and> t_c m = c) (merges_of t)"

definition spans :: "table_merge \<Rightarrow> int \<Rightarrow> int \<Rightarrow> bool" where
  "spans m r c \<longleftrightarrow> r \<ge> t_r m \<and> r < t_r m + t_rs m \<and> c \<ge> t_c m \<and> c < t_c m + t_cs m"

definition tisCovered :: "table_data \<Rightarrow> int \<Rightarrow> int \<Rightarrow> bool" where
  "tisCovered t r c = list_ex (\<lambda>m. (t_r m \<noteq> r \<or> t_c m \<noteq> c) \<and> spans m r c) (merges_of t)"

definition mergeContaining :: "table_data \<Rightarrow> int \<Rightarrow> int \<Rightarrow> table_merge option" where
  "mergeContaining t r c = find (\<lambda>m. spans m r c) (merges_of t)"

definition toverlaps :: "table_merge \<Rightarrow> table_merge \<Rightarrow> bool" where
  "toverlaps a b \<longleftrightarrow> t_r a < t_r b + t_rs b \<and> t_r b < t_r a + t_rs a \<and>
                   t_c a < t_c b + t_cs b \<and> t_c b < t_c a + t_cs a"

definition in_bounds :: "int \<Rightarrow> int \<Rightarrow> table_merge \<Rightarrow> bool" where
  "in_bounds rows cols m \<longleftrightarrow>
     \<not> (t_r m < 0 \<or> t_c m < 0 \<or> t_r m + t_rs m > rows \<or> t_c m + t_cs m > cols \<or> t_rs m < 1 \<or> t_cs m < 1)"

fun validMerges_from :: "int \<Rightarrow> int \<Rightarrow> table_merge list \<Rightarrow> bool" where
  "validMerges_from rows cols [] = True"
| "validMerges_from rows cols (m # ms) =
     (in_bounds rows cols m \<and> list_all (\<lambda>x. \<not> toverlaps m x) ms \<and> validMerges_from rows cols ms)"

definition validMerges :: "table_data \<Rightarrow> bool" where
  "validMerges t = validMerges_from (td_rows t) (td_cols t) (merges_of t)"

section \<open>Merging cells\<close>

text \<open>One pass over the merges grows the rectangle around those it touches and reports a change.\<close>

definition hull :: "table_merge \<Rightarrow> table_merge \<Rightarrow> table_merge" where
  "hull g m =
     (let nr0 = min (t_r g) (t_r m); nc0 = min (t_c g) (t_c m);
          nr1 = max (t_r g + t_rs g) (t_r m + t_rs m); nc1 = max (t_c g + t_cs g) (t_c m + t_cs m)
      in \<lparr>t_r = nr0, t_c = nc0, t_rs = nr1 - nr0, t_cs = nc1 - nc0\<rparr>)"

fun grow_pass :: "table_merge list \<Rightarrow> table_merge \<times> bool \<Rightarrow> table_merge \<times> bool" where
  "grow_pass [] (g, again) = (g, again)"
| "grow_pass (m # ms) (g, again) =
     (if \<not> toverlaps g m then grow_pass ms (g, again)
      else if hull g m \<noteq> g then grow_pass ms (hull g m, True)
      else grow_pass ms (g, again))"

definition grow :: "table_merge list \<Rightarrow> table_merge \<Rightarrow> table_merge option" where
  "grow ms = saturate (\<lambda>g. grow_pass ms (g, False))"

definition row_opt :: "string list list \<Rightarrow> int \<Rightarrow> string list option" where
  "row_opt cells r = (if 0 \<le> r \<and> r < int (length cells) then Some (cells ! nat r) else None)"

definition cell_text :: "string list list \<Rightarrow> int \<Rightarrow> int \<Rightarrow> string" where
  "cell_text cells r c =
     (case row_opt cells r of None \<Rightarrow> []
      | Some row \<Rightarrow> if 0 \<le> c \<and> c < int (length row) then row ! nat c else [])"

definition set_cell :: "int \<Rightarrow> int \<Rightarrow> string \<Rightarrow> string list list \<Rightarrow> string list list" where
  "set_cell r c v cells =
     (case row_opt cells r of None \<Rightarrow> cells
      | Some row \<Rightarrow> if 0 \<le> c then cells[nat r := js_set (nat c) v row] else cells)"

definition merge_step :: "int \<times> int \<Rightarrow> string list list \<times> string list \<Rightarrow> string list list \<times> string list" where
  "merge_step = (\<lambda>(r, c) (cells, texts).
     (let v = js_trim (cell_text cells r c)
      in (set_cell r c [] cells, if v \<noteq> [] then texts @ [v] else texts)))"

definition cells_of_rect :: "table_merge \<Rightarrow> (int \<times> int) list" where
  "cells_of_rect g = [(r, c). r \<leftarrow> [t_r g..t_r g + t_rs g - 1], c \<leftarrow> [t_c g..t_c g + t_cs g - 1]]"

text \<open>\<^term>\<open>None\<close> stands for the \<^verbatim>\<open>TypeError\<close> of writing the anchor into an absent row.\<close>

definition mergeCells :: "table_data \<Rightarrow> cell_pos \<Rightarrow> cell_pos \<Rightarrow> table_data option" where
  "mergeCells t a b =
     (let r0 = min (p_r a) (p_r b); r1 = max (p_r a) (p_r b);
          c0 = min (p_c a) (p_c b); c1 = max (p_c a) (p_c b)
      in if r0 < 0 \<or> c0 < 0 \<or> r1 \<ge> td_rows t \<or> c1 \<ge> td_cols t \<or> (r0 = r1 \<and> c0 = c1) then Some t
         else (case grow (merges_of t) \<lparr>t_r = r0, t_c = c0, t_rs = r1 - r0 + 1, t_cs = c1 - c0 + 1\<rparr> of
             None \<Rightarrow> None
           | Some g \<Rightarrow>
               (case fold merge_step (cells_of_rect g) (td_cells t, []) of
                  (cells, texts) \<Rightarrow>
                    (case row_opt cells (t_r g) of
                       None \<Rightarrow> None
                     | Some _ \<Rightarrow>
                         Some (t\<lparr>td_cells := set_cell (t_r g) (t_c g) (js_join '' '' texts) cells,
                                 td_merges := Some (filter (\<lambda>m. \<not> toverlaps g m) (merges_of t) @ [g])\<rparr>)))))"

text \<open>The split removes the merge found, by identity: the first that contains the cell.\<close>

definition remove_first :: "('a \<Rightarrow> bool) \<Rightarrow> 'a list \<Rightarrow> 'a list" where
  "remove_first P xs = takeWhile (\<lambda>x. \<not> P x) xs @ tl (dropWhile (\<lambda>x. \<not> P x) xs)"

definition unmergeAt :: "table_data \<Rightarrow> int \<Rightarrow> int \<Rightarrow> table_data" where
  "unmergeAt t r c =
     (case mergeContaining t r c of
        None \<Rightarrow> t
      | Some m \<Rightarrow> set_merges (remove_first (\<lambda>m. spans m r c) (merges_of t)) t)"

section \<open>Rows and columns\<close>

definition clip :: "table_merge list \<Rightarrow> table_merge list" where
  "clip = filter (\<lambda>m. t_rs m > 1 \<or> t_cs m > 1)"

definition shift_row :: "int \<Rightarrow> table_merge \<Rightarrow> table_merge" where
  "shift_row i m =
     (if t_r m \<ge> i then m\<lparr>t_r := t_r m + 1\<rparr>
      else if t_r m < i \<and> i < t_r m + t_rs m then m\<lparr>t_rs := t_rs m + 1\<rparr> else m)"

definition insertRow :: "table_data \<Rightarrow> int \<Rightarrow> table_data" where
  "insertRow t at =
     (let i = max 0 (min (td_rows t) at);
          cells = splice_insert (nat i) [replicate (nat (td_cols t)) []] (td_cells t);
          merges = clip (map (shift_row i) (merges_of t))
      in set_merges merges (t\<lparr>td_rows := td_rows t + 1, td_cells := cells\<rparr>))"

definition drop_row :: "int \<Rightarrow> table_merge \<Rightarrow> table_merge option" where
  "drop_row at m =
     (if at < t_r m then Some (m\<lparr>t_r := t_r m - 1\<rparr>)
      else if at \<ge> t_r m + t_rs m then Some m
      else if t_rs m = 1 then None
      else if at = t_r m \<and> t_rs m > 1 then Some (m\<lparr>t_rs := t_rs m - 1\<rparr>)
      else Some (m\<lparr>t_rs := t_rs m - 1\<rparr>))"

definition deleteRow :: "table_data \<Rightarrow> int \<Rightarrow> table_data" where
  "deleteRow t at =
     (if td_rows t \<le> 1 \<or> at < 0 \<or> at \<ge> td_rows t then t
      else set_merges (clip (List.map_filter (drop_row at) (merges_of t)))
             (t\<lparr>td_rows := td_rows t - 1, td_cells := splice_remove (nat at) (td_cells t)\<rparr>))"

definition shift_col :: "int \<Rightarrow> table_merge \<Rightarrow> table_merge" where
  "shift_col i m =
     (if t_c m \<ge> i then m\<lparr>t_c := t_c m + 1\<rparr>
      else if t_c m < i \<and> i < t_c m + t_cs m then m\<lparr>t_cs := t_cs m + 1\<rparr> else m)"

definition insertCol :: "table_data \<Rightarrow> int \<Rightarrow> table_data" where
  "insertCol t at =
     (let i = max 0 (min (td_cols t) at);
          cells = map (splice_insert (nat i) [[]]) (td_cells t);
          merges = clip (map (shift_col i) (merges_of t))
      in set_merges merges (t\<lparr>td_cols := td_cols t + 1, td_cells := cells\<rparr>))"

definition drop_col :: "int \<Rightarrow> table_merge \<Rightarrow> table_merge option" where
  "drop_col at m =
     (if at < t_c m then Some (m\<lparr>t_c := t_c m - 1\<rparr>)
      else if at \<ge> t_c m + t_cs m then Some m
      else if t_cs m = 1 then None
      else Some (m\<lparr>t_cs := t_cs m - 1\<rparr>))"

definition deleteCol :: "table_data \<Rightarrow> int \<Rightarrow> table_data" where
  "deleteCol t at =
     (if td_cols t \<le> 1 \<or> at < 0 \<or> at \<ge> td_cols t then t
      else set_merges (clip (List.map_filter (drop_col at) (merges_of t)))
             (t\<lparr>td_cols := td_cols t - 1, td_cells := map (splice_remove (nat at)) (td_cells t)\<rparr>))"

section \<open>Import of tab-separated text\<close>

text \<open>\<^verbatim>\<open>c.replace(/^"(.*)"$/s, "$1")\<close> and \<^verbatim>\<open>c.replace(/""/g, '"')\<close>.\<close>

definition strip_quotes :: "string \<Rightarrow> string" where
  "strip_quotes c =
     (if length c \<ge> 2 \<and> hd c = CHR 34 \<and> last c = CHR 34 then butlast (tl c) else c)"

fun undouble :: "string \<Rightarrow> string" where
  "undouble (a # b # cs) =
     (if a = CHR 34 \<and> b = CHR 34 then CHR 34 # undouble cs else a # undouble (b # cs))"
| "undouble cs = cs"

definition tsv_rows :: "string \<Rightarrow> string list list" where
  "tsv_rows text =
     (let lines = js_split (CHR 10) (filter (\<lambda>c. c \<noteq> CHR 13) text);
          kept = map snd (filter (\<lambda>(i, l). l \<noteq> [] \<or> i < length lines - 1) (enumerate 0 lines))
      in rev (dropWhile (list_all (\<lambda>c. c = [])) (rev
           (map (\<lambda>l. map (\<lambda>c. undouble (strip_quotes c)) (js_split (CHR 9) l)) kept))))"

definition tableFromTsv :: "string \<Rightarrow> table_data option" where
  "tableFromTsv text =
     (let rows = tsv_rows text
      in if rows = [] then None
         else let cols = Max (set (map length rows))
              in if cols = 0 then None
                 else Some \<lparr>td_rows = int (length rows), td_cols = int cols,
                            td_cells = map (\<lambda>r. map (\<lambda>c. if c < length r then r ! c else []) [0..<cols]) rows,
                            td_merges = None, td_style = Some Banded, td_headerRow = Some True,
                            td_firstCol = None\<rparr>)"

section \<open>Validity\<close>

text \<open>A valid table is a non-empty matrix of its declared size whose merges pass the integrity
  check \<^const>\<open>validMerges\<close> of the code.\<close>

definition shape :: "int \<Rightarrow> int \<Rightarrow> string list list \<Rightarrow> bool" where
  "shape rows cols cells \<longleftrightarrow> rows \<ge> 1 \<and> cols \<ge> 1 \<and> int (length cells) = rows \<and>
     (\<forall>row\<in>set cells. int (length row) = cols)"

definition valid_table :: "table_data \<Rightarrow> bool" where
  "valid_table t \<longleftrightarrow> shape (td_rows t) (td_cols t) (td_cells t) \<and> validMerges t"

lemma validMerges_from_iff:
  "validMerges_from rows cols ms \<longleftrightarrow> (\<forall>m\<in>set ms. in_bounds rows cols m) \<and> apart toverlaps ms"
  by (induction ms) (auto simp: apart_Cons list_all_iff)

lemma validMerges_iff:
  "validMerges t \<longleftrightarrow>
     (\<forall>m\<in>set (merges_of t). in_bounds (td_rows t) (td_cols t) m) \<and> apart toverlaps (merges_of t)"
  by (simp add: validMerges_def validMerges_from_iff)

lemma merges_of_set_merges [simp]: "merges_of (set_merges ms t) = ms"
  by (simp add: merges_of_def set_merges_def)

lemma set_merges_fields [simp]:
  "td_rows (set_merges ms t) = td_rows t" "td_cols (set_merges ms t) = td_cols t"
  "td_cells (set_merges ms t) = td_cells t"
  by (simp_all add: set_merges_def)

lemma merges_of_update [simp]:
  "merges_of (t\<lparr>td_merges := Some ms\<rparr>) = ms"
  "merges_of (t\<lparr>td_cells := cs\<rparr>) = merges_of t"
  by (simp_all add: merges_of_def)

definition sized :: "table_merge \<Rightarrow> bool" where
  "sized m \<longleftrightarrow> t_rs m \<ge> 1 \<and> t_cs m \<ge> 1"

interpretation st: rect_family sized "\<lambda>m c r. spans m r c" toverlaps
proof
  fix a b assume "sized a" "sized b"
  show "toverlaps a b \<longleftrightarrow> (\<exists>c r. spans a r c \<and> spans b r c)"
  proof
    assume "toverlaps a b"
    with \<open>sized a\<close> \<open>sized b\<close>
    have "spans a (max (t_r a) (t_r b)) (max (t_c a) (t_c b)) \<and>
          spans b (max (t_r a) (t_r b)) (max (t_c a) (t_c b))"
      by (auto simp: toverlaps_def spans_def sized_def)
    then show "\<exists>c r. spans a r c \<and> spans b r c" by blast
  qed (auto simp: toverlaps_def spans_def)
qed

lemma in_bounds_sized: "in_bounds rows cols m \<Longrightarrow> sized m"
  by (simp add: in_bounds_def sized_def)

section \<open>Growing a rectangle\<close>

definition edges_left :: "table_merge \<Rightarrow> table_merge \<Rightarrow> nat" where
  "edges_left g m = nat (t_r g - t_r m) + nat (t_c g - t_c m)
     + nat (t_r m + t_rs m - (t_r g + t_rs g)) + nat (t_c m + t_cs m - (t_c g + t_cs g))"

definition grow_left :: "table_merge list \<Rightarrow> table_merge \<Rightarrow> nat" where
  "grow_left ms g = sum_list (map (edges_left g) ms)"

lemma edges_left_hull: "edges_left (hull g m) x \<le> edges_left g x"
  unfolding edges_left_def hull_def Let_def by (simp, intro add_mono nat_mono) simp_all

lemma edges_left_hull_self: "hull g m \<noteq> g \<Longrightarrow> edges_left (hull g m) m < edges_left g m"
  by (cases g; cases m) (auto simp: edges_left_def hull_def Let_def min_def max_def split: if_splits)

lemma sum_list_less:
  fixes f h :: "'a \<Rightarrow> nat"
  assumes "\<And>x. f x \<le> h x" "y \<in> set xs" "f y < h y"
  shows "sum_list (map f xs) < sum_list (map h xs)"
  using assms(2)
proof (induction xs)
  case (Cons x xs)
  have "sum_list (map f xs) \<le> sum_list (map h xs)"
    by (intro sum_list_mono assms(1))
  moreover have "f x \<le> h x" by (rule assms(1))
  ultimately show ?case
    using Cons assms(3) by (auto intro: add_less_le_mono add_le_less_mono)
qed simp

lemma grow_left_hull:
  "grow_left ms (hull g m) \<le> grow_left ms g"
  "m \<in> set ms \<Longrightarrow> hull g m \<noteq> g \<Longrightarrow> grow_left ms (hull g m) < grow_left ms g"
  unfolding grow_left_def
  by (auto intro!: sum_list_mono edges_left_hull sum_list_less edges_left_hull_self)

lemma grow_pass_progress:
  assumes "grow_pass ms (g, f) = (g', f')" "set ms \<subseteq> set all"
  shows "grow_left all g' \<le> grow_left all g \<and> (f' \<and> \<not> f \<longrightarrow> grow_left all g' < grow_left all g)"
  using assms
proof (induction ms arbitrary: g f)
  case (Cons m ms)
  show ?case
  proof (cases "toverlaps g m \<and> hull g m \<noteq> g")
    case True
    with Cons.prems have "grow_pass ms (hull g m, True) = (g', f')" by simp
    then have "grow_left all g' \<le> grow_left all (hull g m)"
      using Cons.IH[of "hull g m" True] Cons.prems(2) by auto
    moreover have "grow_left all (hull g m) < grow_left all g"
      using True Cons.prems(2) by (intro grow_left_hull) auto
    ultimately show ?thesis by simp
  next
    case False
    with Cons show ?thesis by (auto split: if_splits)
  qed
qed simp

interpretation grow: saturating "\<lambda>g. grow_pass ms (g, False)" "grow_left ms" for ms
  by unfold_locales (metis grow_pass_progress order_refl prod.collapse)

lemma in_bounds_hull:
  "in_bounds rows cols g \<Longrightarrow> in_bounds rows cols m \<Longrightarrow> in_bounds rows cols (hull g m)"
  by (auto simp: in_bounds_def hull_def Let_def min_def max_def)

lemma spans_hull: "spans g r c \<Longrightarrow> spans (hull g m) r c"
  by (auto simp: spans_def hull_def Let_def min_def max_def)

lemma grow_pass_keeps:
  assumes "\<forall>m\<in>set ms. in_bounds rows cols m" "in_bounds rows cols g"
  shows "in_bounds rows cols (fst (grow_pass ms (g, f)))"
  using assms by (induction ms arbitrary: g f) (auto simp: in_bounds_hull)

lemma grow_pass_spans: "spans g r c \<Longrightarrow> spans (fst (grow_pass ms (g, f))) r c"
  by (induction ms arbitrary: g f) (auto simp: spans_hull)

lemma grow_pass_sticky: "snd (grow_pass ms (g, True))"
  by (induction ms arbitrary: g) auto

lemma grow_pass_stable:
  "grow_pass ms (g, False) = (g', False) \<Longrightarrow> g' = g \<and> (\<forall>m\<in>set ms. toverlaps g m \<longrightarrow> hull g m = g)"
proof (induction ms)
  case (Cons m ms)
  then show ?case
    using grow_pass_sticky[of ms "hull g m"] by (auto split: if_splits)
qed simp

text \<open>The grown rectangle: exists, stays inside the table, contains the rectangle it started from,
  and cuts no merge.\<close>

lemma grow_correct:
  assumes "\<forall>m\<in>set ms. in_bounds rows cols m" "in_bounds rows cols g"
  shows "\<exists>g'. grow ms g = Some g' \<and> in_bounds rows cols g' \<and>
    (\<forall>r c. spans g r c \<longrightarrow> spans g' r c) \<and> (\<forall>m\<in>set ms. toverlaps g' m \<longrightarrow> hull g' m = g')"
proof -
  obtain g' where g': "grow ms g = Some g'"
    unfolding grow_def using grow.returns by blast
  have "in_bounds rows cols g'"
    using grow.keeps[where P = "in_bounds rows cols", OF g'[unfolded grow_def]] assms grow_pass_keeps
    by blast
  moreover have "spans g' r c" if "spans g r c" for r c
    using grow.keeps[where P = "\<lambda>g. spans g r c", OF g'[unfolded grow_def]] that grow_pass_spans
    by blast
  moreover have "\<forall>m\<in>set ms. toverlaps g' m \<longrightarrow> hull g' m = g'"
    using grow.last_pass[OF g'[unfolded grow_def]] grow_pass_stable by blast
  ultimately show ?thesis using g' by blast
qed

section \<open>Reading and clearing cells\<close>

lemma shape_row_opt:
  assumes "shape rows cols cells"
  shows "row_opt cells r = (if 0 \<le> r \<and> r < rows then Some (cells ! nat r) else None)"
  using assms by (auto simp: row_opt_def shape_def)

lemma shape_row:
  "shape rows cols cells \<Longrightarrow> 0 \<le> r \<Longrightarrow> r < rows \<Longrightarrow> int (length (cells ! nat r)) = cols"
  by (auto simp: shape_def)

lemma set_cell_eq:
  assumes "shape rows cols cells" "0 \<le> r" "r < rows" "0 \<le> c" "c < cols"
  shows "set_cell r c v cells = cells[nat r := (cells ! nat r)[nat c := v]]"
proof -
  have "nat c < length (cells ! nat r)"
    using shape_row[OF assms(1-3)] assms(4,5) by simp
  then show ?thesis
    using assms(2-4) by (simp add: set_cell_def shape_row_opt[OF assms(1)] js_set_def)
qed

lemma shape_set_cell:
  assumes "shape rows cols cells" "0 \<le> r" "r < rows" "0 \<le> c" "c < cols"
  shows "shape rows cols (set_cell r c v cells)"
proof -
  let ?row = "(cells ! nat r)[nat c := v]"
  have "int (length ?row) = cols"
    using shape_row[OF assms(1-3)] by simp
  then have "\<forall>x\<in>insert ?row (set cells). int (length x) = cols"
    using assms(1) unfolding shape_def by blast
  then have "\<forall>x\<in>set (cells[nat r := ?row]). int (length x) = cols"
    using set_update_subset_insert[of cells "nat r" ?row] by blast
  then show ?thesis
    using assms(1) unfolding set_cell_eq[OF assms] shape_def by simp
qed

lemma cell_text_shape:
  assumes "shape rows cols cells"
  shows "cell_text cells r c =
    (if 0 \<le> r \<and> r < rows \<and> 0 \<le> c \<and> c < cols then cells ! nat r ! nat c else [])"
  using shape_row[OF assms, of r] by (simp add: cell_text_def shape_row_opt[OF assms])

lemma cell_text_set_cell:
  assumes "shape rows cols cells" "0 \<le> r" "r < rows" "0 \<le> c" "c < cols"
  shows "cell_text (set_cell r c v cells) r' c' =
    (if r' = r \<and> c' = c then v else cell_text cells r' c')"
proof (cases "0 \<le> r' \<and> r' < rows \<and> 0 \<le> c' \<and> c' < cols")
  case True
  have r: "nat r < length cells" and c: "nat c < length (cells ! nat r)"
    using shape_row[OF assms(1-3)] assms unfolding shape_def by linarith+
  have ne: "r' \<noteq> r \<Longrightarrow> nat r \<noteq> nat r'" "c' \<noteq> c \<Longrightarrow> nat c \<noteq> nat c'"
    using True assms by linarith+
  have "cells[nat r := (cells ! nat r)[nat c := v]] ! nat r' ! nat c' =
    (if r' = r \<and> c' = c then v else cells ! nat r' ! nat c')"
    using r c ne by (cases "r' = r"; cases "c' = c") simp_all
  then show ?thesis
    using True by (simp add: set_cell_eq[OF assms] cell_text_shape[OF assms(1)]
        cell_text_shape[OF shape_set_cell[OF assms, unfolded set_cell_eq[OF assms]]])
next
  case False
  then show ?thesis
    unfolding cell_text_shape[OF shape_set_cell[OF assms]] cell_text_shape[OF assms(1)]
    using assms by auto
qed

lemma fold_merge_step:
  assumes "shape rows cols cells" "distinct ps"
    "\<forall>(r, c)\<in>set ps. 0 \<le> r \<and> r < rows \<and> 0 \<le> c \<and> c < cols"
    "fold merge_step ps (cells, texts) = (cells', texts')"
  shows "shape rows cols cells' \<and>
    texts' = texts @ filter (\<lambda>v. v \<noteq> []) (map (\<lambda>(r, c). js_trim (cell_text cells r c)) ps) \<and>
    (\<forall>r c. cell_text cells' r c = (if (r, c) \<in> set ps then [] else cell_text cells r c))"
  using assms
proof (induction ps arbitrary: cells texts)
  case (Cons p ps)
  obtain r c where p: "p = (r, c)" by (cases p)
  let ?cells = "set_cell r c [] cells"
  have in_range: "0 \<le> r" "r < rows" "0 \<le> c" "c < cols"
    using Cons.prems(3) p by auto
  note read = cell_text_set_cell[OF Cons.prems(1) in_range]
  have rest: "map (\<lambda>(r, c). js_trim (cell_text ?cells r c)) ps =
      map (\<lambda>(r, c). js_trim (cell_text cells r c)) ps"
    using Cons.prems(2) p by (auto simp: read)
  let ?texts = "if js_trim (cell_text cells r c) \<noteq> [] then texts @ [js_trim (cell_text cells r c)] else texts"
  have "fold merge_step ps (?cells, ?texts) = (cells', texts')"
    using Cons.prems(4) p by (simp add: merge_step_def Let_def)
  from Cons.IH[OF shape_set_cell[OF Cons.prems(1) in_range] _ _ this] Cons.prems(2,3)
  show ?case
    unfolding rest by (auto simp: p read)
qed simp

lemma cells_of_rect_set: "set (cells_of_rect g) = {(r, c). spans g r c}"
  by (auto simp: cells_of_rect_def spans_def)

lemma distinct_cells_of_rect: "distinct (cells_of_rect g)"
proof -
  have "distinct (concat (map (\<lambda>r. map (Pair r) (cs :: int list)) rs))"
    if "distinct rs" "distinct cs" for rs cs :: "int list"
    using that by (induction rs) (auto simp: distinct_map inj_on_def)
  then show ?thesis
    by (simp add: cells_of_rect_def)
qed

section \<open>Merging\<close>

text \<open>The specification of merging a rectangle: what a reader of the slide sees before and after.\<close>

definition merge_spec :: "table_data \<Rightarrow> table_merge \<Rightarrow> table_data \<Rightarrow> bool" where
  "merge_spec t g t' \<longleftrightarrow>
     td_rows t' = td_rows t \<and> td_cols t' = td_cols t \<and> in_bounds (td_rows t) (td_cols t) g \<and>
     (\<forall>m\<in>set (merges_of t). toverlaps g m \<longrightarrow> hull g m = g) \<and>
     merges_of t' = filter (\<lambda>m. \<not> toverlaps g m) (merges_of t) @ [g] \<and>
     (\<forall>r c. cell_text (td_cells t') r c =
       (if r = t_r g \<and> c = t_c g
        then js_join '' '' (filter (\<lambda>v. v \<noteq> []) (map (\<lambda>(r, c). js_trim (cell_text (td_cells t) r c)) (cells_of_rect g)))
        else if spans g r c then [] else cell_text (td_cells t) r c))"

definition selected :: "table_data \<Rightarrow> cell_pos \<Rightarrow> cell_pos \<Rightarrow> bool" where
  "selected t a b \<longleftrightarrow> (\<forall>p\<in>{a, b}. 0 \<le> p_r p \<and> p_r p < td_rows t \<and> 0 \<le> p_c p \<and> p_c p < td_cols t) \<and>
     (p_r a \<noteq> p_r b \<or> p_c a \<noteq> p_c b)"

lemma mergeCells_correct:
  assumes "valid_table t" "selected t a b"
  shows "\<exists>g t'. mergeCells t a b = Some t' \<and> valid_table t' \<and> merge_spec t g t' \<and>
    spans g (p_r a) (p_c a) \<and> spans g (p_r b) (p_c b)"
proof -
  let ?rows = "td_rows t" and ?cols = "td_cols t" and ?ms = "merges_of t"
  define g0 where "g0 = \<lparr>t_r = min (p_r a) (p_r b), t_c = min (p_c a) (p_c b),
      t_rs = max (p_r a) (p_r b) - min (p_r a) (p_r b) + 1,
      t_cs = max (p_c a) (p_c b) - min (p_c a) (p_c b) + 1\<rparr>"
  have sel: "0 \<le> p_r a" "p_r a < ?rows" "0 \<le> p_c a" "p_c a < ?cols"
      "0 \<le> p_r b" "p_r b < ?rows" "0 \<le> p_c b" "p_c b < ?cols" "p_r a \<noteq> p_r b \<or> p_c a \<noteq> p_c b"
    using assms(2) by (auto simp: selected_def)
  then have g0: "in_bounds ?rows ?cols g0" "spans g0 (p_r a) (p_c a)" "spans g0 (p_r b) (p_c b)"
    by (auto simp: g0_def in_bounds_def spans_def)
  have ms: "\<forall>m\<in>set ?ms. in_bounds ?rows ?cols m" "apart toverlaps ?ms"
    and sh: "shape ?rows ?cols (td_cells t)"
    using assms(1) by (auto simp: valid_table_def validMerges_iff)
  obtain g where g: "grow ?ms g0 = Some g" "in_bounds ?rows ?cols g"
      "\<forall>r c. spans g0 r c \<longrightarrow> spans g r c" "\<forall>m\<in>set ?ms. toverlaps g m \<longrightarrow> hull g m = g"
    using grow_correct[OF ms(1) g0(1)] by blast
  obtain cells texts where f: "fold merge_step (cells_of_rect g) (td_cells t, []) = (cells, texts)"
    by fastforce
  have range: "\<forall>(r, c)\<in>set (cells_of_rect g). 0 \<le> r \<and> r < ?rows \<and> 0 \<le> c \<and> c < ?cols"
    using g(2) by (auto simp: cells_of_rect_set spans_def in_bounds_def)
  note folded = fold_merge_step[OF sh distinct_cells_of_rect range f]
  have anchor: "0 \<le> t_r g" "t_r g < ?rows" "0 \<le> t_c g" "t_c g < ?cols"
    using g(2) by (auto simp: in_bounds_def)
  let ?new = "set_cell (t_r g) (t_c g) (js_join '' '' texts) cells"
  let ?t = "t\<lparr>td_cells := ?new, td_merges := Some (filter (\<lambda>m. \<not> toverlaps g m) ?ms @ [g])\<rparr>"
  have "row_opt cells (t_r g) = Some (cells ! nat (t_r g))"
    using folded anchor by (simp add: shape_row_opt[where rows = ?rows and cols = ?cols])
  moreover have "\<not> (min (p_r a) (p_r b) < 0 \<or> min (p_c a) (p_c b) < 0 \<or> max (p_r a) (p_r b) \<ge> ?rows \<or>
      max (p_c a) (p_c b) \<ge> ?cols \<or>
      min (p_r a) (p_r b) = max (p_r a) (p_r b) \<and> min (p_c a) (p_c b) = max (p_c a) (p_c b))"
    using sel by (auto simp: min_def max_def)
  ultimately have "mergeCells t a b = Some ?t"
    unfolding mergeCells_def Let_def using g(1)[unfolded g0_def] f
    by (simp only: if_False option.case prod.case)
  moreover have "apart toverlaps (filter (\<lambda>m. \<not> toverlaps g m) ?ms @ [g])"
    by (rule st.absorb_apart) (use ms g(2) in_bounds_sized in blast)+
  then have "valid_table ?t"
    using shape_set_cell[of ?rows ?cols cells, OF _ anchor] folded ms g(2)
    by (auto simp: valid_table_def validMerges_iff)
  moreover have "merge_spec t g ?t"
    using folded g cell_text_set_cell[of ?rows ?cols cells, OF _ anchor]
    by (auto simp: merge_spec_def cells_of_rect_set)
  ultimately show ?thesis using g g0 by blast
qed

lemma remove_first_subseq: "subseq (remove_first P xs) xs"
proof (cases "dropWhile (\<lambda>x. \<not> P x) xs")
  case Nil
  then show ?thesis
    by (metis append_Nil2 remove_first_def subseq_order.order_refl takeWhile_dropWhile_id tl_Nil)
next
  case (Cons y ys)
  then have "xs = takeWhile (\<lambda>x. \<not> P x) xs @ y # ys"
    by (metis takeWhile_dropWhile_id)
  then show ?thesis
    by (metis Cons list.sel(3) list_emb_append_mono remove_first_def subseq_Cons' subseq_order.order_refl)
qed

lemma apart_subseq:
  assumes "subseq ms' ms" "apart ov ms"
  shows "apart ov ms'"
  using assms(1) assms(2)
proof (induction rule: list_emb.induct)
  case (list_emb_Cons2 x y xs ys)
  then show ?case
    using list_emb_set[OF list_emb_Cons2.hyps(2)] by (auto simp: apart_Cons)
qed (auto simp: apart_Cons)

lemma unmergeAt_valid: "valid_table t \<Longrightarrow> valid_table (unmergeAt t r c)"
proof -
  assume v: "valid_table t"
  let ?ms = "remove_first (\<lambda>m. spans m r c) (merges_of t)"
  have "set ?ms \<subseteq> set (merges_of t)" "apart toverlaps ?ms"
    using remove_first_subseq[of "\<lambda>m. spans m r c" "merges_of t"] v
    by (auto simp: valid_table_def validMerges_iff intro: apart_subseq dest: list_emb_set)
  with v show ?thesis
    by (auto simp: unmergeAt_def valid_table_def validMerges_iff split: option.splits)
qed

section \<open>Rows and columns\<close>

lemmas line_defs = shift_row_def drop_row_def shift_col_def drop_col_def

lemma shift_row_apart: "toverlaps (shift_row i a) (shift_row i b) \<Longrightarrow> sized a \<Longrightarrow> sized b \<Longrightarrow> toverlaps a b"
  by (auto simp: toverlaps_def shift_row_def sized_def split: if_splits)

lemma shift_col_apart: "toverlaps (shift_col i a) (shift_col i b) \<Longrightarrow> sized a \<Longrightarrow> sized b \<Longrightarrow> toverlaps a b"
  by (auto simp: toverlaps_def shift_col_def sized_def split: if_splits)

lemma drop_row_apart:
  "drop_row i a = Some a' \<Longrightarrow> drop_row i b = Some b' \<Longrightarrow> toverlaps a' b' \<Longrightarrow> toverlaps a b"
  by (auto simp: toverlaps_def drop_row_def split: if_splits)

lemma drop_col_apart:
  "drop_col i a = Some a' \<Longrightarrow> drop_col i b = Some b' \<Longrightarrow> toverlaps a' b' \<Longrightarrow> toverlaps a b"
  by (auto simp: toverlaps_def drop_col_def split: if_splits)

lemma shift_row_bounds: "in_bounds rows cols m \<Longrightarrow> i \<le> rows \<Longrightarrow> in_bounds (rows + 1) cols (shift_row i m)"
  by (auto simp: in_bounds_def shift_row_def)

lemma shift_col_bounds: "in_bounds rows cols m \<Longrightarrow> i \<le> cols \<Longrightarrow> in_bounds rows (cols + 1) (shift_col i m)"
  by (auto simp: in_bounds_def shift_col_def)

lemma drop_row_bounds:
  "in_bounds rows cols m \<Longrightarrow> 0 \<le> i \<Longrightarrow> i < rows \<Longrightarrow> drop_row i m = Some m' \<Longrightarrow> in_bounds (rows - 1) cols m'"
  by (auto simp: in_bounds_def drop_row_def split: if_splits)

lemma drop_col_bounds:
  "in_bounds rows cols m \<Longrightarrow> 0 \<le> i \<Longrightarrow> i < cols \<Longrightarrow> drop_col i m = Some m' \<Longrightarrow> in_bounds rows (cols - 1) m'"
  by (auto simp: in_bounds_def drop_col_def split: if_splits)

text \<open>Moving every merge of a valid list, and dropping some, keeps the list valid.\<close>

definition valid_list :: "int \<Rightarrow> int \<Rightarrow> table_merge list \<Rightarrow> bool" where
  "valid_list rows cols ms \<longleftrightarrow> (\<forall>m\<in>set ms. in_bounds rows cols m) \<and> apart toverlaps ms"

lemma validMerges_list: "validMerges t \<longleftrightarrow> valid_list (td_rows t) (td_cols t) (merges_of t)"
  by (simp add: validMerges_iff valid_list_def)

lemma valid_list_clip: "valid_list rows cols ms \<Longrightarrow> valid_list rows cols (clip ms)"
  by (auto simp: valid_list_def clip_def apart_filter)

lemma valid_list_map:
  assumes "valid_list rows cols ms" "\<And>m. in_bounds rows cols m \<Longrightarrow> in_bounds rows' cols' (f m)"
    "\<And>a b. toverlaps (f a) (f b) \<Longrightarrow> sized a \<Longrightarrow> sized b \<Longrightarrow> toverlaps a b"
  shows "valid_list rows' cols' (map f ms)"
  using assms(1)
  by (auto simp: valid_list_def intro!: apart_map[where ov = toverlaps] assms(2)
      intro: assms(3) in_bounds_sized)

lemma valid_list_map_filter:
  assumes "valid_list rows cols ms"
    "\<And>m m'. in_bounds rows cols m \<Longrightarrow> f m = Some m' \<Longrightarrow> in_bounds rows' cols' m'"
    "\<And>a b a' b'. f a = Some a' \<Longrightarrow> f b = Some b' \<Longrightarrow> toverlaps a' b' \<Longrightarrow> toverlaps a b"
  shows "valid_list rows' cols' (List.map_filter f ms)"
proof -
  have "apart toverlaps (List.map_filter f ms)"
    by (rule apart_map_filter) (use assms in \<open>auto simp: valid_list_def\<close>)
  moreover have "in_bounds rows' cols' m'" if "m' \<in> set (List.map_filter f ms)" for m'
    using that assms(1,2) by (auto simp: List.map_filter_def valid_list_def)
  ultimately show ?thesis by (simp add: valid_list_def)
qed

lemma splice_remove_set: "set (splice_remove i xs) \<subseteq> set xs"
  by (auto simp: splice_remove_def dest: in_set_takeD in_set_dropD)

lemma shape_insert_row:
  assumes "shape rows cols cells" "0 \<le> i" "i \<le> rows"
  shows "shape (rows + 1) cols (splice_insert (nat i) [replicate (nat cols) []] cells)"
  using assms by (auto simp: shape_def)

lemma shape_delete_row:
  assumes "shape rows cols cells" "1 < rows" "0 \<le> i" "i < rows"
  shows "shape (rows - 1) cols (splice_remove (nat i) cells)"
  using assms splice_remove_set[of "nat i" cells] by (auto simp: shape_def)

lemma shape_insert_col:
  assumes "shape rows cols cells"
  shows "shape rows (cols + 1) (map (splice_insert (nat i) [[]]) cells)"
  using assms by (auto simp: shape_def)

lemma shape_delete_col:
  assumes "shape rows cols cells" "1 < cols" "0 \<le> i" "i < cols"
  shows "shape rows (cols - 1) (map (splice_remove (nat i)) cells)"
proof -
  have "int (length (splice_remove (nat i) row)) = cols - 1" if "row \<in> set cells" for row
  proof -
    have "int (length row) = cols" using that assms(1) by (simp add: shape_def)
    moreover from this have "nat i < length row" using assms(3,4) by linarith
    ultimately show ?thesis using assms(2) by simp
  qed
  then show ?thesis
    using assms by (auto simp: shape_def)
qed

lemma insertRow_valid: "valid_table t \<Longrightarrow> valid_table (insertRow t at)"
  by (auto simp: insertRow_def Let_def valid_table_def validMerges_list shape_insert_row
      intro!: valid_list_clip valid_list_map[OF _ shift_row_bounds shift_row_apart] shape_insert_row)
     (auto simp: shape_def)

lemma insertCol_valid: "valid_table t \<Longrightarrow> valid_table (insertCol t at)"
  by (auto simp: insertCol_def Let_def valid_table_def validMerges_list
      intro!: valid_list_clip valid_list_map[OF _ shift_col_bounds shift_col_apart] shape_insert_col)
     (auto simp: shape_def)

lemma deleteRow_valid: "valid_table t \<Longrightarrow> valid_table (deleteRow t at)"
  by (auto simp: deleteRow_def valid_table_def validMerges_list
      intro!: valid_list_clip valid_list_map_filter[OF _ drop_row_bounds[where i = at] drop_row_apart[where i = at]]
        shape_delete_row)

lemma deleteCol_valid: "valid_table t \<Longrightarrow> valid_table (deleteCol t at)"
  by (auto simp: deleteCol_def valid_table_def validMerges_list
      intro!: valid_list_clip valid_list_map_filter[OF _ drop_col_bounds[where i = at] drop_col_apart[where i = at]]
        shape_delete_col)

lemma tableFromTsv_valid: "tableFromTsv text = Some t \<Longrightarrow> valid_table t"
  by (auto simp: tableFromTsv_def Let_def valid_table_def shape_def validMerges_def merges_of_def
      Suc_le_eq split: if_splits)

lemmas table_ops_valid = unmergeAt_valid insertRow_valid insertCol_valid deleteRow_valid deleteCol_valid

section \<open>Editing sessions\<close>

text \<open>A session applies the operations of the module one after the other; \<^term>\<open>None\<close> is a
  \<^verbatim>\<open>TypeError\<close> or a merge that does not return.\<close>

datatype table_op =
    OpMerge cell_pos cell_pos | OpUnmerge int int
  | OpInsertRow int | OpDeleteRow int | OpInsertCol int | OpDeleteCol int

fun apply_op :: "table_data \<Rightarrow> table_op \<Rightarrow> table_data option" where
  "apply_op t (OpMerge a b) = mergeCells t a b"
| "apply_op t (OpUnmerge r c) = Some (unmergeAt t r c)"
| "apply_op t (OpInsertRow i) = Some (insertRow t i)"
| "apply_op t (OpDeleteRow i) = Some (deleteRow t i)"
| "apply_op t (OpInsertCol i) = Some (insertCol t i)"
| "apply_op t (OpDeleteCol i) = Some (deleteCol t i)"

fun run_ops :: "table_data \<Rightarrow> table_op list \<Rightarrow> table_data option" where
  "run_ops t [] = Some t"
| "run_ops t (x # xs) = (case apply_op t x of None \<Rightarrow> None | Some t' \<Rightarrow> run_ops t' xs)"

lemma mergeCells_valid:
  assumes "valid_table t"
  shows "\<exists>t'. mergeCells t a b = Some t' \<and> valid_table t'"
proof (cases "selected t a b")
  case True
  with assms show ?thesis using mergeCells_correct by blast
next
  case False
  then have "mergeCells t a b = Some t"
    by (auto simp: selected_def mergeCells_def Let_def min_def max_def)
  with assms show ?thesis by simp
qed

lemma apply_op_valid: "valid_table t \<Longrightarrow> \<exists>t'. apply_op t x = Some t' \<and> valid_table t'"
  by (cases x) (auto simp: table_ops_valid mergeCells_valid)

text \<open>Any sequence of merges, splits, insertions and deletions on a valid table returns, never
  raises, and leaves a valid table: a matrix of its declared size whose merges are inside it and
  pairwise disjoint.\<close>

theorem run_ops_valid:
  assumes "valid_table t"
  shows "\<exists>t'. run_ops t ops = Some t' \<and> valid_table t'"
  using assms
proof (induction ops arbitrary: t)
  case (Cons x xs)
  then obtain t' where "apply_op t x = Some t'" "valid_table t'"
    using apply_op_valid by blast
  with Cons.IH show ?case by simp
qed simp

text \<open>Merging a selection of at least two cells inside a valid table yields the rectangle that
  contains the selection and cuts no merge; its anchor holds the non-empty texts of the rectangle in
  reading order, the other cells of the rectangle are empty, every other cell is unchanged.\<close>

theorem mergeCells_spec:
  assumes "valid_table t" "selected t a b"
  shows "\<exists>g t'. mergeCells t a b = Some t' \<and> merge_spec t g t' \<and>
    spans g (p_r a) (p_c a) \<and> spans g (p_r b) (p_c b)"
  using mergeCells_correct[OF assms] by blast

text \<open>Inserting a line and deleting it again gives back the cells, the size and the merges,
  for a table whose merges span several cells.\<close>

theorem deleteRow_insertRow:
  assumes "valid_table t" "clip (merges_of t) = merges_of t" "0 \<le> i" "i \<le> td_rows t"
  shows "td_cells (deleteRow (insertRow t i) i) = td_cells t \<and>
    td_rows (deleteRow (insertRow t i) i) = td_rows t \<and>
    merges_of (deleteRow (insertRow t i) i) = merges_of t"
proof -
  have several: "t_rs m > 1 \<or> t_cs m > 1" if "m \<in> set (merges_of t)" for m
    using that assms(2) unfolding clip_def by (simp add: filter_id_conv)
  then have "clip (map (shift_row i) (merges_of t)) = map (shift_row i) (merges_of t)"
    by (fastforce simp: clip_def filter_id_conv shift_row_def)
  moreover have "List.map_filter (drop_row i) (map (shift_row i) (merges_of t)) = merges_of t"
  proof -
    have "drop_row i (shift_row i m) = Some m" if "m \<in> set (merges_of t)" for m
      using that assms(1)
      by (auto simp: valid_table_def validMerges_iff in_bounds_def drop_row_def shift_row_def)
    then show ?thesis
      by (simp add: List.map_filter_def comp_def cong: map_cong)
  qed
  ultimately show ?thesis
    using assms by (auto simp: deleteRow_def insertRow_def Let_def valid_table_def shape_def
        splice_remove_insert)
qed

definition sample :: table_data where
  "sample = \<lparr>td_rows = 2, td_cols = 3, td_cells = [[''a'', ''b'', ''c''], [''d'', '' '', ''f'']],
     td_merges = Some [\<lparr>t_r = 0, t_c = 1, t_rs = 1, t_cs = 2\<rparr>], td_style = None,
     td_headerRow = None, td_firstCol = None\<rparr>"

lemma sample_valid: "valid_table sample"
  by (simp add: sample_def valid_table_def shape_def validMerges_def merges_of_def in_bounds_def)

theorem run_ops_valid_witness:
  "\<exists>t'. run_ops sample [OpMerge \<lparr>p_r = 1, p_c = 1\<rparr> \<lparr>p_r = 0, p_c = 0\<rparr>, OpDeleteRow 0] = Some t' \<and> valid_table t'"
  by (rule run_ops_valid) (rule sample_valid)

theorem mergeCells_spec_witness:
  "\<exists>g t'. mergeCells sample \<lparr>p_r = 1, p_c = 1\<rparr> \<lparr>p_r = 0, p_c = 0\<rparr> = Some t' \<and> merge_spec sample g t' \<and>
     spans g 1 1 \<and> spans g 0 0"
  using mergeCells_spec [OF sample_valid, of "\<lparr>p_r = 1, p_c = 1\<rparr>" "\<lparr>p_r = 0, p_c = 0\<rparr>"]
  by (simp add: selected_def sample_def)

theorem deleteRow_insertRow_witness:
  "td_cells (deleteRow (insertRow sample 1) 1) = [[''a'', ''b'', ''c''], [''d'', '' '', ''f'']]"
  using deleteRow_insertRow [OF sample_valid, of 1]
  by (simp add: sample_def clip_def merges_of_def)

end
