(* ===== verification/Sheet_Virtual.thy ===== *)
theory Sheet_Virtual
  imports Sheet_Merges
begin

text \<open>
  Row virtualisation of the spreadsheet, \<^verbatim>\<open>web-studio/src/sheet/virtual.ts\<close>: cumulated row offsets,
  the binary search for the row at a position, the window of rendered rows, its extension around
  vertical merges, the spacers that replace the other rows, and scrolling. Heights and positions
  are integers (pixels).
\<close>

section \<open>Offsets\<close>

text \<open>\<open>offs_from acc r n\<close> lists the offsets of the rows \<open>r, \<dots>, r + n\<close>, the loop of
  \<^verbatim>\<open>rowOffsets\<close> started at row \<open>r\<close>.\<close>

fun offs_from :: "(nat \<Rightarrow> int) \<Rightarrow> (nat \<Rightarrow> bool) \<Rightarrow> int \<Rightarrow> nat \<Rightarrow> nat \<Rightarrow> int list" where
  "offs_from heightOf hidden acc r 0 = [acc]"
| "offs_from heightOf hidden acc r (Suc n) =
     acc # offs_from heightOf hidden (if \<not> hidden r then acc + heightOf r else acc) (Suc r) n"

definition rowOffsets :: "nat \<Rightarrow> (nat \<Rightarrow> int) \<Rightarrow> (nat \<Rightarrow> bool) option \<Rightarrow> int list" where
  "rowOffsets rows heightOf hidden =
     offs_from heightOf (case hidden of None \<Rightarrow> (\<lambda>_. False) | Some h \<Rightarrow> h) 0 0 rows"

section \<open>Search\<close>

function search :: "int list \<Rightarrow> int \<Rightarrow> nat \<Rightarrow> nat \<Rightarrow> nat" where
  "search offs y lo hi =
     (if lo < hi
      then let mid = (lo + hi) div 2
           in if offs ! (mid + 1) > y then search offs y lo mid else search offs y (mid + 1) hi
      else lo)"
  by pat_completeness auto
termination
  by (relation "measure (\<lambda>(offs, y, lo, hi). hi - lo)") auto

declare search.simps [simp del]

definition rowAt :: "int list \<Rightarrow> int \<Rightarrow> nat" where
  "rowAt offs y = (let rows = length offs - 1 in if rows = 0 then 0 else search offs y 0 (rows - 1))"

section \<open>Windows\<close>

text \<open>A window is the pair of its first row and the row after its last one.\<close>

definition windowFor :: "int list \<Rightarrow> int \<Rightarrow> int \<Rightarrow> int \<Rightarrow> nat \<times> nat" where
  "windowFor offs scrollTop viewportH overscanPx =
     (let rows = length offs - 1
      in if rows = 0 then (0, 0)
         else let top = max 0 (scrollTop - overscanPx);
                  bottom = scrollTop + viewportH + overscanPx;
                  start = rowAt offs top;
                  end0 = rowAt offs (min bottom (max 0 (offs ! rows - 1))) + 1
              in (start, min rows (max end0 (start + 1))))"

fun expand_pass :: "merge_rect list \<Rightarrow> (int \<times> int) \<times> bool \<Rightarrow> (int \<times> int) \<times> bool" where
  "expand_pass [] w = w"
| "expand_pass (m # ms) ((start, end), changed) =
     (if m_r1 m < start \<or> m_r0 m \<ge> end then expand_pass ms ((start, end), changed)
      else let (start', changed') = (if m_r0 m < start then (m_r0 m, True) else (start, changed));
               (end', changed'') = (if m_r1 m \<ge> end then (m_r1 m + 1, True) else (end, changed'))
           in expand_pass ms ((start', end'), changed''))"

definition expandForMerges :: "int \<times> int \<Rightarrow> merge_rect list option \<Rightarrow> (int \<times> int) option" where
  "expandForMerges w merges =
     (case merges of None \<Rightarrow> Some w | Some [] \<Rightarrow> Some w
      | Some ms \<Rightarrow> saturate (\<lambda>v. expand_pass ms (v, False)) w)"

text \<open>The pair (top, bottom) of spacer heights.\<close>

definition spacers :: "int list \<Rightarrow> nat \<times> nat \<Rightarrow> nat \<Rightarrow> int \<times> int" where
  "spacers offs w frozen =
     (let rows = length offs - 1;
          frozenRows = min frozen rows;
          startAfterFrozen = max (fst w) frozenRows
      in (max 0 (offs ! startAfterFrozen - offs ! frozenRows),
          max 0 (offs ! rows - offs ! min rows (max (snd w) frozenRows))))"

definition scrollTopToReveal :: "int list \<Rightarrow> int \<Rightarrow> int \<Rightarrow> int \<Rightarrow> int \<Rightarrow> int option" where
  "scrollTopToReveal offs r scrollTop viewportH stickyTop =
     (let rows = int (length offs) - 1
      in if r < 0 \<or> r \<ge> rows then None
         else let top = offs ! nat r; bottom = offs ! nat (r + 1)
              in if top - stickyTop < scrollTop then Some (max 0 (top - stickyTop))
                 else if bottom > scrollTop + viewportH then Some (max 0 (bottom - viewportH))
                 else None)"

definition pageJump :: "int list \<Rightarrow> nat \<Rightarrow> int \<Rightarrow> int \<Rightarrow> int" where
  "pageJump offs r viewportH dir =
     (let rows = length offs - 1;
          y = min (max 0 (offs ! r + dir * max 40 (viewportH - 56))) (max 0 (offs ! rows - 1))
      in min (int rows - 1) (max 0 (int (rowAt offs y))))"

section \<open>Offsets are sorted\<close>

lemma length_offs_from [simp]: "length (offs_from h hid acc r n) = Suc n"
  by (induction n arbitrary: acc r) auto

lemma offs_from_ge: "\<forall>r. 0 \<le> h r \<Longrightarrow> x \<in> set (offs_from h hid acc r n) \<Longrightarrow> acc \<le> x"
proof (induction n arbitrary: acc r)
  case (Suc n)
  have "acc \<le> (if \<not> hid r then acc + h r else acc)" using Suc.prems(1) by simp
  moreover have "x \<in> set (offs_from h hid (if \<not> hid r then acc + h r else acc) (Suc r) n) \<or> x = acc"
    using Suc.prems(2) by auto
  ultimately show ?case
    using Suc.IH[OF Suc.prems(1), of "if \<not> hid r then acc + h r else acc" "Suc r"] by force
qed simp

lemma sorted_offs_from: "\<forall>r. 0 \<le> h r \<Longrightarrow> sorted (offs_from h hid acc r n)"
proof (induction n arbitrary: acc r)
  case (Suc n)
  have "acc \<le> x" if "x \<in> set (offs_from h hid (if \<not> hid r then acc + h r else acc) (Suc r) n)" for x
    using offs_from_ge[OF Suc.prems that] Suc.prems[rule_format, of r] by (auto split: if_splits)
  then show ?case using Suc by auto
qed simp

lemma rowOffsets_sorted: "\<forall>r. 0 \<le> h r \<Longrightarrow> sorted (rowOffsets n h hid) \<and> length (rowOffsets n h hid) = Suc n"
  by (simp add: rowOffsets_def sorted_offs_from)

section \<open>The search finds the row\<close>

definition row_found :: "int list \<Rightarrow> int \<Rightarrow> nat \<Rightarrow> bool" where
  "row_found offs y q \<longleftrightarrow> (\<forall>r<q. offs ! (r + 1) \<le> y) \<and> (q + 2 < length offs \<longrightarrow> offs ! (q + 1) > y)"

lemma search_correct:
  assumes "sorted offs" "hi + 1 < length offs" "lo \<le> hi"
    "\<forall>r<lo. offs ! (r + 1) \<le> y" "hi + 2 < length offs \<longrightarrow> offs ! (hi + 1) > y"
  shows "lo \<le> search offs y lo hi \<and> search offs y lo hi \<le> hi \<and> row_found offs y (search offs y lo hi)"
  using assms
proof (induction offs y lo hi rule: search.induct)
  case (1 offs y lo hi)
  show ?case
  proof (cases "lo < hi")
    case True
    define mid where "mid = (lo + hi) div 2"
    have mid: "lo \<le> mid" "mid < hi" using True by (auto simp: mid_def)
    show ?thesis
    proof (cases "offs ! (mid + 1) > y")
      case left: True
      have eq: "search offs y lo hi = search offs y lo mid"
        using True left by (subst search.simps) (simp add: mid_def Let_def)
      have "lo \<le> search offs y lo mid \<and> search offs y lo mid \<le> mid \<and> row_found offs y (search offs y lo mid)"
        using "1.prems" mid left by (intro "1.IH"(1)[OF True mid_def left]) simp_all
      with eq mid show ?thesis by simp
    next
      case right: False
      have eq: "search offs y lo hi = search offs y (mid + 1) hi"
        using True right by (subst search.simps) (simp add: mid_def Let_def)
      have "offs ! (r + 1) \<le> y" if "r < mid + 1" for r
      proof -
        have "offs ! (r + 1) \<le> offs ! (mid + 1)"
          using that mid "1.prems"(2) by (intro sorted_nth_mono[OF "1.prems"(1)]) simp_all
        with right show ?thesis by simp
      qed
      then have "mid + 1 \<le> search offs y (mid + 1) hi \<and> search offs y (mid + 1) hi \<le> hi \<and>
          row_found offs y (search offs y (mid + 1) hi)"
        using "1.prems" mid by (intro "1.IH"(2)[OF True mid_def right]) simp_all
      with eq mid show ?thesis by simp
    qed
  next
    case False
    then have "search offs y lo hi = lo" by (subst search.simps) simp
    with False "1.prems" show ?thesis by (simp add: row_found_def)
  qed
qed

lemma rowAt_least:
  assumes "sorted offs" "2 \<le> length offs"
  shows "rowAt offs y < length offs - 1 \<and> (\<forall>r<(rowAt offs y). offs ! (r + 1) \<le> y) \<and>
    (offs ! (rowAt offs y + 1) > y \<or> rowAt offs y = length offs - 2)"
proof -
  have eq: "rowAt offs y = search offs y 0 (length offs - 2)"
    using assms(2) by (simp add: rowAt_def Let_def numeral_2_eq_2)
  have "search offs y 0 (length offs - 2) \<le> length offs - 2 \<and> row_found offs y (search offs y 0 (length offs - 2))"
  proof -
    have "length offs - 2 + 1 < length offs" "\<not> length offs - 2 + 2 < length offs" using assms(2) by arith+
    then show ?thesis
      using search_correct[OF assms(1), of "length offs - 2" 0 y] by blast
  qed
  with assms(2) eq show ?thesis
    unfolding row_found_def by auto
qed

text \<open>For any sorted offsets of at least one row, \<^verbatim>\<open>rowAt\<close> is the smallest row whose bottom is
  strictly below the position, and the last row when there is none.\<close>

theorem rowAt_smallest:
  assumes "sorted offs" "2 \<le> length offs"
  shows "rowAt offs y < length offs - 1 \<and> (\<forall>r<(rowAt offs y). offs ! (r + 1) \<le> y) \<and>
    (offs ! (rowAt offs y + 1) > y \<or> rowAt offs y = length offs - 2)"
  by (rule rowAt_least[OF assms])

theorem rowAt_smallest_witness: "rowAt [0, 20, 20, 45] 20 = 2"
proof -
  let ?r = "rowAt [0, 20, 20, 45] 20"
  have "?r < 3 \<and> (\<forall>r<?r. [0, 20, 20, 45 :: int] ! (r + 1) \<le> 20) \<and> ([0, 20, 20, 45] ! (?r + 1) > (20 :: int) \<or> ?r = 2)"
    using rowAt_smallest [of "[0, 20, 20, 45]" 20] by (simp add: numeral_eq_Suc)
  moreover from this have "?r = 0 \<or> ?r = 1 \<or> ?r = 2" by auto
  ultimately show ?thesis by auto
qed


section \<open>The window covers what is visible\<close>

text \<open>Every row of positive height that meets the visible area is in the rendered window,
  whatever the (non-negative) overscan, and the window lies within the sheet.\<close>

theorem windowFor_covers:
  assumes "sorted offs" "2 \<le> length offs" "offs ! 0 = 0"
    and "0 \<le> scrollTop" "0 \<le> overscanPx" "windowFor offs scrollTop viewportH overscanPx = (start, end)"
  shows "end \<le> length offs - 1 \<and>
    (\<forall>r. r + 1 < length offs \<and> offs ! r < offs ! (r + 1) \<and> offs ! r < scrollTop + viewportH \<and>
      scrollTop < offs ! (r + 1) \<longrightarrow> start \<le> r \<and> r < end)"
proof -
  define n where "n = length offs - 1"
  have n: "0 < n" "length offs = n + 1" using assms(2) by (auto simp: n_def)
  define b where "b = min (scrollTop + viewportH + overscanPx) (max 0 (offs ! n - 1))"
  have w: "start = rowAt offs (max 0 (scrollTop - overscanPx))" "end = min n (max (rowAt offs b + 1) (start + 1))"
    using assms(6) n by (auto simp: windowFor_def Let_def b_def)
  have low: "start \<le> r" if "scrollTop < offs ! (r + 1)" for r
  proof (rule ccontr)
    assume "\<not> start \<le> r"
    then have "offs ! (r + 1) \<le> max 0 (scrollTop - overscanPx)"
      using rowAt_least[OF assms(1,2)] w by auto
    with that assms(4,5) show False by linarith
  qed
  have high: "r < end" if "r + 1 < length offs" "offs ! r < offs ! (r + 1)" "offs ! r < scrollTop + viewportH" for r
  proof -
    have "r \<le> rowAt offs b"
    proof (rule ccontr)
      assume "\<not> r \<le> rowAt offs b"
      then have q: "rowAt offs b < r" by simp
      then have "b < offs ! (rowAt offs b + 1)"
        using rowAt_least[OF assms(1,2), of b] that(1) by auto
      moreover have "offs ! (rowAt offs b + 1) \<le> offs ! r" "offs ! (r + 1) \<le> offs ! n"
        using q that(1) n by (auto intro!: sorted_nth_mono[OF assms(1)])
      ultimately show False
        using that(2,3) assms(5) by (auto simp: b_def min_def max_def split: if_splits)
    qed
    then show ?thesis using w that(1) n by auto
  qed
  show ?thesis using low high w n by auto
qed

theorem windowFor_covers_witness:
  "\<exists>start end. windowFor [0, 20, 20, 45] 20 10 0 = (start, end) \<and> start \<le> 2 \<and> 2 < end \<and> end \<le> 3"
proof -
  obtain start "end" where w: "windowFor [0, 20, 20, 45] 20 10 0 = (start, end)"
    by (cases "windowFor [0, 20, 20, 45] 20 10 0") auto
  have "end \<le> 3 \<and> (\<forall>r. r + 1 < length [0, 20, 20, 45 :: int] \<and> [0, 20, 20, 45 :: int] ! r < [0, 20, 20, 45] ! (r + 1) \<and>
      [0, 20, 20, 45 :: int] ! r < 20 + 10 \<and> 20 < [0, 20, 20, 45 :: int] ! (r + 1) \<longrightarrow> start \<le> r \<and> r < end)"
    using windowFor_covers [of "[0, 20, 20, 45]" 20 0 10 start "end"] w by simp
  then have "end \<le> 3" "start \<le> 2 \<and> 2 < end" by (auto dest: spec[of _ 2])
  with w show ?thesis by auto
qed

section \<open>Merges are never cut by the window\<close>

definition cuts :: "int \<times> int \<Rightarrow> merge_rect \<Rightarrow> bool" where
  "cuts w m \<longleftrightarrow> m_r1 m \<ge> fst w \<and> m_r0 m < snd w \<and> (m_r0 m < fst w \<or> m_r1 m \<ge> snd w)"

definition inside :: "int \<times> int \<Rightarrow> int \<times> int \<Rightarrow> bool" where
  "inside v w \<longleftrightarrow> fst w \<le> fst v \<and> snd v \<le> snd w"

lemma expand_pass_grows:
  "expand_pass ms ((s, e), ch) = ((s', e'), ch') \<Longrightarrow> s' \<le> s \<and> e \<le> e' \<and> (ch \<longrightarrow> ch')"
  by (induction ms arbitrary: s e ch) (fastforce split: if_splits)+

lemma expand_pass_unchanged:
  "expand_pass ms ((s, e), ch) = (w, False) \<Longrightarrow> w = (s, e) \<and> \<not> ch \<and> (\<forall>m\<in>set ms. \<not> cuts (s, e) m)"
proof (induction ms arbitrary: s e ch)
  case (Cons m ms)
  then show ?case
    by (fastforce simp: cuts_def split: if_splits)
qed auto

lemma expand_pass_progress:
  "expand_pass ms ((s, e), False) = ((s', e'), True) \<Longrightarrow>
    \<exists>m\<in>set ms. m_r0 m < s \<and> s' \<le> m_r0 m \<or> m_r1 m \<ge> e \<and> e' > m_r1 m"
proof (induction ms arbitrary: s e)
  case (Cons m ms)
  consider "m_r1 m < s \<or> m_r0 m \<ge> e" | "\<not> (m_r1 m < s \<or> m_r0 m \<ge> e)" "m_r0 m < s \<or> m_r1 m \<ge> e"
    | "\<not> (m_r1 m < s \<or> m_r0 m \<ge> e)" "\<not> (m_r0 m < s \<or> m_r1 m \<ge> e)" by blast
  then show ?case
  proof cases
    case 2
    with Cons.prems show ?thesis
      by (auto split: if_splits dest!: expand_pass_grows)
  qed (use Cons in auto)
qed simp

definition out_of :: "merge_rect list \<Rightarrow> int \<times> int \<Rightarrow> nat" where
  "out_of ms w = (\<Sum>m\<leftarrow>ms. nat (fst w - m_r0 m) + nat (m_r1 m + 1 - snd w))"

lemma out_of_less:
  assumes "inside (s, e) (s', e')" "m \<in> set ms" "m_r0 m < s \<and> s' \<le> m_r0 m \<or> m_r1 m \<ge> e \<and> e' > m_r1 m"
  shows "out_of ms (s', e') < out_of ms (s, e)"
proof -
  have le: "out_of xs (s', e') \<le> out_of xs (s, e)" for xs
    using assms(1) by (induction xs) (auto simp: out_of_def inside_def intro!: add_mono)
  obtain xs ys where ms: "ms = xs @ m # ys"
    using assms(2) by (meson split_list)
  have "out_of [m] (s', e') < out_of [m] (s, e)"
    using assms(1,3) by (auto simp: out_of_def inside_def)
  with le[of xs] le[of ys] show ?thesis
    by (simp add: ms out_of_def)
qed

interpretation window: saturating "\<lambda>v. expand_pass ms (v, False)" "out_of ms" for ms
proof
  fix w
  assume again: "snd (expand_pass ms (w, False))"
  obtain s e where w: "w = (s, e)" by (cases w)
  obtain s' e' where p: "expand_pass ms (w, False) = ((s', e'), True)"
    using again by (cases "expand_pass ms (w, False)") auto
  with expand_pass_grows[of ms s e False s' e' True] expand_pass_progress[of ms s e s' e']
  show "out_of ms (fst (expand_pass ms (w, False))) < out_of ms w"
    by (auto simp: w inside_def intro!: out_of_less)
qed

lemma expand_pass_inside:
  assumes "\<forall>m\<in>set ms. \<not> cuts v m" "inside (s, e) v"
  shows "inside (fst (expand_pass ms ((s, e), ch))) v"
  using assms
proof (induction ms arbitrary: s e ch)
  case (Cons m ms)
  then show ?case
    by (auto simp: cuts_def inside_def split: if_splits)
qed simp

lemma expandForMerges_saturate:
  "expandForMerges w (Some ms) = saturate (\<lambda>v. expand_pass ms (v, False)) w"
proof (cases ms)
  case Nil
  then show ?thesis
    by (subst saturate.simps) (simp add: expandForMerges_def)
qed (simp add: expandForMerges_def)

text \<open>Widening the window returns, for any merges, and its result is the least window around
  the given one that no merge straddles: no merge is cut at its edges, and every other such
  window contains it.\<close>

theorem expandForMerges_least:
  "\<exists>w'. expandForMerges w (Some ms) = Some w' \<and> inside w w' \<and> (\<forall>m\<in>set ms. \<not> cuts w' m) \<and>
    (\<forall>v. inside w v \<and> (\<forall>m\<in>set ms. \<not> cuts v m) \<longrightarrow> inside w' v)"
proof -
  obtain w' where r: "saturate (\<lambda>v. expand_pass ms (v, False)) w = Some w'"
    using window.returns by blast
  have "inside w w'"
  proof (rule window.keeps[OF r])
    fix v assume "inside w v"
    then show "inside w (fst (expand_pass ms (v, False)))"
      using expand_pass_grows[of ms "fst v" "snd v" False]
      by (cases "expand_pass ms (v, False)") (auto simp: inside_def)
  qed (simp add: inside_def)
  moreover have "\<forall>m\<in>set ms. \<not> cuts w' m"
    using window.last_pass[OF r] by (auto dest!: expand_pass_unchanged)
  moreover have "inside w' v" if "inside w v" "\<forall>m\<in>set ms. \<not> cuts v m" for v
    using window.keeps[OF r, of "\<lambda>u. inside u v"] that expand_pass_inside by fastforce
  ultimately show ?thesis
    using r by (auto simp: expandForMerges_saturate)
qed

theorem expandForMerges_least_witness:
  "expandForMerges (2, 4) (Some [\<lparr>m_c0 = 0, m_r0 = 3, m_c1 = 0, m_r1 = 5\<rparr>, \<lparr>m_c0 = 1, m_r0 = 5, m_c1 = 1, m_r1 = 7\<rparr>]) = Some (2, 8)"
proof -
  let ?ms = "[\<lparr>m_c0 = 0, m_r0 = 3, m_c1 = 0, m_r1 = 5\<rparr>, \<lparr>m_c0 = 1, m_r0 = 5, m_c1 = 1, m_r1 = 7\<rparr>]"
  obtain s e where r: "expandForMerges (2, 4) (Some ?ms) = Some (s, e)"
    and i: "inside (2, 4) (s, e)" "\<forall>m\<in>set ?ms. \<not> cuts (s, e) m"
    and l: "\<forall>v. inside (2, 4) v \<and> (\<forall>m\<in>set ?ms. \<not> cuts v m) \<longrightarrow> inside (s, e) v"
    using expandForMerges_least [of "(2, 4)" ?ms] by fastforce
  have "inside (s, e) (2, 8)"
    using l[rule_format, of "(2, 8)"] by (simp add: inside_def cuts_def)
  with i have "s = 2 \<and> e = 8"
    by (auto simp: inside_def cuts_def)
  with r show ?thesis by simp
qed

section \<open>Spacers and scrolling\<close>

text \<open>The scroll height is conserved: the frozen rows, the top spacer, the rendered rows after
  the frozen ones and the bottom spacer add up to the height of the sheet.\<close>

theorem spacers_conserve:
  assumes "sorted offs" "offs \<noteq> []" "start \<le> end" "end \<le> length offs - 1" "offs ! 0 = 0"
    and "spacers offs (start, end) frozen = (sa, sb)"
  shows "offs ! min frozen (length offs - 1) + sa + (offs ! max end (min frozen (length offs - 1)) -
      offs ! max start (min frozen (length offs - 1))) + sb = offs ! (length offs - 1) \<and> 0 \<le> sa \<and> 0 \<le> sb"
proof -
  define n where "n = length offs - 1"
  have n: "n < length offs" using assms(2) by (simp add: n_def)
  have "offs ! min frozen n \<le> offs ! max start (min frozen n)" "offs ! max end (min frozen n) \<le> offs ! n"
    using assms(3,4) n by (auto intro!: sorted_nth_mono[OF assms(1)] simp: n_def)
  moreover have "min n (max end (min frozen n)) = max end (min frozen n)"
    using assms(4) by (simp add: n_def)
  ultimately show ?thesis
    using assms(5,6) unfolding spacers_def Let_def n_def[symmetric] by simp
qed

theorem spacers_conserve_witness:
  "\<exists>sa sb. spacers [0, 10, 20, 30, 40] (2, 3) 1 = (sa, sb) \<and> 10 + sa + (30 - 20) + sb = 40"
proof -
  obtain sa sb where s: "spacers [0, 10, 20, 30, 40] (2, 3) 1 = (sa, sb)"
    by (cases "spacers [0, 10, 20, 30, 40] (2, 3) 1") auto
  then show ?thesis
    using spacers_conserve [of "[0, 10, 20, 30, 40]" 2 3 1 sa sb] by simp
qed

text \<open>Revealing a row: when the row fits below the sticky band, the row is entirely below the
  band and above the lower edge at the returned position, and \<open>None\<close> is returned only when it
  already is.\<close>

theorem scrollTopToReveal_reveals:
  assumes "sorted offs" "offs ! 0 = 0" "0 \<le> r" "r + 1 < int (length offs)" "0 \<le> stickyTop"
    and "offs ! nat (r + 1) - offs ! nat r + stickyTop \<le> viewportH"
  shows "case scrollTopToReveal offs r scrollTop viewportH stickyTop of
      None \<Rightarrow> scrollTop + stickyTop \<le> offs ! nat r \<and> offs ! nat (r + 1) \<le> scrollTop + viewportH
    | Some t \<Rightarrow> 0 \<le> t \<and> (t = 0 \<or> t + stickyTop \<le> offs ! nat r) \<and> offs ! nat (r + 1) \<le> t + viewportH"
proof -
  define t0 t1 where "t0 = offs ! nat r" and "t1 = offs ! nat (r + 1)"
  have "offs ! 0 \<le> t0" "t0 \<le> t1"
    unfolding t0_def t1_def using assms(3,4) by (auto intro!: sorted_nth_mono[OF assms(1)])
  with assms(2-6) show ?thesis
    by (simp add: scrollTopToReveal_def Let_def max_def flip: t0_def t1_def)
qed

theorem scrollTopToReveal_reveals_witness:
  "case scrollTopToReveal [0, 20, 40, 60, 80] 3 0 50 20 of None \<Rightarrow> False
    | Some t \<Rightarrow> (t = 0 \<or> t + 20 \<le> 60) \<and> 80 \<le> t + 50"
  using scrollTopToReveal_reveals [of "[0, 20, 40, 60, 80]" 3 20 50 0]
  by (auto split: option.splits)

end
