(* ===== verification/Totp.thy ===== *)
theory Totp
  imports Prelude
begin

text \<open>
  Time-based one-time passwords, \<^verbatim>\<open>server/src/lib/totp.ts\<close>: Base32 on JavaScript's 32-bit integers,
  the code of a counter, the search of the matching step and backup codes. The HMAC and the
  random bytes are parameters; a JavaScript exception is \<open>None\<close>.
\<close>

unbundle bit_operations_syntax

section \<open>Base32\<close>

definition B32_ALPHABET :: string where
  "B32_ALPHABET = ''ABCDEFGHIJKLMNOPQRSTUVWXYZ234567''"

definition b32_char :: "32 word \<Rightarrow> char" where
  "b32_char w = B32_ALPHABET ! unat w"

fun index_of :: "char \<Rightarrow> string \<Rightarrow> nat option" where
  "index_of c [] = None"
| "index_of c (x # xs) = (if x = c then Some 0 else map_option Suc (index_of c xs))"

fun drain5 :: "nat \<Rightarrow> 32 word \<Rightarrow> string \<times> nat" where
  "drain5 bits value =
     (if bits \<ge> 5
      then let (out, rest) = drain5 (bits - 5) value
           in (b32_char (drop_bit (bits - 5) value AND 31) # out, rest)
      else ([], bits))"

declare drain5.simps [simp del]

fun enc_loop :: "8 word list \<Rightarrow> nat \<Rightarrow> 32 word \<Rightarrow> string" where
  "enc_loop [] bits value = (if bits > 0 then [b32_char (push_bit (5 - bits) value AND 31)] else [])"
| "enc_loop (b # bs) bits value =
     (let value' = push_bit 8 value OR ucast b;
          (out, bits') = drain5 (bits + 8) value'
      in out @ enc_loop bs bits' value')"

definition base32Encode :: "8 word list \<Rightarrow> string" where
  "base32Encode bytes = enc_loop bytes 0 0"

fun dec_loop :: "string \<Rightarrow> nat \<Rightarrow> 32 word \<Rightarrow> 8 word list option" where
  "dec_loop [] bits value = Some []"
| "dec_loop (ch # cs) bits value =
     (case index_of ch B32_ALPHABET of
        None \<Rightarrow> None
      | Some idx \<Rightarrow>
          let value' = push_bit 5 value OR of_nat idx; bits' = bits + 5
          in if bits' \<ge> 8
             then map_option ((#) (ucast (drop_bit (bits' - 8) value' AND 255))) (dec_loop cs (bits' - 8) value')
             else dec_loop cs bits' value')"

definition strip_end :: "char \<Rightarrow> string \<Rightarrow> string" where
  "strip_end c s = rev (dropWhile (\<lambda>x. x = c) (rev s))"

definition no_space :: "string \<Rightarrow> string" where
  "no_space s = filter (\<lambda>c. \<not> js_space c) s"

definition base32Decode :: "string \<Rightarrow> 8 word list option" where
  "base32Decode s = dec_loop (no_space (strip_end (CHR ''='') (map to_upper s))) 0 0"

section \<open>Codes\<close>

definition DIGITS :: nat where "DIGITS = 6"
definition STEP_SECONDS :: int where "STEP_SECONDS = 30"

definition padStart :: "nat \<Rightarrow> char \<Rightarrow> string \<Rightarrow> string" where
  "padStart n c s = replicate (n - length s) c @ s"

text \<open>Reading a buffer past its end gives \<^verbatim>\<open>undefined\<close>, which the bit operators read as 0.\<close>

definition byte_at :: "8 word list \<Rightarrow> nat \<Rightarrow> 32 word" where
  "byte_at bs i = (if i < length bs then ucast (bs ! i) else 0)"

definition be32 :: "int \<Rightarrow> 8 word list" where
  "be32 x = map (\<lambda>k. word_of_int (x div 2 ^ k)) [24, 16, 8, 0]"

definition hotp :: "(8 word list \<Rightarrow> 8 word list \<Rightarrow> 8 word list) \<Rightarrow> 8 word list \<Rightarrow> int \<Rightarrow> string option" where
  "hotp hmac secret counter =
     (let high = counter div 2 ^ 32
      in if high < 0 \<or> high \<ge> 2 ^ 32 then None
         else let mac = hmac secret (be32 high @ be32 (counter mod 2 ^ 32));
                  offset = unat (byte_at mac (length mac - 1) AND 15);
                  bin = push_bit 24 (byte_at mac offset AND 0x7f) OR push_bit 16 (byte_at mac (offset + 1) AND 0xff)
                        OR push_bit 8 (byte_at mac (offset + 2) AND 0xff) OR (byte_at mac (offset + 3) AND 0xff)
              in Some (padStart DIGITS (CHR ''0'') (dec_digits (unat bin mod 10 ^ DIGITS))))"

definition six_digits :: "string \<Rightarrow> bool" where
  "six_digits s \<longleftrightarrow> length s = 6 \<and> list_all is_digit s"

fun scan_steps :: "(int \<Rightarrow> string option) \<Rightarrow> string \<Rightarrow> int list \<Rightarrow> int option \<Rightarrow> int option option" where
  "scan_steps code_at wanted [] found = Some found"
| "scan_steps code_at wanted (k # ks) found =
     (case code_at k of
        None \<Rightarrow> None
      | Some expected \<Rightarrow>
          scan_steps code_at wanted ks (if expected = wanted \<and> found = None then Some k else found))"

text \<open>The outer option is the exception (unreadable secret), the inner one the result.\<close>

definition matchTotpStep :: "(8 word list \<Rightarrow> 8 word list \<Rightarrow> 8 word list) \<Rightarrow> string \<Rightarrow> string \<Rightarrow> int \<Rightarrow> int \<Rightarrow>
    int option option" where
  "matchTotpStep hmac secretB32 typed window atMs =
     (let normalized = no_space typed
      in if \<not> six_digits normalized then Some None
         else case base32Decode secretB32 of
                None \<Rightarrow> None
              | Some secret \<Rightarrow>
                  let counter = atMs div (1000 * STEP_SECONDS)
                  in scan_steps (hotp hmac secret) normalized [counter - window .. counter + window] None)"

definition verifyTotp :: "(8 word list \<Rightarrow> 8 word list \<Rightarrow> 8 word list) \<Rightarrow> string \<Rightarrow> string \<Rightarrow> int \<Rightarrow> int \<Rightarrow>
    bool option" where
  "verifyTotp hmac secretB32 typed window atMs =
     map_option (\<lambda>r. r \<noteq> None) (matchTotpStep hmac secretB32 typed window atMs)"

definition totpNow :: "(8 word list \<Rightarrow> 8 word list \<Rightarrow> 8 word list) \<Rightarrow> string \<Rightarrow> int \<Rightarrow> string option" where
  "totpNow hmac secretB32 atMs =
     Option.bind (base32Decode secretB32) (\<lambda>secret. hotp hmac secret (atMs div (1000 * STEP_SECONDS)))"

section \<open>Backup codes\<close>

text \<open>The argument lists the 5 random bytes drawn for each code.\<close>

definition backup_code :: "8 word list \<Rightarrow> string" where
  "backup_code bytes = (let raw = map to_lower (take 8 (base32Encode bytes)) in take 4 raw @ ''-'' @ take 4 (drop 4 raw))"

definition generateBackupCodes :: "8 word list list \<Rightarrow> string list" where
  "generateBackupCodes draws = map backup_code draws"

section \<open>Bits of the two loops\<close>

definition low :: "nat \<Rightarrow> 'a::len word \<Rightarrow> bool list" where
  "low n v = map (bit v) (rev [0..<n])"

lemma length_low [simp]: "length (low n v) = n"
  by (simp add: low_def)

lemma nth_low [simp]: "i < n \<Longrightarrow> low n v ! i = bit v (n - Suc i)"
  by (simp add: low_def rev_nth)

lemma low_0 [simp]: "low 0 v = []"
  by (simp add: low_def)

lemma bit_31: "bit (31 :: int) k \<longleftrightarrow> k < 5"
proof -
  have "(31 :: int) = mask 5" by (simp add: mask_eq_exp_minus_1)
  then show ?thesis by (simp only: bit_mask_iff) auto
qed

lemma bit_255: "bit (255 :: int) k \<longleftrightarrow> k < 8"
proof -
  have "(255 :: int) = mask 8" by (simp add: mask_eq_exp_minus_1)
  then show ?thesis by (simp only: bit_mask_iff) auto
qed

lemma low_push8:
  assumes "n + 8 \<le> 32"
  shows "low (n + 8) (push_bit 8 v OR ucast (b :: 8 word) :: 32 word) = low n v @ low 8 b"
proof (rule nth_equalityI)
  fix i assume "i < length (low (n + 8) (push_bit 8 v OR ucast b :: 32 word))"
  then show "low (n + 8) (push_bit 8 v OR ucast b :: 32 word) ! i = (low n v @ low 8 b) ! i"
    using assms by (cases "i < n")
      (auto simp: nth_append bit_simps dest: bit_imp_le_length)
qed simp

lemma low_push5:
  assumes "n + 5 \<le> 32"
  shows "low (n + 5) (push_bit 5 v OR (w AND 31) :: 32 word) = low n v @ low 5 w"
proof (rule nth_equalityI)
  fix i assume "i < length (low (n + 5) (push_bit 5 v OR (w AND 31) :: 32 word))"
  then show "low (n + 5) (push_bit 5 v OR (w AND 31) :: 32 word) ! i = (low n v @ low 5 w) ! i"
    using assms by (cases "i < n") (auto simp: nth_append bit_simps bit_31 bit_255)
qed simp

lemma low_drop5:
  assumes "5 \<le> n" "n \<le> 32"
  shows "low n (v :: 32 word) = low 5 (drop_bit (n - 5) v AND 31) @ low (n - 5) v"
proof (rule nth_equalityI)
  fix i assume "i < length (low n v)"
  moreover have "n - Suc i = n - 5 + (4 - i)" if "i < 5" using assms that by simp
  moreover have "n - 5 - Suc (i - 5) = n - Suc i" if "\<not> i < 5" using assms that by simp
  ultimately show "low n v ! i = (low 5 (drop_bit (n - 5) v AND 31) @ low (n - 5) v) ! i"
    using assms by (cases "i < 5") (auto simp: nth_append bit_simps bit_31 bit_255)
qed (use assms in simp)

lemma low_drop8:
  assumes "8 \<le> n" "n \<le> 32"
  shows "low n (v :: 32 word) = low 8 (ucast (drop_bit (n - 8) v AND 255) :: 8 word) @ low (n - 8) v"
proof (rule nth_equalityI)
  fix i assume "i < length (low n v)"
  moreover have "n - Suc i = n - 8 + (7 - i)" if "i < 8" using assms that by simp
  moreover have "n - 8 - Suc (i - 8) = n - Suc i" if "\<not> i < 8" using assms that by simp
  ultimately show "low n v ! i = (low 8 (ucast (drop_bit (n - 8) v AND 255) :: 8 word) @ low (n - 8) v) ! i"
    using assms by (cases "i < 8") (auto simp: nth_append bit_simps bit_31 bit_255)
qed (use assms in simp)

lemma low_pad:
  assumes "0 < n" "n < 5"
  shows "low 5 (push_bit (5 - n) v AND 31 :: 32 word) = low n v @ replicate (5 - n) False"
proof (rule nth_equalityI)
  fix i assume "i < length (low 5 (push_bit (5 - n) v AND 31 :: 32 word))"
  moreover have "4 - i - (5 - n) = n - Suc i" if "i < n" using assms that by simp
  ultimately show "low 5 (push_bit (5 - n) v AND 31 :: 32 word) ! i = (low n v @ replicate (5 - n) False) ! i"
    using assms by (cases "i < n") (auto simp: nth_append bit_simps bit_31 bit_255)
qed (use assms in simp)

lemma low8_inj: "low 8 (a :: 8 word) = low 8 b \<Longrightarrow> a = b"
proof (rule bit_word_eqI)
  fix n assume eq: "low 8 a = low 8 b" and "n < LENGTH(8)"
  then have "low 8 a ! (7 - n) = low 8 b ! (7 - n)" "n < 8" by simp_all
  then show "bit a n = bit b n" by simp
qed


section \<open>Base32 round trip\<close>

definition five :: "32 word \<Rightarrow> bool" where
  "five w \<longleftrightarrow> w AND 31 = w"

lemma five_and: "five (w AND 31)"
  by (simp add: five_def)

lemma five_lt: "five w \<Longrightarrow> unat w < 32"
proof -
  assume "five w"
  then have "w = take_bit 5 w"
    by (simp add: five_def take_bit_eq_mask mask_eq_exp_minus_1)
  then have "unat w = take_bit 5 (unat w)"
    by (metis unsigned_take_bit_eq)
  then show ?thesis
    using take_bit_nat_less_exp[of 5 "unat w"] by simp
qed

lemma alphabet_check:
  "list_all (\<lambda>i. index_of (B32_ALPHABET ! i) B32_ALPHABET = Some i \<and> to_upper (B32_ALPHABET ! i) = B32_ALPHABET ! i \<and>
     \<not> js_space (B32_ALPHABET ! i) \<and> B32_ALPHABET ! i \<noteq> CHR ''='' \<and> to_upper (to_lower (B32_ALPHABET ! i)) = B32_ALPHABET ! i) [0..<32]"
  by code_simp

lemma alphabet_nth:
  assumes "i < 32"
  shows "index_of (B32_ALPHABET ! i) B32_ALPHABET = Some i" "to_upper (B32_ALPHABET ! i) = B32_ALPHABET ! i"
    "\<not> js_space (B32_ALPHABET ! i)" "B32_ALPHABET ! i \<noteq> CHR ''=''"
  using alphabet_check assms by (auto simp: list_all_iff)

lemma drain5_words:
  "n \<le> 32 \<Longrightarrow> \<exists>ws. fst (drain5 n v) = map b32_char ws \<and> list_all five ws \<and> snd (drain5 n v) < 5 \<and>
     low n v = concat (map (low 5) ws) @ low (snd (drain5 n v)) v"
proof (induction n v rule: drain5.induct)
  case (1 n v)
  show ?case
  proof (cases "5 \<le> n")
    case True
    obtain out r where d: "drain5 (n - 5) v = (out, r)" by (cases "drain5 (n - 5) v")
    obtain ws where ws: "out = map b32_char ws" "list_all five ws" "r < 5" "low (n - 5) v = concat (map (low 5) ws) @ low r v"
      using "1.IH"[OF True le_trans[OF diff_le_self "1.prems"]] d by auto
    have "drain5 n v = (b32_char (drop_bit (n - 5) v AND 31) # out, r)"
      using True d by (subst drain5.simps) simp
    with ws True low_drop5[OF True "1.prems", of v] five_and show ?thesis
      by (intro exI[of _ "(drop_bit (n - 5) v AND 31) # ws"]) simp
  next
    case False
    then show ?thesis
      by (intro exI[of _ "[]"]) (subst drain5.simps, subst (2) drain5.simps, subst (3) drain5.simps, simp)
  qed
qed

lemma enc_loop_words:
  "n < 5 \<Longrightarrow> \<exists>ws pad. enc_loop bs n v = map b32_char ws \<and> list_all five ws \<and> length pad < 5 \<and>
     concat (map (low 5) ws) = low n v @ concat (map (low 8) bs) @ pad"
proof (induction bs n v rule: enc_loop.induct)
  case (1 n v)
  show ?case
  proof (cases "n = 0")
    case False
    with 1 low_pad[of n v] five_and show ?thesis
      by (intro exI[of _ "[push_bit (5 - n) v AND 31]"] exI[of _ "replicate (5 - n) False"]) simp
  qed (auto intro: exI[of _ "[]"])
next
  case (2 b bs n v)
  define v' :: "32 word" where "v' = push_bit 8 v OR ucast b"
  obtain out r where d: "drain5 (n + 8) v' = (out, r)" by (cases "drain5 (n + 8) v'")
  obtain ws where ws: "out = map b32_char ws" "list_all five ws" "r < 5" "low (n + 8) v' = concat (map (low 5) ws) @ low r v'"
    using drain5_words[of "n + 8" v'] 2(2) d by auto
  obtain us pad where us: "enc_loop bs r v' = map b32_char us" "list_all five us" "length pad < 5"
    "concat (map (low 5) us) = low r v' @ concat (map (low 8) bs) @ pad"
    using 2(1)[OF v'_def d[symmetric] refl] ws(3) by blast
  have "low (n + 8) v' = low n v @ low 8 b"
    using low_push8[of n v b] 2(2) by (simp add: v'_def)
  with ws us have "concat (map (low 5) (ws @ us)) = low n v @ concat (map (low 8) (b # bs)) @ pad"
    by simp
  moreover have "enc_loop (b # bs) n v = map b32_char (ws @ us)"
    using d ws us by (simp add: v'_def Let_def)
  ultimately show ?case using ws us by (metis list_all_append)
qed

lemma dec_loop_words:
  "n < 8 \<Longrightarrow> list_all five ws \<Longrightarrow> \<exists>bs rest. dec_loop (map b32_char ws) n v = Some bs \<and> length rest < 8 \<and>
     low n v @ concat (map (low 5) ws) = concat (map (low 8) bs) @ rest"
proof (induction ws arbitrary: n v)
  case Nil
  then show ?case by (intro exI[of _ "[]"] exI[of _ "low n v"]) simp
next
  case (Cons w ws)
  define v' where "v' = push_bit 5 v OR w"
  have w: "w AND 31 = w" "unat w < 32" using Cons.prems five_lt by (auto simp: five_def)
  have low: "low (n + 5) v' = low n v @ low 5 w"
    using low_push5[of n v w] Cons.prems w by (simp add: v'_def)
  have idx: "index_of (b32_char w) B32_ALPHABET = Some (unat w)" "of_nat (unat w) = w"
    using alphabet_nth(1)[OF w(2)] by (simp_all add: b32_char_def)
  show ?case
  proof (cases "8 \<le> n + 5")
    case True
    have n3: "n + 5 - 8 < 8" using Cons.prems by simp
    define b :: "8 word" where "b = ucast (drop_bit (n + 5 - 8) v' AND 255)"
    obtain bs rest where ih: "dec_loop (map b32_char ws) (n + 5 - 8) v' = Some bs" "length rest < 8"
      "low (n + 5 - 8) v' @ concat (map (low 5) ws) = concat (map (low 8) bs) @ rest"
      using Cons.IH[OF n3, of v'] Cons.prems(2) by auto
    have "dec_loop (map b32_char (w # ws)) n v = Some (b # bs)"
      using True ih(1) by (simp add: idx Let_def b_def v'_def)
    moreover have "low (n + 5) v' = low 8 b @ low (n + 5 - 8) v'"
      unfolding b_def using True Cons.prems by (intro low_drop8) auto
    ultimately have eq: "low n v @ low 5 w = low 8 b @ low (n + 5 - 8) v'"
      and dec: "dec_loop (map b32_char (w # ws)) n v = Some (b # bs)"
      using low by (simp_all only:)
    have "low n v @ concat (map (low 5) (w # ws)) = (low n v @ low 5 w) @ concat (map (low 5) ws)"
      by simp
    also have "\<dots> = low 8 b @ low (n + 5 - 8) v' @ concat (map (low 5) ws)"
      by (simp only: eq append_assoc)
    also have "\<dots> = concat (map (low 8) (b # bs)) @ rest"
      by (simp only: ih(3)) simp
    finally show ?thesis
      using dec ih(2) by blast
  next
    case False
    then obtain bs rest where ih: "dec_loop (map b32_char ws) (n + 5) v' = Some bs" "length rest < 8"
      "low (n + 5) v' @ concat (map (low 5) ws) = concat (map (low 8) bs) @ rest"
      using Cons.IH[of "n + 5" v'] Cons.prems by auto
    have "dec_loop (map b32_char (w # ws)) n v = Some bs"
      using False ih(1) by (simp add: idx Let_def v'_def)
    with ih low show ?thesis
      by (intro exI[of _ bs] exI[of _ rest]) simp
  qed
qed

lemma chunks8_unique:
  "concat (map (low 8) xs) @ r = concat (map (low 8) ys) @ r' \<Longrightarrow> length r < 8 \<Longrightarrow> length r' < 8 \<Longrightarrow>
    xs = (ys :: 8 word list)"
proof (induction xs arbitrary: ys)
  case Nil
  then show ?case by (cases ys) (auto dest: arg_cong[of _ _ length])
next
  case (Cons x xs)
  show ?case
  proof (cases ys)
    case Nil
    with Cons.prems show ?thesis by (auto dest: arg_cong[of _ _ length])
  next
    case (Cons y ys')
    with Cons.prems have "low 8 x = low 8 y" "concat (map (low 8) xs) @ r = concat (map (low 8) ys') @ r'"
      by (simp_all add: append_eq_append_conv)
    with Cons Cons.IH Cons.prems show ?thesis by (auto dest: low8_inj)
  qed
qed

lemma b32_clean:
  assumes "list_all five ws"
  shows "no_space (strip_end (CHR ''='') (map to_upper (map b32_char ws))) = map b32_char ws"
proof -
  have ok: "to_upper (b32_char w) = b32_char w" "\<not> js_space (b32_char w)" "b32_char w \<noteq> CHR ''=''" if "w \<in> set ws" for w
    using alphabet_nth[of "unat w"] five_lt[of w] assms that by (auto simp: list_all_iff b32_char_def)
  have "map to_upper (map b32_char ws) = map b32_char ws"
    using ok(1) by simp
  moreover have "strip_end (CHR ''='') (map b32_char ws) = map b32_char ws"
    using ok(3) by (cases ws rule: rev_cases) (auto simp: strip_end_def)
  moreover have "no_space (map b32_char ws) = map b32_char ws"
    unfolding no_space_def using ok(2) by (auto simp: filter_id_conv)
  ultimately show ?thesis by (simp only:)
qed

text \<open>C33: decoding the Base32 form of any byte sequence gives the sequence back; the 32-bit
  accumulators that are never masked lose nothing.\<close>

theorem base32_roundtrip: "base32Decode (base32Encode bytes) = Some bytes"
proof -
  obtain ws pad where e: "base32Encode bytes = map b32_char ws" "list_all five ws" "length pad < 5"
    "concat (map (low 5) ws) = concat (map (low 8) bytes) @ pad"
    using enc_loop_words[of 0 bytes 0] by (auto simp: base32Encode_def)
  obtain bs rest where d: "dec_loop (map b32_char ws) 0 0 = Some bs" "length rest < 8"
    "concat (map (low 5) ws) = concat (map (low 8) bs) @ rest"
    using dec_loop_words[of 0 ws 0] e(2) by auto
  have "bytes = bs"
    using e d by (intro chunks8_unique[of bytes pad bs rest]) auto
  then show ?thesis
    using d(1) e(1) b32_clean[OF e(2)] by (simp add: base32Decode_def)
qed


section \<open>Codes and steps\<close>

lemma length_dec_digits: "n < 10 ^ Suc k \<Longrightarrow> length (dec_digits n) \<le> Suc k"
proof (induction k arbitrary: n)
  case 0
  then show ?case by (subst dec_digits.simps) simp
next
  case (Suc k)
  show ?case
  proof (cases "n < 10")
    case False
    have "n div 10 < 10 ^ Suc k" using Suc.prems by (simp add: less_mult_imp_div_less)
    with Suc.IH False show ?thesis by (subst dec_digits.simps) simp
  qed (subst dec_digits.simps, simp)
qed

lemma padded_six: "n < 10 ^ 6 \<Longrightarrow> six_digits (padStart 6 (CHR ''0'') (dec_digits n))"
  using length_dec_digits[of n 5] dec_digits_digits[of n]
  by (auto simp: six_digits_def padStart_def list_all_iff is_digit_def)

lemma hotp_six_digits: "hotp hmac secret k = Some c \<Longrightarrow> six_digits c"
  by (auto simp: hotp_def Let_def DIGITS_def split: if_splits intro: padded_six)

lemma scan_steps_found:
  "(\<forall>k\<in>set ks. code_at k \<noteq> None) \<Longrightarrow>
    scan_steps code_at wanted ks found =
      Some (case found of Some k \<Rightarrow> Some k | None \<Rightarrow> find (\<lambda>k. code_at k = Some wanted) ks)"
  by (induction ks arbitrary: found) (auto split: option.splits)

text \<open>The matching step: whenever the stored secret decodes and the clock is within range, a
  typed code (spaces ignored) is matched exactly when one of the steps of the drift window has it
  as its code; the step returned is the first such one, so it lies in the window.\<close>

theorem matchTotpStep_exact:
  assumes "base32Decode secretB32 = Some secret" "window \<le> atMs div 30000" "atMs div 30000 + window < 2 ^ 64"
  shows "matchTotpStep hmac secretB32 typed window atMs =
    Some (find (\<lambda>k. hotp hmac secret k = Some (no_space typed)) [atMs div 30000 - window .. atMs div 30000 + window])"
proof -
  let ?ks = "[atMs div 30000 - window .. atMs div 30000 + window]"
  have "\<forall>k\<in>set ?ks. hotp hmac secret k \<noteq> None"
  proof
    fix k assume "k \<in> set ?ks"
    then have k: "0 \<le> k" "k < 2 ^ 64" using assms(2,3) by auto
    then have "\<not> k div 2 ^ 32 < 0" "\<not> k div 2 ^ 32 \<ge> 2 ^ 32"
      using mult_div_mod_eq[of "2 ^ 32" k] pos_mod_sign[of "2 ^ 32" k] pos_imp_zdiv_nonneg_iff[of "2 ^ 32" k] by auto
    then show "hotp hmac secret k \<noteq> None" unfolding hotp_def Let_def by simp
  qed
  then have scan: "scan_steps (hotp hmac secret) (no_space typed) ?ks None =
      Some (find (\<lambda>k. hotp hmac secret k = Some (no_space typed)) ?ks)"
    by (simp add: scan_steps_found)
  show ?thesis
  proof (cases "six_digits (no_space typed)")
    case True
    with scan show ?thesis
      by (simp add: matchTotpStep_def Let_def assms(1) STEP_SECONDS_def)
  next
    case False
    then have "find (\<lambda>k. hotp hmac secret k = Some (no_space typed)) ?ks = None"
      by (auto simp: find_None_iff dest: hotp_six_digits)
    with False show ?thesis by (simp add: matchTotpStep_def Let_def)
  qed
qed


lemma zero_code: "padStart DIGITS (CHR ''0'') (dec_digits 0) = ''000000''"
proof -
  have "dec_digits 0 = [digit_char 0]" by (subst dec_digits.simps) simp
  moreover have "digit_char 0 = CHR ''0''" unfolding digit_char_def by code_simp
  moreover have "replicate 5 (CHR ''0'') = ''00000''" by (simp add: eval_nat_numeral)
  ultimately show ?thesis by (simp add: padStart_def DIGITS_def)
qed
lemma hotp_zero_mac: "k \<in> {0..<2 ^ 32} \<Longrightarrow> hotp (\<lambda>_ _. replicate 20 0) secret k = Some ''000000''"
 by (simp add: hotp_def byte_at_def Let_def zero_code)
theorem matchTotpStep_exact_witness:
  "matchTotpStep (\<lambda>_ _. replicate 20 0) ''AA'' ''000 000'' 1 60000 = Some (Some 1)"
proof -
  let ?w = "\<lambda>k. hotp (\<lambda>_ _. replicate 20 0) [0] k = Some (no_space ''000 000'')"
  have "base32Decode ''AA'' = Some [0]" 
 by (simp add: base32Decode_def no_space_def strip_end_def to_upper_def is_lower_def js_space_def B32_ALPHABET_def)
  then have "matchTotpStep (\<lambda>_ _. replicate 20 0) ''AA'' ''000 000'' 1 60000 = Some (find ?w [1..3])"
    using matchTotpStep_exact [of "''AA''" "[0]" 1 60000 "\<lambda>_ _. replicate 20 0" "''000 000''"] by simp
  moreover have "[1..3] = 1 # [2 .. (3 :: int)]" by (simp add: upto.simps)
  moreover have "?w 1" by (simp add: hotp_zero_mac no_space_def js_space_def)
  ultimately show ?thesis by simp
qed

end
