(* ===== verification/Second_Factor.thy ===== *)
theory Second_Factor
  imports Totp
begin

text \<open>
  Verification of a second factor, \<^verbatim>\<open>server/src/lib/second-factor.ts\<close>: the per-account lockout, the
  replay protection of one-time passwords and the single-use backup codes. Each SQL statement is
  one atomic function on the tables, so that an interleaving of concurrent requests is a sequence
  of statements. Times are milliseconds. The decryption of the stored secret, the HMAC and the
  fingerprint of a backup code are parameters.
\<close>

section \<open>Tables\<close>

type_synonym uuid = string

record mfa_user =
  mfa_enabled :: bool
  mfa_secret :: "(string \<times> string) option" \<comment> \<open>ciphertext and nonce\<close>
  mfa_failed_count :: nat
  mfa_locked_until :: "int option"
  mfa_last_step :: "int option"

record backup_row =
  bk_user :: uuid
  bk_hash :: string
  bk_used_at :: "int option"

record mfa_state =
  users :: "uuid \<Rightarrow> mfa_user option"
  backups :: "backup_row list"
  audits :: "(uuid \<times> nat \<times> string) list"

definition MFA_MAX_FAILURES :: nat where "MFA_MAX_FAILURES = 5"
definition MFA_LOCK_SECONDS :: int where "MFA_LOCK_SECONDS = 15 * 60"


definition normalizeBackupCode :: "string \<Rightarrow> string" where
  "normalizeBackupCode raw =
     (let s = map to_lower (filter (\<lambda>c. \<not> js_space c \<and> c \<noteq> CHR ''-'') raw)
      in if length s = 8 \<and> list_all (\<lambda>c. is_lower c \<or> c \<in> set ''234567'') s
         then take 4 s @ ''-'' @ drop 4 s
         else map to_lower (no_space raw))"

section \<open>Statements\<close>

definition set_user :: "uuid \<Rightarrow> mfa_user \<Rightarrow> mfa_state \<Rightarrow> mfa_state" where
  "set_user i u s = s\<lparr>users := (users s)(i \<mapsto> u)\<rparr>"

text \<open>\<^verbatim>\<open>mfa_locked_until <= now()\<close> is not true of a null.\<close>

definition expired :: "int option \<Rightarrow> int \<Rightarrow> bool" where
  "expired locked now = (case locked of None \<Rightarrow> False | Some t \<Rightarrow> t \<le> now)"

definition reserve_row :: "int \<Rightarrow> mfa_user \<Rightarrow> mfa_user" where
  "reserve_row now u =
     (let count = (if expired (mfa_locked_until u) now then 1 else mfa_failed_count u + 1)
      in u\<lparr>mfa_failed_count := count,
           mfa_locked_until :=
             (if count \<ge> MFA_MAX_FAILURES then Some (now + 1000 * MFA_LOCK_SECONDS)
              else if expired (mfa_locked_until u) now then None
              else mfa_locked_until u)\<rparr>)"

definition reserveAttempt :: "mfa_state \<Rightarrow> uuid \<Rightarrow> int \<Rightarrow> mfa_state \<times> (nat \<times> bool) option" where
  "reserveAttempt s userId now =
     (case users s userId of
        None \<Rightarrow> (s, None)
      | Some u \<Rightarrow>
          if mfa_locked_until u = None \<or> expired (mfa_locked_until u) now
          then let u' = reserve_row now u
               in (set_user userId u' s, Some (mfa_failed_count u', mfa_locked_until u' \<noteq> None))
          else (s, None))"

definition resetAttempts :: "mfa_state \<Rightarrow> uuid \<Rightarrow> mfa_state" where
  "resetAttempts s userId =
     (case users s userId of
        None \<Rightarrow> s
      | Some u \<Rightarrow> set_user userId (u\<lparr>mfa_failed_count := 0, mfa_locked_until := None\<rparr>) s)"

definition consumeStep :: "mfa_state \<Rightarrow> uuid \<Rightarrow> int \<Rightarrow> mfa_state \<times> bool" where
  "consumeStep s userId step =
     (case users s userId of
        None \<Rightarrow> (s, False)
      | Some u \<Rightarrow>
          if (case mfa_last_step u of None \<Rightarrow> True | Some k \<Rightarrow> k < step)
          then (set_user userId (u\<lparr>mfa_last_step := Some step\<rparr>) s, True)
          else (s, False))"

definition burnable :: "uuid \<Rightarrow> string \<Rightarrow> backup_row \<Rightarrow> bool" where
  "burnable userId h r \<longleftrightarrow> bk_user r = userId \<and> bk_hash r = h \<and> bk_used_at r = None"

definition burnCode :: "mfa_state \<Rightarrow> uuid \<Rightarrow> string \<Rightarrow> int \<Rightarrow> mfa_state \<times> bool" where
  "burnCode s userId h now =
     (s\<lparr>backups := map (\<lambda>r. if burnable userId h r then r\<lparr>bk_used_at := Some now\<rparr> else r) (backups s)\<rparr>,
      list_ex (burnable userId h) (backups s))"

section \<open>Verification\<close>



section \<open>Interleaved statements\<close>

datatype stmt = Reserve uuid int | Reset uuid | Consume uuid int | Burn uuid string int

fun exec :: "mfa_state \<Rightarrow> stmt \<Rightarrow> mfa_state \<times> bool" where
  "exec s (Reserve u now) = (case reserveAttempt s u now of (s', r) \<Rightarrow> (s', r \<noteq> None))"
| "exec s (Reset u) = (resetAttempts s u, True)"
| "exec s (Consume u step) = consumeStep s u step"
| "exec s (Burn u h now) = burnCode s u h now"

text \<open>The statements that took effect, in order.\<close>

fun effective :: "mfa_state \<Rightarrow> stmt list \<Rightarrow> stmt list" where
  "effective s [] = []"
| "effective s (c # cs) = (case exec s c of (s', ok) \<Rightarrow> (if ok then [c] else []) @ effective s' cs)"

lemmas stmt_defs = reserveAttempt_def resetAttempts_def consumeStep_def burnCode_def set_user_def

section \<open>Lockout\<close>

definition allowance :: "int \<Rightarrow> mfa_user option \<Rightarrow> nat" where
  "allowance stop u =
     (case u of None \<Rightarrow> 0
      | Some u \<Rightarrow> (case mfa_locked_until u of
                     None \<Rightarrow> max 1 (MFA_MAX_FAILURES - mfa_failed_count u)
                   | Some t \<Rightarrow> if t < stop then MFA_MAX_FAILURES else 0))"

lemma allowance_le: "allowance stop u \<le> MFA_MAX_FAILURES"
  by (auto simp: allowance_def MFA_MAX_FAILURES_def split: option.splits)

lemma reserve_uses_allowance:
  assumes "now < stop" "stop \<le> now + 1000 * MFA_LOCK_SECONDS" "reserveAttempt s u now = (s', Some r)"
  shows "allowance stop (users s' u) + 1 \<le> allowance stop (users s u)"
proof -
  obtain row where row: "users s u = Some row" "mfa_locked_until row = None \<or> expired (mfa_locked_until row) now"
    "s' = set_user u (reserve_row now row) s"
    using assms(3) by (auto simp: reserveAttempt_def Let_def split: option.splits if_splits)
  then show ?thesis
    using assms(1,2)
    by (auto simp: allowance_def set_user_def reserve_row_def Let_def MFA_MAX_FAILURES_def expired_def split: option.splits)
qed

lemma reserve_None: "reserveAttempt s u now = (s', None) \<Longrightarrow> s' = s"
  by (auto simp: reserveAttempt_def Let_def split: option.splits if_splits)

lemma reserve_other: "reserveAttempt s v now = (s', r) \<Longrightarrow> u \<noteq> v \<Longrightarrow> users s' u = users s u"
  by (auto simp: reserveAttempt_def set_user_def Let_def split: option.splits if_splits)

lemma consume_allowance: "consumeStep s v k = (s', ok) \<Longrightarrow> allowance stop (users s' u) = allowance stop (users s u)"
  by (auto simp: consumeStep_def set_user_def allowance_def split: option.splits if_splits)

definition reserves :: "uuid \<Rightarrow> stmt list \<Rightarrow> nat" where
  "reserves u cs = length (filter (\<lambda>c. case c of Reserve v _ \<Rightarrow> v = u | _ \<Rightarrow> False) cs)"

lemma reserves_simps [simp]:
  "reserves u [] = 0"
  "reserves u (c # cs) = (case c of Reserve v _ \<Rightarrow> (if v = u then 1 else 0) | _ \<Rightarrow> 0) + reserves u cs"
  by (auto simp: reserves_def split: stmt.splits)

definition within :: "uuid \<Rightarrow> int \<Rightarrow> stmt \<Rightarrow> bool" where
  "within u start c = (case c of Reserve v now \<Rightarrow> v = u \<longrightarrow> start \<le> now \<and> now < start + 1000 * MFA_LOCK_SECONDS
     | Reset v \<Rightarrow> v \<noteq> u | _ \<Rightarrow> True)"

lemma attempts_le_allowance:
  "list_all (within u start) cs \<Longrightarrow>
    reserves u (effective s cs) \<le> allowance (start + 1000 * MFA_LOCK_SECONDS) (users s u)"
proof (induction cs arbitrary: s)
  case (Cons c cs)
  let ?stop = "start + 1000 * MFA_LOCK_SECONDS"
  obtain s' ok where e: "exec s c = (s', ok)" by (cases "exec s c")
  have ih: "reserves u (effective s' cs) \<le> allowance ?stop (users s' u)"
    using Cons by simp
  have "allowance ?stop (users s' u) + reserves u (if ok then [c] else []) \<le> allowance ?stop (users s u)"
  proof (cases c)
    case (Reserve v now)
    then obtain r where r: "reserveAttempt s v now = (s', r)" "ok = (r \<noteq> None)"
      using e by (auto split: prod.splits)
    show ?thesis
    proof (cases "v = u")
      case True
      with Cons.prems Reserve r reserve_uses_allowance[of now ?stop s u s'] reserve_None[of s u now s']
      show ?thesis by (cases r) (auto simp: within_def)
    next
      case False
      with r Reserve reserve_other[OF r(1), of u] show ?thesis by simp
    qed
  next
    case (Reset v)
    with Cons.prems e show ?thesis
      by (auto simp: within_def resetAttempts_def set_user_def split: option.splits)
  next
    case (Consume v k)
    with e show ?thesis by (auto simp: consume_allowance)
  next
    case (Burn v h now)
    with e show ?thesis by (auto simp: burnCode_def)
  qed
  with ih e show ?case by auto
qed simp

text \<open>C14: whatever the interleaving of concurrent requests, from any state of the tables, at most
  five attempts on an account are let through to the evaluation of their code within any period
  shorter than the lock duration in which no attempt succeeds.\<close>

theorem lockout_bounds_attempts:
  assumes "list_all (within u start) cs"
  shows "reserves u (effective s cs) \<le> MFA_MAX_FAILURES"
  using attempts_le_allowance[OF assms, of s] allowance_le[of "start + 1000 * MFA_LOCK_SECONDS" "users s u"] by simp


definition wit_state :: mfa_state where
  "wit_state = \<lparr>users = [''u'' \<mapsto> \<lparr>mfa_enabled = True, mfa_secret = None, mfa_failed_count = 0, mfa_locked_until = None, mfa_last_step = None\<rparr>],
     backups = [\<lparr>bk_user = ''u'', bk_hash = ''h'', bk_used_at = None\<rparr>], audits = []\<rparr>"

theorem lockout_bounds_attempts_witness:
  "reserves ''u'' (effective wit_state [Reserve ''u'' 0, Reserve ''u'' 1, Reserve ''u'' 2, Reserve ''u'' 3,
     Reserve ''u'' 4, Consume ''u'' 7, Reserve ''u'' 5, Reserve ''u'' 899999]) \<le> MFA_MAX_FAILURES"
  using lockout_bounds_attempts [of "''u''" 0 "[Reserve ''u'' 0, Reserve ''u'' 1, Reserve ''u'' 2, Reserve ''u'' 3,
     Reserve ''u'' 4, Consume ''u'' 7, Reserve ''u'' 5, Reserve ''u'' 899999]" wit_state]
  by (simp add: within_def MFA_LOCK_SECONDS_def)

section \<open>No credential is accepted twice\<close>

fun steps_of :: "uuid \<Rightarrow> stmt list \<Rightarrow> int list" where
  "steps_of u [] = []"
| "steps_of u (Consume v k # cs) = (if v = u then [k] else []) @ steps_of u cs"
| "steps_of u (_ # cs) = steps_of u cs"

fun burns_of :: "uuid \<Rightarrow> stmt list \<Rightarrow> string list" where
  "burns_of u [] = []"
| "burns_of u (Burn v h _ # cs) = (if v = u then [h] else []) @ burns_of u cs"
| "burns_of u (_ # cs) = burns_of u cs"

definition last_step_of :: "mfa_state \<Rightarrow> uuid \<Rightarrow> int option" where
  "last_step_of s u = Option.bind (users s u) mfa_last_step"

definition above :: "int option \<Rightarrow> int \<Rightarrow> bool" where
  "above l k \<longleftrightarrow> (case l of None \<Rightarrow> True | Some j \<Rightarrow> j < k)"

lemma exec_last_step:
  "exec s c = (s', ok) \<Longrightarrow>
    last_step_of s' u = (case c of Consume v k \<Rightarrow> (if v = u \<and> ok then Some k else last_step_of s u) | _ \<Rightarrow> last_step_of s u)"
  by (cases c) (auto simp: stmt_defs last_step_of_def reserve_row_def Let_def split: option.splits if_splits)

lemma exec_consume: "exec s (Consume u k) = (s', True) \<Longrightarrow> above (last_step_of s u) k"
  by (auto simp: consumeStep_def last_step_of_def above_def split: option.splits if_splits)

lemma steps_increase:
  "sorted_wrt (<) (steps_of u (effective s cs)) \<and> (\<forall>k\<in>set (steps_of u (effective s cs)). above (last_step_of s u) k)"
proof (induction cs arbitrary: s)
  case (Cons c cs)
  obtain s' ok where e: "exec s c = (s', ok)" by (cases "exec s c")
  note l = exec_last_step[OF e, of u]
  show ?case
  proof (cases "\<exists>k. c = Consume u k \<and> ok")
    case True
    then obtain k where c: "c = Consume u k" "ok" by blast
    then have "above (last_step_of s u) k" "last_step_of s' u = Some k"
      using e l exec_consume by auto
    with c e Cons[of s'] show ?thesis by (auto simp: above_def split: option.splits)
  next
    case False
    then have "steps_of u (effective s (c # cs)) = steps_of u (effective s' cs)" "last_step_of s' u = last_step_of s u"
      using e l by (cases c; auto)+
    with Cons[of s'] show ?thesis by simp
  qed
qed simp

definition unused :: "mfa_state \<Rightarrow> uuid \<Rightarrow> string set" where
  "unused s u = {h. \<exists>r\<in>set (backups s). burnable u h r}"

lemma bex_map: "(\<exists>r\<in>set (map f xs). P r) \<longleftrightarrow> (\<exists>r\<in>set xs. P (f r))"
  by auto

lemma burnable_after:
  "burnable u g (if burnable v h r then r\<lparr>bk_used_at := Some now\<rparr> else r) \<longleftrightarrow> burnable u g r \<and> \<not> (v = u \<and> h = g)"
  by (auto simp: burnable_def)

lemma burn_unused: "unused (fst (burnCode s v h now)) u = (if v = u then unused s u - {h} else unused s u)"
proof -
  have "backups (fst (burnCode s v h now)) =
      map (\<lambda>r. if burnable v h r then r\<lparr>bk_used_at := Some now\<rparr> else r) (backups s)"
    by (simp add: burnCode_def)
  then show ?thesis unfolding unused_def by (simp only: bex_map burnable_after) auto
qed

lemma exec_unused:
  assumes "exec s c = (s', ok)"
  shows "unused s' u = (case c of Burn v h _ \<Rightarrow> (if v = u then unused s u - {h} else unused s u) | _ \<Rightarrow> unused s u)"
proof (cases c)
  case (Burn v h now)
  then have "s' = fst (burnCode s v h now)" using assms by simp
  with Burn burn_unused show ?thesis by simp
next
  case (Reserve v now)
  with assms show ?thesis
    by (auto simp: reserveAttempt_def set_user_def unused_def Let_def split: option.splits if_splits prod.splits)
next
  case (Reset v)
  with assms show ?thesis by (auto simp: resetAttempts_def set_user_def unused_def split: option.splits)
next
  case (Consume v k)
  with assms show ?thesis by (auto simp: consumeStep_def set_user_def unused_def split: option.splits if_splits)
qed

lemma exec_burn: "exec s (Burn u h now) = (s', True) \<Longrightarrow> h \<in> unused s u"
  by (auto simp: burnCode_def unused_def list_ex_iff)

lemma burns_unused:
  "distinct (burns_of u (effective s cs)) \<and> set (burns_of u (effective s cs)) \<subseteq> unused s u"
proof (induction cs arbitrary: s)
  case (Cons c cs)
  obtain s' ok where e: "exec s c = (s', ok)" by (cases "exec s c")
  note l = exec_unused[OF e, of u]
  show ?case
  proof (cases "\<exists>h now. c = Burn u h now \<and> ok")
    case True
    then obtain h now where c: "c = Burn u h now" "ok" by blast
    then have "h \<in> unused s u" "unused s' u = unused s u - {h}"
      using e l exec_burn by auto
    with c e Cons[of s'] show ?thesis by auto
  next
    case False
    then have "burns_of u (effective s (c # cs)) = burns_of u (effective s' cs)"
      using e by (cases c) auto
    moreover have "unused s' u \<subseteq> unused s u"
      using l by (cases c) auto
    ultimately show ?thesis using Cons[of s'] by auto
  qed
qed simp

text \<open>C12: whatever the interleaving of concurrent requests, the one-time-password steps accepted for
  an account strictly increase, from above the last one recorded, and no backup code is accepted
  twice: no second factor can be replayed.\<close>

theorem second_factor_no_replay:
  "sorted_wrt (<) (steps_of u (effective s cs)) \<and> distinct (burns_of u (effective s cs)) \<and>
   (\<forall>k\<in>set (steps_of u (effective s cs)). case last_step_of s u of None \<Rightarrow> True | Some j \<Rightarrow> j < k) \<and>
   set (burns_of u (effective s cs)) \<subseteq> unused s u"
  using steps_increase[of u s cs] burns_unused[of u s cs] by (simp add: above_def)

theorem second_factor_no_replay_witness:
  "sorted_wrt (<) (steps_of ''u'' (effective wit_state [Consume ''u'' 7, Consume ''u'' 7, Burn ''u'' ''h'' 0, Burn ''u'' ''h'' 1]))"
  using second_factor_no_replay [of "''u''" wit_state "[Consume ''u'' 7, Consume ''u'' 7, Burn ''u'' ''h'' 0, Burn ''u'' ''h'' 1]"]
  by blast

section \<open>The handler\<close>



section \<open>Backup codes as typed\<close>

lemma b32_lower_ok:
  assumes "i < 32"
  shows "is_lower (to_lower (B32_ALPHABET ! i)) \<or> to_lower (B32_ALPHABET ! i) \<in> set ''234567''"
proof -
  have "list_all (\<lambda>c. is_lower (to_lower c) \<or> to_lower c \<in> set ''234567'') B32_ALPHABET"
    by (simp add: B32_ALPHABET_def to_lower_def is_upper_def is_lower_def)
  moreover have "B32_ALPHABET ! i \<in> set B32_ALPHABET"
    using assms by (intro nth_mem) (simp add: B32_ALPHABET_def)
  ultimately show ?thesis unfolding list_all_iff by (rule bspec)
qed

definition essence :: "string \<Rightarrow> string" where
  "essence s = map to_lower (filter (\<lambda>c. \<not> js_space c \<and> c \<noteq> CHR ''-'') s)"

lemma base32Encode_5: "length bytes = 5 \<Longrightarrow> \<exists>ws. base32Encode bytes = map b32_char ws \<and> list_all five ws \<and> length ws = 8"
proof -
  assume len: "length bytes = 5"
  obtain ws pad where e: "base32Encode bytes = map b32_char ws" "list_all five ws" "length pad < 5"
    "concat (map (low 5) ws) = concat (map (low 8) bytes) @ pad"
    using enc_loop_words[of 0 bytes 0] by (auto simp: base32Encode_def)
  have "length (concat (map (low 5) (us :: 32 word list))) = 5 * length us" for us by (induction us) auto
  moreover have "length (concat (map (low 8) (us :: 8 word list))) = 8 * length us" for us by (induction us) auto
  ultimately have "5 * length ws = 40 + length pad"
    using arg_cong[OF e(4), of length] len by simp
  with e(3) have "length ws = 8" by presburger
  with e show ?thesis by blast
qed

text \<open>A generated backup code is recognised however the user types it: any string that equals it
  up to case, white space and dashes is normalised to the stored form.\<close>

theorem backup_code_normalised:
  assumes "length bytes = 5" "essence raw = essence (backup_code bytes)"
  shows "normalizeBackupCode raw = backup_code bytes"
proof -
  obtain ws where ws: "base32Encode bytes = map b32_char ws" "list_all five ws" "length ws = 8"
    using base32Encode_5[OF assms(1)] by blast
  define body where "body = map to_lower (map b32_char ws)"
  have len: "length body = 8" using ws by (simp add: body_def)
  have ok: "is_lower c \<or> c \<in> set ''234567''" if c: "c \<in> set body" for c
  proof -
    obtain w where "w \<in> set ws" "c = to_lower (b32_char w)" using c by (auto simp: body_def)
    with ws five_lt[of w] b32_lower_ok[of "unat w"] show ?thesis by (auto simp: list_all_iff b32_char_def)
  qed
  have plain: "\<not> js_space c \<and> c \<noteq> CHR ''-'' \<and> to_lower c = c" if "is_lower c \<or> c \<in> set ''234567''" for c
    using that by (auto simp: is_lower_def js_space_def to_lower_def is_upper_def Let_def)
  have bc: "backup_code bytes = take 4 body @ ''-'' @ drop 4 body"
    using ws len by (simp add: backup_code_def body_def Let_def)
  have fil: "map to_lower (filter (\<lambda>c. \<not> js_space c \<and> c \<noteq> CHR ''-'') xs) = xs" if "set xs \<subseteq> set body" for xs
    using that plain ok by (induction xs) auto
  have "essence (backup_code bytes) = body"
    using fil[of "take 4 body"] fil[of "drop 4 body"] set_take_subset[of 4 body] set_drop_subset[of 4 body]
    unfolding bc essence_def by simp
  then have "map to_lower (filter (\<lambda>c. \<not> js_space c \<and> c \<noteq> CHR ''-'') raw) = body"
    using assms(2) unfolding essence_def by simp
  moreover have "list_all (\<lambda>c. is_lower c \<or> c \<in> set ''234567'') body"
    using ok unfolding list_all_iff by blast
  ultimately show ?thesis
    unfolding normalizeBackupCode_def Let_def bc using len by simp
qed

theorem backup_code_normalised_witness: "normalizeBackupCode ''aa AA-aa AA'' = ''aaaa-aaaa''"
proof -
  have a: "to_lower (CHR ''A'') = CHR ''a''" "to_lower (CHR ''a'') = CHR ''a''" by code_simp+
  have "backup_code [0, 0, 0, 0, 0] = ''aaaa-aaaa''"
    by (simp add: backup_code_def base32Encode_def drain5.simps b32_char_def B32_ALPHABET_def a)
  then show ?thesis
    using backup_code_normalised [of "[0, 0, 0, 0, 0]" "''aa AA-aa AA''"]
    by (simp add: essence_def js_space_def a)
qed

end
