(* ===== verification/Hash_Chain.thy ===== *)
theory Hash_Chain
  imports Prelude
begin

text \<open>
  Hash-chained logs. Each entry stores the hash of a text made of the previous entry's hash and of
  its own fields. The contract \<open>hash_chain\<close> asks only that this text determines the previous
  hash and the fields; nothing is assumed of the hash function, and the conclusions exhibit a
  collision of it, or a text that hashes to the root of the chain, where two chains differ.
\<close>

fun linked :: "('b \<Rightarrow> 'h) \<Rightarrow> ('h \<Rightarrow> 'e \<Rightarrow> 'b) \<Rightarrow> ('e \<Rightarrow> 'h) \<Rightarrow> 'h \<Rightarrow> 'e list \<Rightarrow> bool" where
  "linked hash inp stored h [] = True"
| "linked hash inp stored h (e # es) = (stored e = hash (inp h e) \<and> linked hash inp stored (stored e) es)"

definition final_hash :: "('e \<Rightarrow> 'h) \<Rightarrow> 'h \<Rightarrow> 'e list \<Rightarrow> 'h" where
  "final_hash stored h es = (if es = [] then h else stored (last es))"

fun inputs :: "('h \<Rightarrow> 'e \<Rightarrow> 'b) \<Rightarrow> ('e \<Rightarrow> 'h) \<Rightarrow> 'h \<Rightarrow> 'e list \<Rightarrow> 'b list" where
  "inputs inp stored h [] = []"
| "inputs inp stored h (e # es) = inp h e # inputs inp stored (stored e) es"

definition collision :: "('b \<Rightarrow> 'h) \<Rightarrow> 'b set \<Rightarrow> bool" where
  "collision hash B \<longleftrightarrow> (\<exists>x\<in>B. \<exists>y\<in>B. x \<noteq> y \<and> hash x = hash y)"

lemma linked_append:
  "linked hash inp stored h (es @ fs) \<longleftrightarrow>
    linked hash inp stored h es \<and> linked hash inp stored (final_hash stored h es) fs"
  by (induction es arbitrary: h) (auto simp: final_hash_def)

lemma inputs_append:
  "inputs inp stored h (es @ fs) = inputs inp stored h es @ inputs inp stored (final_hash stored h es) fs"
  by (induction es arbitrary: h) (auto simp: final_hash_def)

lemma final_hash_snoc [simp]: "final_hash stored h (es @ [e]) = stored e"
  by (simp add: final_hash_def)

lemma final_hash_Nil [simp]: "final_hash stored h [] = h"
  by (simp add: final_hash_def)

lemma collision_mono: "collision hash A \<Longrightarrow> A \<subseteq> B \<Longrightarrow> collision hash B"
  unfolding collision_def by blast

locale hash_chain =
  fixes inp :: "'h \<Rightarrow> 'e \<Rightarrow> 'b"
    and good :: "'e \<Rightarrow> bool"
    and same :: "'e \<Rightarrow> 'e \<Rightarrow> bool"
  assumes determines: "good e \<Longrightarrow> good f \<Longrightarrow> inp h e = inp h' f \<Longrightarrow> h = h' \<and> same e f"
begin

lemma same_head:
  assumes "linked hash inp stored g es" "linked hash inp stored g fs" "list_all good es" "list_all good fs"
    and "final_hash stored g es = final_hash stored g fs"
  shows "collision hash (set (inputs inp stored g es) \<union> set (inputs inp stored g fs)) \<or>
    (\<exists>x \<in> set (inputs inp stored g es) \<union> set (inputs inp stored g fs). hash x = g) \<or> list_all2 same es fs"
  using assms
proof (induction es arbitrary: fs rule: rev_induct)
  case Nil
  show ?case
  proof (cases fs rule: rev_cases)
    case (snoc fs' f)
    then have "hash (inp (final_hash stored g fs') f) = g" using Nil by (simp add: linked_append)
    with snoc show ?thesis by (auto simp: inputs_append)
  qed simp
next
  case (snoc e es)
  let ?x = "inp (final_hash stored g es) e"
  have x: "hash ?x = stored e" using snoc.prems by (simp add: linked_append)
  show ?case
  proof (cases fs rule: rev_cases)
    case Nil
    with snoc.prems x have "hash ?x = g" by simp
    then show ?thesis by (auto simp: inputs_append)
  next
    case fs: (snoc fs' f)
    let ?y = "inp (final_hash stored g fs') f"
    have y: "hash ?y = stored e" using snoc.prems fs by (simp add: linked_append)
    show ?thesis
    proof (cases "?x = ?y")
      case False
      with x y have "collision hash {?x, ?y}" by (auto simp: collision_def)
      then show ?thesis using fs by (auto simp: inputs_append intro: collision_mono)
    next
      case True
      then have eq: "final_hash stored g es = final_hash stored g fs'" "same e f"
        using determines[of e f] snoc.prems fs by auto
      then have "collision hash (set (inputs inp stored g es) \<union> set (inputs inp stored g fs')) \<or>
          (\<exists>x \<in> set (inputs inp stored g es) \<union> set (inputs inp stored g fs'). hash x = g) \<or> list_all2 same es fs'"
        using snoc.prems fs by (intro snoc.IH) (auto simp: linked_append)
      then show ?thesis
      proof (elim disjE)
        assume "collision hash (set (inputs inp stored g es) \<union> set (inputs inp stored g fs'))"
        then have "collision hash (set (inputs inp stored g (es @ [e])) \<union> set (inputs inp stored g fs))"
          by (rule collision_mono) (auto simp: fs inputs_append)
        then show ?thesis by blast
      next
        assume "list_all2 same es fs'"
        then have "list_all2 same (es @ [e]) fs"
          using eq(2) unfolding fs by (intro list_all2_appendI) simp_all
        then show ?thesis by blast
      qed (auto simp: fs inputs_append)
    qed
  qed
qed

lemma same_length_head:
  assumes "linked hash inp stored g es" "linked hash inp stored g fs" "list_all good es" "list_all good fs"
    and "length es = length fs" "final_hash stored g es = final_hash stored g fs"
  shows "collision hash (set (inputs inp stored g es) \<union> set (inputs inp stored g fs)) \<or> list_all2 same es fs"
  using assms
proof (induction es arbitrary: fs rule: rev_induct)
  case (snoc e es)
  then obtain fs' f where fs: "fs = fs' @ [f]" by (cases fs rule: rev_cases) auto
  let ?x = "inp (final_hash stored g es) e" and ?y = "inp (final_hash stored g fs') f"
  have xy: "hash ?x = hash ?y" using snoc.prems fs by (simp add: linked_append)
  show ?case
  proof (cases "?x = ?y")
    case False
    with xy have "collision hash {?x, ?y}" by (auto simp: collision_def)
    then show ?thesis using fs by (auto simp: inputs_append intro: collision_mono)
  next
    case True
    then have eq: "final_hash stored g es = final_hash stored g fs'" "same e f"
      using determines[of e f] snoc.prems fs by auto
    have "collision hash (set (inputs inp stored g es) \<union> set (inputs inp stored g fs')) \<or> list_all2 same es fs'"
      using snoc.prems fs eq(1) by (intro snoc.IH) (auto simp: linked_append)
    then show ?thesis
    proof (elim disjE)
      assume "collision hash (set (inputs inp stored g es) \<union> set (inputs inp stored g fs'))"
      then have "collision hash (set (inputs inp stored g (es @ [e])) \<union> set (inputs inp stored g fs))"
        by (rule collision_mono) (auto simp: fs inputs_append)
      then show ?thesis by blast
    next
      assume "list_all2 same es fs'"
      then have "list_all2 same (es @ [e]) fs"
        using eq(2) unfolding fs by (intro list_all2_appendI) simp_all
      then show ?thesis by blast
    qed
  qed
qed simp

end

end
