(* ===== verification/Journal.thy ===== *)
theory Journal
  imports Canonical Hash_Chain
begin

text \<open>
  The tracking journal embedded in a document, \<^verbatim>\<open>web-studio/src/format/journal.ts\<close>: events are JSON
  objects as read from the file, the verification is the one of the code, and appending builds the
  next event. The SHA-256 digest of a string is the parameter \<open>H\<close>, \<open>num\<close> embeds a sequence number in the
  type of JSON numbers.
\<close>

definition field :: "'n json \<Rightarrow> string \<Rightarrow> 'n json" where
  "field e k = (case e of JObj kvs \<Rightarrow> (case map_of kvs k of Some v \<Rightarrow> v | None \<Rightarrow> JUndef) | _ \<Rightarrow> JUndef)"

definition nonempty_obj :: "'n json \<Rightarrow> bool" where
  "nonempty_obj v \<longleftrightarrow> (case v of JObj kvs \<Rightarrow> kvs \<noteq> [] | _ \<Rightarrow> False)"

definition buildPayload :: "'n json \<Rightarrow> 'n json \<Rightarrow> 'n json \<Rightarrow> 'n json \<Rightarrow> 'n json \<Rightarrow> 'n json" where
  "buildPayload sq ty at actor data =
     JObj ([(''seq'', sq), (''type'', ty), (''at'', at)] @
           (if nonempty_obj actor then [(''actor'', actor)] else []) @
           (if nonempty_obj data then [(''data'', data)] else []))"

definition string_of :: "'n json \<Rightarrow> string" where
  "string_of v = (case v of JStr s \<Rightarrow> s | _ \<Rightarrow> [])"

definition hashed_text :: "('n \<Rightarrow> bool) \<Rightarrow> ('n \<Rightarrow> string) \<Rightarrow> string \<Rightarrow> 'n json \<Rightarrow> string option" where
  "hashed_text fin nt prev payload = map_option (\<lambda>c. prev @ c) (canonicalJSON fin nt payload)"

definition appendEvent :: "('n \<Rightarrow> bool) \<Rightarrow> ('n \<Rightarrow> string) \<Rightarrow> (string \<Rightarrow> 8 word list) \<Rightarrow> (nat \<Rightarrow> 'n) \<Rightarrow>
    'n json list \<Rightarrow> string \<Rightarrow> 'n json \<Rightarrow> 'n json \<Rightarrow> string \<Rightarrow> 'n json list option" where
  "appendEvent fin nt H num events ty actor data at =
     (let sq = length events;
          prevHash = (if sq = 0 then ZERO_HASH else string_of (field (events ! (sq - 1)) ''hash''));
          payload = buildPayload (JNum (num sq)) (JStr ty) (JStr at) actor data
      in case hashed_text fin nt prevHash payload of
           None \<Rightarrow> None
         | Some t \<Rightarrow>
             Some (events @ [JObj ([(''seq'', JNum (num sq)), (''type'', JStr ty), (''at'', JStr at)] @
                (if nonempty_obj actor then [(''actor'', actor)] else []) @
                (if nonempty_obj data then [(''data'', data)] else []) @
                [(''prevHash'', JStr prevHash), (''hash'', JStr (sha256Hex H t))])]))"

record verdict =
  valid :: bool
  brokenAt :: "nat option"
  count :: nat

definition is_string :: "'n json \<Rightarrow> bool" where
  "is_string v \<longleftrightarrow> (case v of JStr _ \<Rightarrow> True | _ \<Rightarrow> False)"

definition objectOrAbsent :: "'n json \<Rightarrow> bool" where
  "objectOrAbsent v \<longleftrightarrow> (case v of JUndef \<Rightarrow> True | JObj _ \<Rightarrow> True | _ \<Rightarrow> False)"

definition event_ok :: "('n \<Rightarrow> bool) \<Rightarrow> ('n \<Rightarrow> string) \<Rightarrow> (string \<Rightarrow> 8 word list) \<Rightarrow> (nat \<Rightarrow> 'n) \<Rightarrow> nat \<Rightarrow> string \<Rightarrow> 'n json \<Rightarrow> bool" where
  "event_ok fin nt H num i prevHash e \<longleftrightarrow>
     field e ''seq'' = JNum (num i) \<and> field e ''prevHash'' = JStr prevHash \<and>
     is_string (field e ''type'') \<and> is_string (field e ''at'') \<and>
     objectOrAbsent (field e ''actor'') \<and> objectOrAbsent (field e ''data'') \<and>
     (case hashed_text fin nt prevHash
         (buildPayload (field e ''seq'') (field e ''type'') (field e ''at'') (field e ''actor'') (field e ''data'')) of
        None \<Rightarrow> False
      | Some t \<Rightarrow> field e ''hash'' = JStr (sha256Hex H t))"

fun verify_from :: "('n \<Rightarrow> bool) \<Rightarrow> ('n \<Rightarrow> string) \<Rightarrow> (string \<Rightarrow> 8 word list) \<Rightarrow> (nat \<Rightarrow> 'n) \<Rightarrow> nat \<Rightarrow> nat \<Rightarrow> string \<Rightarrow>
    'n json list \<Rightarrow> verdict" where
  "verify_from fin nt H num tot i prevHash [] = \<lparr>valid = True, brokenAt = None, count = tot\<rparr>"
| "verify_from fin nt H num tot i prevHash (e # es) =
     (if \<not> event_ok fin nt H num i prevHash e then \<lparr>valid = False, brokenAt = Some i, count = tot\<rparr>
      else verify_from fin nt H num tot (Suc i) (string_of (field e ''hash'')) es)"

text \<open>\<open>None\<close> stands for a journal that is absent or whose events are no array.\<close>

definition verifyJournal :: "('n \<Rightarrow> bool) \<Rightarrow> ('n \<Rightarrow> string) \<Rightarrow> (string \<Rightarrow> 8 word list) \<Rightarrow> (nat \<Rightarrow> 'n) \<Rightarrow> 'n json list option \<Rightarrow> verdict" where
  "verifyJournal fin nt H num j =
     (case j of None \<Rightarrow> \<lparr>valid = False, brokenAt = Some 0, count = 0\<rparr>
      | Some events \<Rightarrow> verify_from fin nt H num (length events) 0 ZERO_HASH events)"

section \<open>The verdict locates the first inconsistent event\<close>

definition hash_of :: "'n json \<Rightarrow> string" where
  "hash_of e = string_of (field e ''hash'')"

fun accepted :: "('n \<Rightarrow> bool) \<Rightarrow> ('n \<Rightarrow> string) \<Rightarrow> (string \<Rightarrow> 8 word list) \<Rightarrow> (nat \<Rightarrow> 'n) \<Rightarrow> nat \<Rightarrow> string \<Rightarrow> 'n json list \<Rightarrow> bool" where
  "accepted fin nt H num i h [] = True"
| "accepted fin nt H num i h (e # es) =
     (event_ok fin nt H num i h e \<and> accepted fin nt H num (Suc i) (hash_of e) es)"

lemma verify_from_valid:
  "valid (verify_from fin nt H num tot i h es) \<longleftrightarrow> accepted fin nt H num i h es"
  by (induction es arbitrary: i h) (auto simp: hash_of_def)

lemma accepted_append:
  "accepted fin nt H num i h (es @ fs) \<longleftrightarrow>
    accepted fin nt H num i h es \<and> accepted fin nt H num (i + length es) (final_hash hash_of h es) fs"
  by (induction es arbitrary: i h) (auto simp: final_hash_def)

lemma verify_from_broken:
  "brokenAt (verify_from fin nt H num tot i h es) = Some k \<Longrightarrow>
    i \<le> k \<and> k < i + length es \<and> accepted fin nt H num i h (take (k - i) es) \<and>
    \<not> accepted fin nt H num i h (take (Suc (k - i)) es)"
proof (induction es arbitrary: i h)
  case (Cons e es)
  show ?case
  proof (cases "event_ok fin nt H num i h e")
    case True
    with Cons.IH[of "Suc i" "hash_of e"] Cons.prems
    have "Suc i \<le> k \<and> k < Suc i + length es \<and> accepted fin nt H num (Suc i) (hash_of e) (take (k - Suc i) es) \<and>
        \<not> accepted fin nt H num (Suc i) (hash_of e) (take (Suc (k - Suc i)) es)"
      by (simp add: hash_of_def)
    moreover from this have "k - i = Suc (k - Suc i)" by (simp add: Suc_diff_Suc)
    ultimately show ?thesis using True by simp
  next
    case False
    with Cons.prems show ?thesis by auto
  qed
qed simp

text \<open>The verdict on a list of events: it is valid exactly when it names no event; when it names
  event \<open>k\<close>, the journal of the events before \<open>k\<close> verifies and the one ending with \<open>k\<close> does not.\<close>

theorem verifyJournal_locates:
  "case brokenAt (verifyJournal fin nt H num (Some events)) of
     None \<Rightarrow> valid (verifyJournal fin nt H num (Some events))
   | Some k \<Rightarrow> \<not> valid (verifyJournal fin nt H num (Some events)) \<and> k < length events \<and>
       valid (verifyJournal fin nt H num (Some (take k events))) \<and>
       \<not> valid (verifyJournal fin nt H num (Some (take (Suc k) events)))"
proof -
  have none: "brokenAt (verify_from fin nt H num t i h es) = None \<longleftrightarrow> valid (verify_from fin nt H num t i h es)" for t i h es
    by (induction es arbitrary: i h) auto
  show ?thesis
  proof (cases "brokenAt (verifyJournal fin nt H num (Some events))")
    case None
    with none[of "length events" 0 ZERO_HASH events] show ?thesis by (simp add: verifyJournal_def)
  next
    case (Some k)
    with none[of "length events" 0 ZERO_HASH events] verify_from_broken[of fin nt H num "length events" 0 ZERO_HASH events k]
    show ?thesis by (simp add: verifyJournal_def verify_from_valid)
  qed
qed

section \<open>Appending\<close>

text \<open>C35: an appended journal verifies: from a journal that verifies, appending an event whose payload
  can be serialised yields a journal that verifies, longer by one event, with the former events
  unchanged.\<close>

theorem appendEvent_verifies:
  assumes "valid (verifyJournal fin nt H num (Some events))" "appendEvent fin nt H num events ty actor data at = Some events'"
    and "objectOrAbsent actor" "objectOrAbsent data"
  shows "valid (verifyJournal fin nt H num (Some events')) \<and> count (verifyJournal fin nt H num (Some events')) = length events + 1 \<and>
    take (length events) events' = events"
proof -
  let ?n = "length events"
  define prev where "prev = final_hash hash_of ZERO_HASH events"
  have prev: "prev = (if ?n = 0 then ZERO_HASH else string_of (field (events ! (?n - 1)) ''hash''))"
    by (simp add: prev_def final_hash_def hash_of_def last_conv_nth)
  define payload where "payload = buildPayload (JNum (num ?n)) (JStr ty) (JStr at) actor data"
  obtain t e where t: "hashed_text fin nt prev payload = Some t" and ev: "events' = events @ [e]"
    and e: "e = JObj ([(''seq'', JNum (num ?n)), (''type'', JStr ty), (''at'', JStr at)] @
                (if nonempty_obj actor then [(''actor'', actor)] else []) @
                (if nonempty_obj data then [(''data'', data)] else []) @
                [(''prevHash'', JStr prev), (''hash'', JStr (sha256Hex H t))])"
    using assms(2) unfolding appendEvent_def Let_def prev[symmetric] payload_def[symmetric] by (auto split: option.splits)
  have f: "field e ''seq'' = JNum (num ?n)" "field e ''type'' = JStr ty" "field e ''at'' = JStr at"
    "field e ''prevHash'' = JStr prev" "field e ''hash'' = JStr (sha256Hex H t)"
    "field e ''actor'' = (if nonempty_obj actor then actor else JUndef)"
    "field e ''data'' = (if nonempty_obj data then data else JUndef)"
    by (simp_all add: e field_def)
  have "buildPayload (field e ''seq'') (field e ''type'') (field e ''at'') (field e ''actor'') (field e ''data'') = payload"
    by (simp add: f payload_def buildPayload_def nonempty_obj_def)
  moreover have "objectOrAbsent (field e ''actor'')" "objectOrAbsent (field e ''data'')"
    using assms(3,4) by (simp_all add: f) (simp_all add: objectOrAbsent_def)
  ultimately have "event_ok fin nt H num ?n prev e"
    using t by (simp add: event_ok_def f is_string_def)
  moreover have cnt: "count (verify_from fin nt H num c i h es) = c" for c i h es
    by (induction es arbitrary: i h) auto
  ultimately show ?thesis
    using assms(1) by (simp add: verifyJournal_def verify_from_valid ev accepted_append prev_def)
qed


lemma canonicalJSON_plain: "plain fin v \<Longrightarrow> canonicalJSON fin nt v = Some (stringify nt (arrange enumeration v))"
  by (simp add: canonicalJSON_def sortDeep_plain)

lemma appendEvent_returns:
  "plain fin (buildPayload (JNum (num (length events))) (JStr ty) (JStr at) actor data) \<Longrightarrow>
    \<exists>e. appendEvent fin nt H num events ty actor data at = Some (events @ [e])"
  by (simp add: appendEvent_def Let_def hashed_text_def canonicalJSON_plain)

lemma wit_append:
  "\<exists>e. appendEvent (\<lambda>_. True) dec_text H id [] ''export'' JUndef JUndef ''2024'' = Some [e]"
  using appendEvent_returns[of "\<lambda>_. True" id "[]" "''export''" "''2024''" JUndef JUndef dec_text H]
  by (simp add: buildPayload_def nonempty_obj_def)

definition wit_digest :: "string \<Rightarrow> 8 word list" where
  "wit_digest s = map (\<lambda>c. of_nat (of_char c)) (take 32 s)"

theorem appendEvent_verifies_witness:
  "\<exists>e. appendEvent (\<lambda>_. True) dec_text wit_digest id [] ''export'' JUndef JUndef ''2024'' = Some [e] \<and>
    valid (verifyJournal (\<lambda>_. True) dec_text wit_digest id (Some [e]))"
proof -
  obtain e where e: "appendEvent (\<lambda>_. True) dec_text wit_digest id [] ''export'' JUndef JUndef ''2024'' = Some [e]"
    using wit_append by blast
  with appendEvent_verifies [of "\<lambda>_. True" dec_text wit_digest id "[]" "''export''" JUndef JUndef "''2024''" "[e]"]
  show ?thesis by (auto simp: verifyJournal_def objectOrAbsent_def)
qed

section \<open>Tamper evidence\<close>





















end
