(* ===== verification/Audit_Chain.thy ===== *)
theory Audit_Chain
  imports Canonical Hash_Chain Paging
begin

text \<open>
  The audit log of the server: the hash of an entry and the verification of a chain
  (\<^verbatim>\<open>server/src/lib/audit-chain.ts\<close>), and the append under the per-organisation lock
  (\<^verbatim>\<open>server/src/lib/audit.ts\<close>). The table is a list of rows; the lock makes an append one atomic
  function. The digest of a string is the parameter \<open>H\<close>, and \<open>jsonb\<close> is what the database gives
  back of a stored JSON document, taken to keep the value up to the order of properties.
\<close>

section \<open>Hash of an entry\<close>

definition GENESIS :: "8 word list" where
  "GENESIS = replicate 32 0"

text \<open>The value after \<^verbatim>\<open>JSON.parse(JSON.stringify(v))\<close>.\<close>

fun json_copy :: "('n \<Rightarrow> bool) \<Rightarrow> 'n json \<Rightarrow> 'n json" where
  "json_copy fin (JNum n) = (if fin n then JNum n else JNull)"
| "json_copy fin (JArr xs) = JArr (map (\<lambda>x. if x = JUndef then JNull else json_copy fin x) xs)"
| "json_copy fin (JObj kvs) =
     JObj (map (\<lambda>kv. (fst kv, json_copy fin (snd kv))) (filter (\<lambda>kv. snd kv \<noteq> JUndef) kvs))"
| "json_copy fin v = v"

definition canonicalAuditMetadata :: "('n \<Rightarrow> bool) \<Rightarrow> 'n json \<Rightarrow> 'n json" where
  "canonicalAuditMetadata fin v = (if v = JUndef \<or> v = JNull then JObj [] else json_copy fin v)"

definition legacyMetadataVariants :: "string \<Rightarrow> 'n json \<Rightarrow> 'n json list" where
  "legacyMetadataVariants action metadata =
     (case metadata of
        JObj kvs \<Rightarrow>
          if action = ''node.sign.submit'' \<and> ''signerFpr'' \<notin> fst ` set kvs
          then [JObj (kvs @ [(''signerFpr'', JNull)])]
          else if action = ''site.user.password_reset'' \<and> (\<exists>s. map_of kvs ''expiresAt'' = Some (JStr s))
          then [JObj (AList.update ''expiresAt'' (JObj []) kvs)]
          else []
      | _ \<Rightarrow> [])"

fun stableStringify :: "('n \<Rightarrow> bool) \<Rightarrow> ('n \<Rightarrow> string) \<Rightarrow> 'n json \<Rightarrow> string" where
  "stableStringify fin nt (JArr xs) = ''['' @ js_join '','' (map (stableStringify fin nt) xs) @ '']''"
| "stableStringify fin nt (JObj kvs) =
     ''{'' @ js_join '','' (map (\<lambda>kv. json_string (fst kv) @ '':'' @ stableStringify fin nt (snd kv)) (sort_key fst kvs)) @ ''}''"
| "stableStringify fin nt (JNum n) = (if fin n then nt n else ''null'')"
| "stableStringify fin nt v = stringify nt v"

record 'n audit_fields =
  orgId :: "string option"
  actorUserId :: "string option"
  action :: string
  resourceType :: string
  resourceId :: "string option"
  metadata :: "'n json"
  ip :: string
  createdAt :: string

definition or_empty :: "string option \<Rightarrow> string" where
  "or_empty x = (case x of None \<Rightarrow> [] | Some s \<Rightarrow> s)"

definition audit_payload :: "('n \<Rightarrow> bool) \<Rightarrow> ('n \<Rightarrow> string) \<Rightarrow> 8 word list \<Rightarrow> 'n audit_fields \<Rightarrow> string list" where
  "audit_payload fin nt prevHash f =
     [toHex prevHash, or_empty (orgId f), or_empty (actorUserId f), action f, resourceType f,
      or_empty (resourceId f), stableStringify fin nt (canonicalAuditMetadata fin (metadata f)), ip f, createdAt f]"

definition auditEntryHash :: "('n \<Rightarrow> bool) \<Rightarrow> ('n \<Rightarrow> string) \<Rightarrow> (string \<Rightarrow> 8 word list) \<Rightarrow> 8 word list \<Rightarrow>
    'n audit_fields \<Rightarrow> 8 word list" where
  "auditEntryHash fin nt H prevHash f = H (stringify nt (JArr (map JStr (audit_payload fin nt prevHash f))))"

section \<open>Verification\<close>

record 'n audit_row =
  row_id :: nat
  row_fields :: "'n audit_fields"
  prev_hash :: "8 word list option"
  entry_hash :: "8 word list option"

definition VERIFY_PAGE_SIZE :: nat where "VERIFY_PAGE_SIZE = 5000"

record verify_state =
  total :: nat
  hashed :: nat
  expectedPrev :: "8 word list"
  started :: bool
  brokenAtId :: "nat option"
  legacyAccepted :: nat

definition verify_init :: verify_state where
  "verify_init = \<lparr>total = 0, hashed = 0, expectedPrev = GENESIS, started = False, brokenAtId = None, legacyAccepted = 0\<rparr>"

definition verify_row :: "('n \<Rightarrow> bool) \<Rightarrow> ('n \<Rightarrow> string) \<Rightarrow> (string \<Rightarrow> 8 word list) \<Rightarrow> 'n audit_row \<Rightarrow>
    verify_state \<Rightarrow> verify_state" where
  "verify_row fin nt H r st0 =
     (let st = st0\<lparr>total := total st0 + 1\<rparr>
      in if brokenAtId st \<noteq> None then st
         else case entry_hash r of
           None \<Rightarrow> if started st then st\<lparr>brokenAtId := Some (row_id r)\<rparr> else st
         | Some entryHash \<Rightarrow>
             let prev = (case prev_hash r of None \<Rightarrow> GENESIS | Some p \<Rightarrow> p);
                 fields = row_fields r;
                 direct = (auditEntryHash fin nt H prev fields = entryHash);
                 variant = list_ex (\<lambda>v. auditEntryHash fin nt H prev (fields\<lparr>metadata := v\<rparr>) = entryHash)
                    (legacyMetadataVariants (action fields) (metadata fields));
                 hashOk = (direct \<or> variant);
                 st1 = st\<lparr>hashed := hashed st + 1,
                          legacyAccepted := (if \<not> direct \<and> variant then legacyAccepted st + 1 else legacyAccepted st)\<rparr>;
                 prevOk = (if \<not> started st then prev = GENESIS else prev = expectedPrev st)
             in if \<not> prevOk \<or> \<not> hashOk then st1\<lparr>brokenAtId := Some (row_id r)\<rparr>
                else st1\<lparr>expectedPrev := entryHash, started := True\<rparr>)"

record verify_result =
  ok :: bool
  res_total :: nat
  res_hashed :: nat
  res_brokenAtId :: "nat option"
  res_legacy :: "nat option"

definition chain_rows :: "'n audit_row list \<Rightarrow> string option \<Rightarrow> 'n audit_row list" where
  "chain_rows table org = sort_key row_id (filter (\<lambda>r. orgId (row_fields r) = org) table)"

definition result_of :: "verify_state \<Rightarrow> verify_result" where
  "result_of st = \<lparr>ok = (brokenAtId st = None), res_total = total st, res_hashed = hashed st,
     res_brokenAtId = brokenAtId st, res_legacy = (if legacyAccepted st > 0 then Some (legacyAccepted st) else None)\<rparr>"

definition verifyAuditChain :: "('n \<Rightarrow> bool) \<Rightarrow> ('n \<Rightarrow> string) \<Rightarrow> (string \<Rightarrow> 8 word list) \<Rightarrow> 'n audit_row list \<Rightarrow>
    string option \<Rightarrow> verify_result" where
  "verifyAuditChain fin nt H table org =
     result_of (scan_pages row_id VERIFY_PAGE_SIZE (chain_rows table org) (verify_row fin nt H) None verify_init)"

section \<open>Append\<close>

text \<open>One append under the advisory lock: \<open>newId\<close> is the identifier drawn by the insertion, \<open>now\<close> the
  ISO form of the clock; a database failure leaves the table as it is and is swallowed.\<close>

definition audit :: "('n \<Rightarrow> bool) \<Rightarrow> ('n \<Rightarrow> string) \<Rightarrow> (string \<Rightarrow> 8 word list) \<Rightarrow> ('n json \<Rightarrow> 'n json) \<Rightarrow> bool \<Rightarrow> nat \<Rightarrow> string \<Rightarrow>
    'n audit_row list \<Rightarrow> string option \<Rightarrow> string option \<Rightarrow> string \<Rightarrow> string \<Rightarrow> string option \<Rightarrow> 'n json \<Rightarrow> string \<Rightarrow>
    'n audit_row list" where
  "audit fin nt H jsonb fails newId now table org actor act rtype rid meta addr =
     (let cleanIp = take 64 addr;
          canonical = canonicalAuditMetadata fin meta;
          rows = chain_rows table org;
          prevHash = (if rows = [] then GENESIS
                      else case entry_hash (last rows) of None \<Rightarrow> GENESIS | Some h \<Rightarrow> h);
          fields = \<lparr>orgId = org, actorUserId = actor, action = act, resourceType = rtype, resourceId = rid,
                    metadata = canonical, ip = cleanIp, createdAt = now\<rparr>;
          entryHash = auditEntryHash fin nt H prevHash fields
      in if fails then table
         else table @ [\<lparr>row_id = newId, row_fields = fields\<lparr>metadata := jsonb canonical\<rparr>,
                        prev_hash = Some prevHash, entry_hash = Some entryHash\<rparr>])"

section \<open>Reading page by page is reading everything\<close>

interpretation verify_paging: paged row_id VERIFY_PAGE_SIZE
  by unfold_locales (simp add: VERIFY_PAGE_SIZE_def)

definition rows_ok :: "'n audit_row list \<Rightarrow> bool" where
  "rows_ok table \<longleftrightarrow> distinct (map row_id table)"

lemma chain_rows_increase:
  assumes "rows_ok table"
  shows "sorted_wrt (\<lambda>a b. row_id a < row_id b) (chain_rows table org)"
proof -
  let ?xs = "chain_rows table org"
  have "distinct (map row_id (filter (\<lambda>r. orgId (row_fields r) = org) table))"
    using assms unfolding rows_ok_def by (rule distinct_map_filter)
  then have "distinct (map row_id ?xs)"
    by (simp only: chain_rows_def distinct_map_sort)
  moreover have "sorted (map row_id ?xs)" by (simp add: chain_rows_def)
  ultimately have "sorted_wrt (<) (map row_id ?xs)" using strict_sorted_iff by blast
  then show ?thesis by (simp add: sorted_wrt_map)
qed

lemma verify_scan:
  "rows_ok table \<Longrightarrow> verifyAuditChain fin nt H table org = result_of (fold (verify_row fin nt H) (chain_rows table org) verify_init)"
  by (simp add: verifyAuditChain_def verify_paging.scan_all chain_rows_increase)

lemma total_fold: "total (fold (verify_row fin nt H) rows st) = total st + length rows"
proof (induction rows arbitrary: st)
  case (Cons r rows)
  have "total (verify_row fin nt H r st) = total st + 1"
    by (simp add: verify_row_def Let_def split: option.splits)
  with Cons show ?case by simp
qed simp

text \<open>C34: the paginated verification equals one pass over the whole chain in the order of
  identifiers, and its total counts every row of the chain even past a broken link.\<close>

theorem verifyAuditChain_paged:
  assumes "distinct (map row_id table)"
  shows "verifyAuditChain fin nt H table org = result_of (fold (verify_row fin nt H) (chain_rows table org) verify_init) \<and>
    res_total (verifyAuditChain fin nt H table org) = length (filter (\<lambda>r. orgId (row_fields r) = org) table)"
  using verify_scan[of table fin nt H org] assms total_fold[of fin nt H "chain_rows table org" verify_init]
  by (simp add: rows_ok_def result_of_def verify_init_def chain_rows_def)


definition wit_fields :: "nat audit_fields" where
  "wit_fields = \<lparr>orgId = None, actorUserId = Some ''u'', action = ''auth.login'', resourceType = ''user'', resourceId = None,
     metadata = JObj [(''failures'', JNum 5)], ip = [], createdAt = ''2024''\<rparr>"

theorem verifyAuditChain_paged_witness:
  "res_total (verifyAuditChain (\<lambda>_. True) dec_text (\<lambda>_. []) [\<lparr>row_id = 7, row_fields = wit_fields, prev_hash = None, entry_hash = None\<rparr>] None) = 1"
  using conjunct2 [OF verifyAuditChain_paged [of "[\<lparr>row_id = 7, row_fields = wit_fields, prev_hash = None, entry_hash = None\<rparr>]" "\<lambda>_. True" dec_text "\<lambda>_. []" None]]
  by (simp add: wit_fields_def)

section \<open>An append keeps a chain that verifies\<close>

text \<open>After a prefix that verifies, the last row tells whether the chain has started.\<close>

definition in_step :: "'n audit_row list \<Rightarrow> verify_state \<Rightarrow> bool" where
  "in_step rows st \<longleftrightarrow> brokenAtId st = None \<longrightarrow>
     (if rows = [] \<or> entry_hash (last rows) = None then \<not> started st
      else started st \<and> Some (expectedPrev st) = entry_hash (last rows))"

lemma in_step_row: "in_step (rows @ [r]) (verify_row fin nt H r st)" if "in_step rows st"
proof (cases "entry_hash r")
  case None
  then show ?thesis by (auto simp: verify_row_def Let_def in_step_def)
next
  case (Some h)
  then show ?thesis by (cases "brokenAtId st") (simp_all add: verify_row_def Let_def in_step_def)
qed

lemma in_step_fold: "in_step rows (fold (verify_row fin nt H) rows verify_init)"
proof (induction rows rule: rev_induct)
  case Nil
  then show ?case by (simp add: in_step_def verify_init_def)
next
  case (snoc r rows)
  then show ?case using in_step_row by simp
qed


text \<open>The database keeps documents up to the order of properties, and hashing does not see it.\<close>

definition jsonb_ok :: "('n \<Rightarrow> bool) \<Rightarrow> ('n json \<Rightarrow> 'n json) \<Rightarrow> bool" where
  "jsonb_ok fin jsonb \<longleftrightarrow> (\<forall>v. plain fin v \<longrightarrow> plain fin (jsonb v) \<and> same_json v (jsonb v))"

lemma json_copy_plain: "plain fin v \<Longrightarrow> json_copy fin v = v"
proof (induction v)
  case (JArr xs)
  then have "\<forall>x\<in>set xs. x \<noteq> JUndef \<and> json_copy fin x = x" by (auto simp: list_all_iff)
  then show ?case by (simp add: map_idI)
next
  case (JObj kvs)
  then have p: "\<forall>kv\<in>set kvs. snd kv \<noteq> JUndef \<and> json_copy fin (snd kv) = snd kv"
    by (auto simp: list_all_iff snds.intros)
  then have "filter (\<lambda>kv. snd kv \<noteq> JUndef) kvs = kvs" by (simp only: filter_id_conv) blast
  with p show ?case by (simp add: map_idI)
qed auto

lemma stableStringify_plain:
  "plain fin v \<Longrightarrow> stableStringify fin nt v = stringify nt (arrange (\<lambda>kvs. kvs) v)"
proof (induction v)
  case (JArr xs)
  then have "\<forall>x\<in>set xs. stableStringify fin nt x = stringify nt (arrange (\<lambda>kvs. kvs) x)"
    by (simp add: list_all_iff)
  then show ?case by (simp add: comp_def cong: map_cong)
next
  case (JObj kvs)
  then have "\<forall>kv\<in>set (sort_key fst kvs). stableStringify fin nt (snd kv) = stringify nt (arrange (\<lambda>kvs. kvs) (snd kv))"
    by (auto simp: list_all_iff snds.intros)
  then have "map (\<lambda>kv. json_string (fst kv) @ '':'' @ stableStringify fin nt (snd kv)) (sort_key fst kvs) =
      map (\<lambda>kv. json_string (fst kv) @ '':'' @ stringify nt (arrange (\<lambda>kvs. kvs) (snd kv))) (sort_key fst kvs)"
    by (intro map_cong) auto
  then show ?case
    by (simp only: stableStringify.simps arrange.simps stringify.simps map_map comp_def fst_conv snd_conv)
qed auto

definition plain_meta :: "('n \<Rightarrow> bool) \<Rightarrow> 'n json \<Rightarrow> bool" where
  "plain_meta fin v \<longleftrightarrow> plain fin v \<and> v \<noteq> JNull"

lemma canonicalAuditMetadata_plain: "plain_meta fin v \<Longrightarrow> canonicalAuditMetadata fin v = v"
  by (auto simp: canonicalAuditMetadata_def plain_meta_def json_copy_plain)

inductive_cases same_json_nullE: "same_json v JNull"

lemma metadata_text:
  "number_format fin nt \<Longrightarrow> plain_meta fin v \<Longrightarrow> plain_meta fin w \<Longrightarrow>
    stableStringify fin nt (canonicalAuditMetadata fin v) = stableStringify fin nt (canonicalAuditMetadata fin w) \<longleftrightarrow> same_json v w"
  by (simp add: canonicalAuditMetadata_plain) (simp add: plain_meta_def stableStringify_plain kept.text_same)

lemma insort_key_snoc: "f x \<le> f r \<Longrightarrow> insort_key f x (ys @ [r]) = insort_key f x ys @ [r]"
  by (induction ys) auto

lemma sort_key_snoc: "\<forall>x\<in>set xs. f x \<le> f r \<Longrightarrow> sort_key f (xs @ [r]) = sort_key f xs @ [r]"
  by (induction xs) (auto simp: insort_key_snoc)

text \<open>C18: the server's own appends never break a chain: if the chain of an organisation verifies, it
  still does after an append of any metadata, with one more row and one more hashed row, and
  the rows of every other chain are untouched.\<close>

theorem audit_keeps_chain:
  assumes "number_format fin nt" "jsonb_ok fin jsonb" "plain_meta fin (canonicalAuditMetadata fin meta)"
    and "distinct (map row_id table)" "\<forall>r\<in>set table. row_id r < newId"
    and "ok (verifyAuditChain fin nt H table org)"
    and "table' = audit fin nt H jsonb False newId now table org actor act rtype rid meta addr"
  shows "ok (verifyAuditChain fin nt H table' org) \<and>
    res_total (verifyAuditChain fin nt H table' org) = res_total (verifyAuditChain fin nt H table org) + 1 \<and>
    res_hashed (verifyAuditChain fin nt H table' org) = res_hashed (verifyAuditChain fin nt H table org) + 1 \<and>
    (\<forall>org'. org' \<noteq> org \<longrightarrow> chain_rows table' org' = chain_rows table org')"
proof -
  let ?rows = "chain_rows table org"
  define c where "c = canonicalAuditMetadata fin meta"
  define prev where "prev = (if ?rows = [] then GENESIS else case entry_hash (last ?rows) of None \<Rightarrow> GENESIS | Some h \<Rightarrow> h)"
  define fields where "fields = \<lparr>orgId = org, actorUserId = actor, action = act, resourceType = rtype, resourceId = rid,
                    metadata = c, ip = take 64 addr, createdAt = now\<rparr>"
  define r where "r = \<lparr>row_id = newId, row_fields = fields\<lparr>metadata := jsonb c\<rparr>, prev_hash = Some prev,
     entry_hash = Some (auditEntryHash fin nt H prev fields)\<rparr>"
  have t': "table' = table @ [r]"
    by (simp add: assms(7) audit_def Let_def r_def fields_def prev_def c_def)
  have ok': "rows_ok table" "rows_ok table'"
    using assms(4,5) by (auto simp: rows_ok_def t' r_def)
  have last: "chain_rows table' org = ?rows @ [r]"
  proof -
    have "sort_key row_id (xs @ [r]) = sort_key row_id xs @ [r]" if "\<forall>x\<in>set xs. row_id x < newId" for xs
      using that by (intro sort_key_snoc) (simp add: r_def less_imp_le)
    then show ?thesis using assms(5) by (simp add: chain_rows_def t' r_def fields_def)
  qed
  have plainc: "plain_meta fin c" using assms(3) by (simp add: c_def)
  then have "plain fin (jsonb c)" "same_json c (jsonb c)" using assms(2) by (auto simp: jsonb_ok_def plain_meta_def)
  moreover from this have "jsonb c \<noteq> JNull" using plainc by (auto simp: plain_meta_def elim: same_json_nullE)
  ultimately have "stableStringify fin nt (canonicalAuditMetadata fin (jsonb c)) = stableStringify fin nt (canonicalAuditMetadata fin c)"
    using metadata_text[OF assms(1) plainc, of "jsonb c"] by (simp add: plain_meta_def)
  then have hash: "auditEntryHash fin nt H prev (fields\<lparr>metadata := jsonb c\<rparr>) = auditEntryHash fin nt H prev fields"
    by (simp add: auditEntryHash_def audit_payload_def fields_def)
  let ?st = "fold (verify_row fin nt H) ?rows verify_init"
  have st: "brokenAtId ?st = None" using assms(6) verify_scan[OF ok'(1), of fin nt H org] by (simp add: result_of_def)
  have "if started ?st then prev = expectedPrev ?st else prev = GENESIS"
    using in_step_fold[of ?rows fin nt H] st by (auto simp: in_step_def prev_def split: if_splits option.splits)
  then have step: "brokenAtId (verify_row fin nt H r ?st) = None \<and> total (verify_row fin nt H r ?st) = total ?st + 1 \<and>
      hashed (verify_row fin nt H r ?st) = hashed ?st + 1"
    using st hash by (simp add: verify_row_def r_def Let_def)
  have other: "chain_rows table' org' = chain_rows table org'" if "org' \<noteq> org" for org'
    using that by (simp add: chain_rows_def t' r_def fields_def)
  show ?thesis
    using step other by (simp add: verify_scan ok' last result_of_def)
qed


definition wit_meta :: "nat json" where
  "wit_meta = JObj [(''failures'', JNum 5)]"

theorem audit_keeps_chain_witness:
  "ok (verifyAuditChain (\<lambda>_. True) dec_text (\<lambda>s. []) 
     (audit (\<lambda>_. True) dec_text (\<lambda>s. []) (\<lambda>v. v) False 1 ''2024'' [] None (Some ''u'') ''auth.mfa.locked'' ''user'' None wit_meta []) None)"
proof -
  have "ok (verifyAuditChain (\<lambda>_. True) dec_text (\<lambda>s. []) [] None)"
    by (simp add: verify_scan rows_ok_def chain_rows_def result_of_def verify_init_def)
  moreover have "jsonb_ok (\<lambda>_. True) (\<lambda>v :: nat json. v)" by (simp add: jsonb_ok_def same_refl)
  moreover have "plain_meta (\<lambda>_. True) (canonicalAuditMetadata (\<lambda>_. True) wit_meta)"
    by (simp add: plain_meta_def canonicalAuditMetadata_def wit_meta_def)
  ultimately show ?thesis
    using audit_keeps_chain [OF dec_text_format, of "\<lambda>v. v" wit_meta "[]" 1 "\<lambda>s. []" None _ "''2024''" "Some ''u''" "''auth.mfa.locked''" "''user''" None "[]"]
    by simp
qed

section \<open>Tamper evidence\<close>

definition same_fields :: "'n audit_fields \<Rightarrow> 'n audit_fields \<Rightarrow> bool" where
  "same_fields f g \<longleftrightarrow> or_empty (orgId f) = or_empty (orgId g) \<and> or_empty (actorUserId f) = or_empty (actorUserId g) \<and>
     action f = action g \<and> resourceType f = resourceType g \<and> or_empty (resourceId f) = or_empty (resourceId g) \<and>
     same_json (metadata f) (metadata g) \<and> ip f = ip g \<and> createdAt f = createdAt g"

definition hashed_text :: "('n \<Rightarrow> bool) \<Rightarrow> ('n \<Rightarrow> string) \<Rightarrow> 8 word list \<Rightarrow> 'n audit_row \<Rightarrow> string" where
  "hashed_text fin nt h r = stringify nt (JArr (map JStr (audit_payload fin nt h (row_fields r))))"

lemma strings_text: "number_format fin nt \<Longrightarrow> stringify nt (JArr (map JStr xs)) = stringify nt (JArr (map JStr ys)) \<Longrightarrow> xs = ys"
proof -
  assume nf: "number_format fin nt" and eq: "stringify nt (JArr (map JStr xs)) = stringify nt (JArr (map JStr ys))"
  have "JArr (map JStr xs) = (JArr (map JStr ys) :: 'a json)"
    using stringify_unique[OF nf, of "JArr (map JStr xs)" "JArr (map JStr ys)" "[]" "[]"] eq
    by (simp add: list_all_iff stops_def)
  then show "xs = ys" by (simp add: inj_map_eq_map inj_def)
qed

interpretation audit: hash_chain "hashed_text fin nt"
    "\<lambda>r. number_format fin nt \<and> plain_meta fin (metadata (row_fields r))" "\<lambda>r s. same_fields (row_fields r) (row_fields s)" for fin nt
proof
  fix e f h h'
  assume g: "number_format fin nt \<and> plain_meta fin (metadata (row_fields e))" "number_format fin nt \<and> plain_meta fin (metadata (row_fields f))"
    and "hashed_text fin nt h e = hashed_text fin nt h' f"
  then have "audit_payload fin nt h (row_fields e) = audit_payload fin nt h' (row_fields f)"
    unfolding hashed_text_def using strings_text by blast
  then show "h = h' \<and> same_fields (row_fields e) (row_fields f)"
    using g metadata_text[of fin nt "metadata (row_fields e)" "metadata (row_fields f)"]
    by (auto simp: audit_payload_def same_fields_def dest: toHex_inj)
qed








text \<open>A limit of the detection: a table whose hashes have all been erased verifies, whatever its
  rows contain; only the count of hashed entries shows it.\<close>

theorem erased_hashes_verify:
  assumes "distinct (map row_id table)" "\<forall>r\<in>set table. entry_hash r = None"
  shows "ok (verifyAuditChain fin nt H table org) \<and> res_hashed (verifyAuditChain fin nt H table org) = 0"
proof -
  have "brokenAtId (fold (verify_row fin nt H) rows st) = None \<and> hashed (fold (verify_row fin nt H) rows st) = hashed st"
    if "\<forall>r\<in>set rows. entry_hash r = None" "brokenAtId st = None" "\<not> started st" for rows st
    using that
  proof (induction rows arbitrary: st)
    case (Cons r rows)
    then have "verify_row fin nt H r st = st\<lparr>total := total st + 1\<rparr>" by (simp add: verify_row_def Let_def)
    with Cons show ?case by simp
  qed simp
  from this[of "chain_rows table org" verify_init] show ?thesis
    using assms by (simp add: verify_scan rows_ok_def result_of_def verify_init_def chain_rows_def)
qed

theorem erased_hashes_verify_witness:
  "ok (verifyAuditChain (\<lambda>_. True) dec_text (\<lambda>_. []) [\<lparr>row_id = 1, row_fields = wit_fields, prev_hash = None, entry_hash = None\<rparr>] None)"
  using erased_hashes_verify [of "[\<lparr>row_id = 1, row_fields = wit_fields, prev_hash = None, entry_hash = None\<rparr>]" "\<lambda>_. True" dec_text "\<lambda>_. []" None] by simp

end
