(* ===== verification/Drive_Base.thy ===== *)
theory Drive_Base
  imports Rbac "HOL-Library.Product_Lexorder"
begin

text \<open>
  What the handlers of the Drive share. A handler is a function of the database (with the object
  store), of the user the request was authenticated as and of its parameters; it answers an error or
  a value, the database afterwards, and the notifications it sends. The rows inserted get identifiers
  from the parameter \<open>fresh\<close>. Requests reach a handler as their parsed bodies; what the schema of a
  body accepts is a predicate on it.
\<close>

section \<open>Handlers\<close>

datatype drive_effect =
    KickNode uuid string
  | KickMember uuid string
  | NotifyMembers uuid
  | AuditEntry "uuid option" "uuid option" string uuid
  | Deprecated

type_synonym 'a handled = "(api_error + 'a) \<times> database \<times> drive_effect list"

definition stop :: "database \<Rightarrow> api_error \<Rightarrow> 'a handled" where
  "stop db e = (Inl e, db, [])"

definition check :: "database \<Rightarrow> api_error + 'a \<Rightarrow> ('a \<Rightarrow> 'b handled) \<Rightarrow> 'b handled" where
  "check db r k = (case r of Inl e \<Rightarrow> stop db e | Inr a \<Rightarrow> k a)"

definition when_ok :: "bool \<Rightarrow> api_error \<Rightarrow> api_error + unit" where
  "when_ok b e = (if b then Inr () else Inl e)"

definition validation :: api_error where "validation = ApiError 400 ''validation''"
definition internal_error :: api_error where "internal_error = ApiError 500 ''internal''"

lemma check_Inr [simp]: "check db (Inr a) k = k a"
  by (simp add: check_def)

lemma check_Inl [simp]: "check db (Inl e) k = stop db e"
  by (simp add: check_def)

text \<open>Whatever a handler does after a check, an error of the check leaves the database alone.\<close>

lemma check_split:
  "P (check db r k) \<longleftrightarrow> (\<forall>e. r = Inl e \<longrightarrow> P (stop db e)) \<and> (\<forall>a. r = Inr a \<longrightarrow> P (k a))"
  by (cases r) simp_all

lemma check_result:
  "check db r k = (res, db', outs) \<longleftrightarrow> (\<exists>e. r = Inl e \<and> res = Inl e \<and> db' = db \<and> outs = []) \<or> (\<exists>a. r = Inr a \<and> k a = (res, db', outs))"
  by (cases r) (auto simp: stop_def)

lemma check_ok:
  "check db r k = (Inr v, db', outs) \<longleftrightarrow> (\<exists>a. r = Inr a \<and> k a = (Inr v, db', outs))"
  by (cases r) (auto simp: stop_def)

lemma stop_ok [simp]: "stop db e \<noteq> (Inr v, db', outs)"
  by (simp add: stop_def)

lemma when_ok_Inr [simp]: "when_ok b e = Inr u \<longleftrightarrow> b"
  by (simp add: when_ok_def)

lemma when_ok_Inl [simp]: "when_ok b e = Inl e' \<longleftrightarrow> \<not> b \<and> e' = e"
  by (auto simp: when_ok_def)

section \<open>Descendants\<close>

text \<open>The recursive queries going down the tree, evaluated like \<open>anc_rec\<close>.\<close>

definition sub_round :: "node_row list \<Rightarrow> uuid list \<Rightarrow> uuid list \<Rightarrow> uuid list" where
  "sub_round ns R W = remdups [node_id n. n \<leftarrow> ns, case node_parent n of None \<Rightarrow> False | Some p \<Rightarrow> p \<in> set W, node_id n \<notin> set R]"

function sub_rec :: "node_row list \<Rightarrow> uuid list \<Rightarrow> uuid list \<Rightarrow> uuid list" where
  "sub_rec ns R W = (if W = [] then R else let N = sub_round ns R W in sub_rec ns (R @ N) N)"
  by pat_completeness auto

lemma set_sub_round:
  "set (sub_round ns R W) = {node_id n |n. n \<in> set ns \<and> (\<exists>w\<in>set W. node_parent n = Some w)} - set R"
  by (auto simp: sub_round_def split: option.splits)

termination sub_rec
proof (relation "inv_image (less_than <*lex*> less_than) (\<lambda>(ns, R, W). (card (node_id ` set ns - set R), length W))", goal_cases)
  case 1
  show ?case by (intro wf_inv_image wf_lex_prod wf_less_than)
next
  case (2 ns R W N)
  have new: "set N \<subseteq> node_id ` set ns - set R" using 2(2) by (auto simp: set_sub_round)
  show ?case
  proof (cases "N = []")
    case False
    then have "node_id ` set ns - set (R @ N) \<subset> node_id ` set ns - set R" using new by (cases N) auto
    then have "card (node_id ` set ns - set (R @ N)) < card (node_id ` set ns - set R)" by (intro psubset_card_mono) auto
    then show ?thesis by simp
  qed (use 2 in auto)
qed

declare sub_rec.simps [simp del]

definition subtrees :: "node_row list \<Rightarrow> uuid list \<Rightarrow> uuid list" where
  "subtrees ns ids = (let start = remdups [node_id n. n \<leftarrow> ns, node_id n \<in> set ids] in sub_rec ns start start)"

definition subtree :: "node_row list \<Rightarrow> uuid \<Rightarrow> uuid list" where
  "subtree ns i = subtrees ns [i]"

definition strict_subtree :: "node_row list \<Rightarrow> uuid \<Rightarrow> uuid list" where
  "strict_subtree ns i = (let start = remdups [node_id n. n \<leftarrow> ns, node_parent n = Some i] in sub_rec ns start start)"

section \<open>Keys offered for sharing\<close>

record key_share =
  sh_type :: principal_type
  sh_principal :: uuid
  sh_role :: uuid
  sh_wrapped :: string
  sh_group_public :: "string option"
  sh_inherited :: "uuid option"

definition lower_hex :: "string \<Rightarrow> bool" where
  "lower_hex s = list_all (\<lambda>c. c \<in> set ''0123456789abcdef'') s"

definition share_schema :: "key_share \<Rightarrow> bool" where
  "share_schema s = (case sh_group_public s of None \<Rightarrow> True | Some p \<Rightarrow> length p = 130 \<and> lower_hex p)"

definition shares_schema :: "key_share list \<Rightarrow> bool" where
  "shares_schema ss \<longleftrightarrow> 1 \<le> length ss \<and> length ss \<le> 256 \<and> list_all share_schema ss"

definition clientOutdated :: "nat \<Rightarrow> api_error" where
  "clientOutdated status = ApiError status ''client_outdated''"

text \<open>\<^verbatim>\<open>assertFreshPrincipalKeys\<close>: the group shares are examined in the order of their identifiers.\<close>

fun fresh_groups :: "group_row list \<Rightarrow> uuid \<Rightarrow> bool \<Rightarrow> key_share list \<Rightarrow> bool \<Rightarrow> api_error + bool" where
  "fresh_groups gs orgId legacyCompat [] legacy = Inr legacy"
| "fresh_groups gs orgId legacyCompat (s # ss) legacy =
     (if sh_group_public s = None \<and> \<not> legacyCompat then Inl (clientOutdated 428)
      else case queryOne (filter (\<lambda>g. grp_id g = sh_principal s \<and> grp_org g = orgId) gs) of
             None \<Rightarrow> Inl badRequest
           | Some g \<Rightarrow>
               let expected = (case sh_group_public s of None \<Rightarrow> grp_public g | Some p \<Rightarrow> p);
                   legacy' = (if sh_group_public s = None then True else legacy)
               in if grp_public g \<noteq> expected \<or> grp_rotation_required g then Inl conflict
                  else fresh_groups gs orgId legacyCompat ss legacy')"

definition assertFreshPrincipalKeys :: "database \<Rightarrow> uuid \<Rightarrow> key_share list \<Rightarrow> int option \<Rightarrow> bool \<Rightarrow> api_error + bool" where
  "assertFreshPrincipalKeys db orgId shares orgKeyEpoch legacyCompat =
     (let orgShares = filter (\<lambda>s. sh_type s = OrgPrincipal) shares;
          groupShares = filter (\<lambda>s. sh_type s = GroupPrincipal) shares
      in if orgShares = [] \<and> groupShares = [] then Inr False
         else if list_ex (\<lambda>s. sh_principal s \<noteq> orgId) orgShares then Inl badRequest
         else case queryOne (filter (\<lambda>r. org_id r = orgId) (orgs db)) of
                None \<Rightarrow> Inl notFound
              | Some r \<Rightarrow>
                  if orgShares \<noteq> [] \<and> orgKeyEpoch = None \<and> \<not> legacyCompat then Inl (clientOutdated 428)
                  else let legacy = (orgShares \<noteq> [] \<and> orgKeyEpoch = None);
                           epoch = (case orgKeyEpoch of None \<Rightarrow> org_key_epoch r | Some e \<Rightarrow> e)
                       in if orgShares \<noteq> [] \<and> (org_key_epoch r \<noteq> epoch \<or> org_rotation_required r) then Inl conflict
                          else fresh_groups (groups db) orgId legacyCompat (sort_key sh_principal groupShares) legacy)"

definition role_usable :: "role_row \<Rightarrow> uuid \<Rightarrow> uuid \<Rightarrow> bool" where
  "role_usable r roleId orgId \<longleftrightarrow> role_id r = roleId \<and> (role_org r = Some orgId \<or> role_org r = None)"

definition perms_of :: "role_row \<Rightarrow> string list" where
  "perms_of r = (case role_permissions r of None \<Rightarrow> [] | Some ps \<Rightarrow> ps)"

text \<open>\<^verbatim>\<open>validateRole\<close> of \<^verbatim>\<open>nodes.ts\<close>, and that of \<^verbatim>\<open>shares.ts\<close> with its ceiling.\<close>

definition validateRole :: "database \<Rightarrow> uuid \<Rightarrow> uuid \<Rightarrow> api_error + unit" where
  "validateRole db roleId orgId =
     (case queryOne (filter (\<lambda>r. role_usable r roleId orgId) (roles db)) of None \<Rightarrow> Inl badRequest | Some _ \<Rightarrow> Inr ())"

definition validateRoleCapped :: "database \<Rightarrow> uuid \<Rightarrow> uuid \<Rightarrow> string list \<Rightarrow> api_error + unit" where
  "validateRoleCapped db roleId orgId held =
     (case queryOne (filter (\<lambda>r. role_usable r roleId orgId) (roles db)) of
        None \<Rightarrow> Inl badRequest
      | Some r \<Rightarrow> if list_ex (\<lambda>p. p \<notin> set held) (perms_of r) then Inl forbidden else Inr ())"

fun each_ok :: "('a \<Rightarrow> api_error + unit) \<Rightarrow> 'a list \<Rightarrow> api_error + unit" where
  "each_ok f [] = Inr ()"
| "each_ok f (x # xs) = (case f x of Inl e \<Rightarrow> Inl e | Inr _ \<Rightarrow> each_ok f xs)"

lemma each_ok_Inr: "each_ok f xs = Inr u \<longleftrightarrow> (\<forall>x\<in>set xs. \<exists>v. f x = Inr v)"
  by (induction xs) (auto split: sum.splits)

text \<open>The rows inserted for shares. The table has a unique key and a foreign key; a violation rolls the
  transaction back and answers 500.\<close>

definition share_row :: "(nat \<Rightarrow> uuid) \<Rightarrow> uuid \<Rightarrow> uuid \<Rightarrow> nat \<Rightarrow> key_share \<Rightarrow> node_key_row" where
  "share_row fresh nodeId by i s =
     \<lparr>nk_id = fresh i, nk_node = nodeId, nk_principal_type = sh_type s, nk_principal = sh_principal s,
      nk_role = sh_role s, nk_wrapped = sh_wrapped s, nk_granted_by = Some by, nk_inherited_from = sh_inherited s\<rparr>"

definition share_rows :: "(nat \<Rightarrow> uuid) \<Rightarrow> uuid \<Rightarrow> uuid \<Rightarrow> key_share list \<Rightarrow> node_key_row list" where
  "share_rows fresh nodeId by shares = map (\<lambda>(i, s). share_row fresh nodeId by (Suc i) s) (enumerate 0 shares)"

definition same_principal :: "node_key_row \<Rightarrow> node_key_row \<Rightarrow> bool" where
  "same_principal a b \<longleftrightarrow> nk_node a = nk_node b \<and> nk_principal_type a = nk_principal_type b \<and> nk_principal a = nk_principal b"

definition keys_insertable :: "database \<Rightarrow> node_key_row list \<Rightarrow> bool" where
  "keys_insertable db rows \<longleftrightarrow>
     distinct (map (\<lambda>k. (nk_node k, nk_principal_type k, nk_principal k)) rows) \<and>
     list_all (\<lambda>k. \<not> list_ex (same_principal k) (node_keys db)) rows \<and>
     list_all (\<lambda>k. case nk_inherited_from k of None \<Rightarrow> True | Some a \<Rightarrow> a \<in> node_id ` set (nodes db)) rows"

section \<open>Preconditions of a content write\<close>

record content_base =
  cb_version :: "uuid option"
  cb_epoch :: int
  cb_legacy :: bool

text \<open>The headers are undefined or texts; \<open>uuid_of\<close> recognises a version identifier and \<open>safe_int\<close> reads
  a positive decimal number within the safe integers.\<close>

definition contentPreconditions :: "(string \<Rightarrow> bool) \<Rightarrow> (string \<Rightarrow> int option) \<Rightarrow> string option \<Rightarrow> string option \<Rightarrow> bool \<Rightarrow>
    api_error + content_base" where
  "contentPreconditions is_uuid safe_int version epoch legacyCompat =
     (case (version, epoch) of
        (None, None) \<Rightarrow>
          if legacyCompat then Inr \<lparr>cb_version = None, cb_epoch = 0, cb_legacy = True\<rparr> else Inl (clientOutdated 428)
      | (Some v, Some e) \<Rightarrow>
          if v \<noteq> ''null'' \<and> \<not> is_uuid v then Inl badRequest
          else (case safe_int e of
             None \<Rightarrow> Inl badRequest
           | Some n \<Rightarrow> Inr \<lparr>cb_version = (if v = ''null'' then None else Some (map to_lower v)), cb_epoch = n, cb_legacy = False\<rparr>)
      | _ \<Rightarrow> Inl (ApiError 428 ''precondition_required''))"

definition assertContentBase :: "content_base \<Rightarrow> node_row \<Rightarrow> api_error + unit" where
  "assertContentBase base current =
     (if node_rotation_required current then Inl conflict
      else if cb_legacy base then Inr ()
      else if cb_version base \<noteq> node_current_version current \<or> cb_epoch base \<noteq> node_key_epoch current then Inl conflict
      else Inr ())"

section \<open>Quotas and disk\<close>

record site_settings =
  perUserQuotaBytes :: "nat option"
  versionRetentionDays :: int
  trashRetentionDays :: int
  membersCanCreateSpaces :: bool
  diskMarginPercent :: nat
  set_diskMarginBytes :: nat

definition org_usage :: "database \<Rightarrow> uuid \<Rightarrow> nat" where
  "org_usage db orgId =
     (\<Sum>v\<leftarrow>node_versions db. \<Sum>n\<leftarrow>nodes db. if node_id n = ver_node v \<and> node_org n = orgId then ver_size v else 0)"

definition userUsageBytes :: "database \<Rightarrow> uuid \<Rightarrow> uuid \<Rightarrow> nat" where
  "userUsageBytes db orgId userId =
     (\<Sum>v\<leftarrow>node_versions db. \<Sum>n\<leftarrow>nodes db.
        if node_id n = ver_node v \<and> node_org n = orgId \<and> node_owner n = userId then ver_size v else 0)"

definition effectiveUserQuota :: "site_settings \<Rightarrow> database \<Rightarrow> uuid \<Rightarrow> uuid \<Rightarrow> nat option" where
  "effectiveUserQuota site db orgId userId =
     (case queryOne (filter (\<lambda>m. mem_org m = orgId \<and> mem_user m = userId) (memberships db)) of
        None \<Rightarrow> perUserQuotaBytes site
      | Some m \<Rightarrow> (case mem_quota m of Some q \<Rightarrow> Some q | None \<Rightarrow> perUserQuotaBytes site))"

definition assertUserQuota :: "site_settings \<Rightarrow> database \<Rightarrow> uuid \<Rightarrow> uuid \<Rightarrow> nat \<Rightarrow> api_error + unit" where
  "assertUserQuota site db orgId ownerUserId addBytes =
     (case effectiveUserQuota site db orgId ownerUserId of
        None \<Rightarrow> Inr ()
      | Some quota \<Rightarrow> if userUsageBytes db orgId ownerUserId + addBytes > quota then Inl insufficientStorage else Inr ())"

definition assertOrgQuota :: "database \<Rightarrow> uuid \<Rightarrow> nat \<Rightarrow> api_error + unit" where
  "assertOrgQuota db orgId addBytes =
     (case queryOne (filter (\<lambda>r. org_id r = orgId) (orgs db)) of
        None \<Rightarrow> Inr ()
      | Some r \<Rightarrow>
          (case org_quota r of
             None \<Rightarrow> Inr ()
           | Some quota \<Rightarrow> if org_usage db orgId + addBytes > quota then Inl insufficientStorage else Inr ()))"

definition diskMarginBytes :: "nat \<Rightarrow> site_settings \<Rightarrow> nat" where
  "diskMarginBytes capacity s = max (capacity * diskMarginPercent s div 100) (set_diskMarginBytes s)"

definition assertDiskSpace :: "site_settings \<Rightarrow> (nat \<times> nat) option \<Rightarrow> nat \<Rightarrow> api_error + unit" where
  "assertDiskSpace site stats addBytes =
     (case stats of
        None \<Rightarrow> Inr ()
      | Some (capacity, free) \<Rightarrow>
          if int free - int addBytes < int (diskMarginBytes capacity site) then Inl insufficientStorage else Inr ())"

section \<open>Placement at the root\<close>

definition requireRootPlacement :: "site_settings \<Rightarrow> database \<Rightarrow> auth_user option \<Rightarrow> uuid \<Rightarrow> api_error + unit" where
  "requireRootPlacement site db u orgId =
     (case requireOrgPerm db u orgId ''space.create'' of
        Inr _ \<Rightarrow> Inr ()
      | Inl e \<Rightarrow>
          if statusCode e \<noteq> 403 then Inl e
          else if \<not> membersCanCreateSpaces site then Inl e
          else (case requireMembership db u orgId of Inl e' \<Rightarrow> Inl e' | Inr _ \<Rightarrow> Inr ()))"

section \<open>Updating rows\<close>

definition on_node :: "uuid \<Rightarrow> (node_row \<Rightarrow> node_row) \<Rightarrow> node_row list \<Rightarrow> node_row list" where
  "on_node i f ns = map (\<lambda>n. if node_id n = i then f n else n) ns"

text \<open>Deleting a node cascades to its descendants and to the rows that reference any of them.\<close>

definition delete_node :: "uuid \<Rightarrow> database \<Rightarrow> database" where
  "delete_node i db =
     (let D = subtree (nodes db) i;
          dead = [l. l \<leftarrow> share_links db, sl_node l \<in> set D]
      in db\<lparr>nodes := filter (\<lambda>n. node_id n \<notin> set D) (nodes db),
            node_keys := map (\<lambda>k. case nk_inherited_from k of
                               Some a \<Rightarrow> if a \<in> set D then k\<lparr>nk_inherited_from := None\<rparr> else k
                             | None \<Rightarrow> k) (filter (\<lambda>k. nk_node k \<notin> set D) (node_keys db)),
            node_versions := filter (\<lambda>v. ver_node v \<notin> set D) (node_versions db),
            share_links := filter (\<lambda>l. sl_node l \<notin> set D) (share_links db),
            sign_parties := filter (\<lambda>p. party_link p \<notin> sl_id ` set dead) (sign_parties db)\<rparr>)"

definition delete_blobs :: "string list \<Rightarrow> database \<Rightarrow> database" where
  "delete_blobs refs db = db\<lparr>blobs := filter (\<lambda>r. r \<notin> set refs) (blobs db)\<rparr>"

definition subtreeBlobRefs :: "database \<Rightarrow> uuid \<Rightarrow> string list" where
  "subtreeBlobRefs db i =
     (let D = subtree (nodes db) i
      in remdups ([r. n \<leftarrow> nodes db, node_id n \<in> set D, r \<leftarrow> (case node_content n of None \<Rightarrow> [] | Some r \<Rightarrow> [r]), r \<noteq> []] @
                  [ver_content v. v \<leftarrow> node_versions db, ver_node v \<in> set D, ver_content v \<noteq> []]))"

end
