(* ===== verification/Drive_Nodes.thy ===== *)
theory Drive_Nodes
  imports Drive_Base
begin

text \<open>
  The handlers of \<^verbatim>\<open>server/src/routes/nodes.ts\<close>: the tree of folders and files, their wrapped keys, the
  trash, the rotation of a node's key and the encrypted contents. Answers carry the rows; their
  rendering as JSON (\<^verbatim>\<open>nodeMetaDto\<close>) is not modelled.
\<close>

section \<open>Creation\<close>

record create_body =
  cn_orgKeyEpoch :: "int option"
  cn_org :: uuid
  cn_parent :: "uuid option"
  cn_kind :: node_kind
  cn_name :: string
  cn_nameNonce :: string
  cn_meta :: "string option"
  cn_metaNonce :: "string option"
  cn_appKind :: "string option"
  cn_shares :: "key_share list"

definition opt_ok :: "('a \<Rightarrow> bool) \<Rightarrow> 'a option \<Rightarrow> bool" where
  "opt_ok p v = (case v of None \<Rightarrow> True | Some x \<Rightarrow> p x)"

definition create_schema :: "create_body \<Rightarrow> bool" where
  "create_schema b \<longleftrightarrow> opt_ok (\<lambda>e. 0 \<le> e) (cn_orgKeyEpoch b) \<and> lower_hex (cn_name b) \<and> lower_hex (cn_nameNonce b) \<and>
     opt_ok lower_hex (cn_meta b) \<and> opt_ok lower_hex (cn_metaNonce b) \<and> opt_ok (\<lambda>s. length s \<le> 24) (cn_appKind b) \<and>
     shares_schema (cn_shares b)"

text \<open>An absent or empty text becomes \<^verbatim>\<open>NULL\<close>.\<close>

definition hex_or_null :: "string option \<Rightarrow> 8 word list option" where
  "hex_or_null v = (case v of None \<Rightarrow> None | Some s \<Rightarrow> if s = [] then None else Some (hex_buffer s))"

definition new_node :: "create_body \<Rightarrow> uuid \<Rightarrow> uuid \<Rightarrow> int \<Rightarrow> node_row" where
  "new_node b i owner now =
     \<lparr>node_id = i, node_org = cn_org b, node_owner = owner, node_parent = cn_parent b, node_kind = cn_kind b,
      node_trashed_at = None, node_content = None, node_content_nonce = None, node_size = 0, node_current_version = None,
      node_key_epoch = 1, node_rotation_required = False,
      node_body = \<lparr>nb_name = hex_buffer (cn_name b), nb_name_nonce = hex_buffer (cn_nameNonce b),
        nb_meta = hex_or_null (cn_meta b), nb_meta_nonce = hex_or_null (cn_metaNonce b), nb_app_kind = cn_appKind b,
        nb_prev_key = None, nb_prev_nonce = None, nb_created_at = now, nb_modified_at = now, nb_modified_by = Some owner\<rparr>\<rparr>"

definition create_place :: "site_settings \<Rightarrow> database \<Rightarrow> auth_user option \<Rightarrow> create_body \<Rightarrow> api_error + unit" where
  "create_place site db u b =
     (case cn_parent b of
        Some p \<Rightarrow> (case requireNodePerm db u p ''node.create'' of
                     Inl e \<Rightarrow> Inl e
                   | Inr parent \<Rightarrow> when_ok (na_orgId parent = cn_org b) badRequest)
      | None \<Rightarrow> requireRootPlacement site db u (cn_org b))"

definition has_user_share :: "uuid \<Rightarrow> key_share list \<Rightarrow> bool" where
  "has_user_share i = list_ex (\<lambda>s. sh_type s = UserPrincipal \<and> sh_principal s = i)"

definition create_node :: "site_settings \<Rightarrow> bool \<Rightarrow> (nat \<Rightarrow> uuid) \<Rightarrow> int \<Rightarrow> database \<Rightarrow> auth_user option \<Rightarrow> create_body \<Rightarrow>
    node_row handled" where
  "create_node site legacyCompat fresh now db u b =
     check db (when_ok (create_schema b) validation) (\<lambda>_.
     check db (requireUser u) (\<lambda>user.
     check db (create_place site db u b) (\<lambda>_.
     check db (when_ok (has_user_share (au_id user) (cn_shares b)) badRequest) (\<lambda>_.
     check db (each_ok (\<lambda>s. validateRole db (sh_role s) (cn_org b)) (cn_shares b)) (\<lambda>_.
     check db (assertFreshPrincipalKeys db (cn_org b) (cn_shares b) (cn_orgKeyEpoch b) legacyCompat) (\<lambda>legacy.
       let n = new_node b (fresh 0) (au_id user) now;
           db1 = db\<lparr>nodes := nodes db @ [n]\<rparr>;
           rows = share_rows fresh (node_id n) (au_id user) (cn_shares b)
       in check db (when_ok (keys_insertable db1 rows) internal_error) (\<lambda>_.
            (Inr n, db1\<lparr>node_keys := node_keys db1 @ rows\<rparr>,
             [AuditEntry (Some (cn_org b)) (Some (au_id user)) ''node.create'' (node_id n), NotifyMembers (cn_org b)] @
             (if legacy then [Deprecated] else [])))))))))"

section \<open>Reading\<close>

definition myKeyShare :: "database \<Rightarrow> uuid \<Rightarrow> uuid list \<Rightarrow> uuid \<Rightarrow> node_key_row option" where
  "myKeyShare db userId groupIds nodeId =
     (let rows = filter (\<lambda>k. nk_node k = nodeId) (node_keys db)
      in queryOne (filter (\<lambda>k. nk_principal_type k = UserPrincipal \<and> nk_principal k = userId) rows @
                   filter (\<lambda>k. nk_principal_type k = GroupPrincipal \<and> nk_principal k \<in> set groupIds) rows))"

definition node_by_id :: "database \<Rightarrow> uuid \<Rightarrow> node_row option" where
  "node_by_id db i = queryOne (filter (\<lambda>n. node_id n = i) (nodes db))"

definition get_node :: "database \<Rightarrow> auth_user option \<Rightarrow> uuid \<Rightarrow> (node_row \<times> string option \<times> string list) handled" where
  "get_node db u i =
     check db (requireNodePerm db u i ''node.view'') (\<lambda>access.
     check db (requireUser u) (\<lambda>user.
       (case node_by_id db i of
          None \<Rightarrow> stop db notFound
        | Some n \<Rightarrow> (Inr (n, map_option nk_wrapped (myKeyShare db (au_id user) (userGroupIds db (au_id user) (na_orgId access)) i),
                          na_permissions access), db, []))))"

text \<open>The cursor carries the kind, the creation time as an ISO text, hence in milliseconds, and the
  identifier of the last row of a page.\<close>

type_synonym list_cursor = "node_kind \<times> int \<times> uuid"

definition kind_rank :: "node_kind \<Rightarrow> nat" where
  "kind_rank k = (case k of File \<Rightarrow> 0 | Folder \<Rightarrow> 1)"

definition encodeListCursor :: "node_row \<Rightarrow> list_cursor" where
  "encodeListCursor n = (node_kind n, nb_created_at (node_body n) div 1000, node_id n)"

definition after_cursor :: "list_cursor option \<Rightarrow> node_row \<Rightarrow> bool" where
  "after_cursor cursor n =
     (case cursor of
        None \<Rightarrow> True
      | Some (k, ms, i) \<Rightarrow>
          kind_rank (node_kind n) < kind_rank k \<or>
          node_kind n = k \<and> nb_created_at (node_body n) > ms * 1000 \<or>
          node_kind n = k \<and> nb_created_at (node_body n) = ms * 1000 \<and> node_id n > i)"

definition list_order :: "node_row \<Rightarrow> nat \<times> int \<times> uuid" where
  "list_order n = (1 - kind_rank (node_kind n), nb_created_at (node_body n), node_id n)"

record list_query =
  lq_org :: uuid
  lq_parent :: "uuid option"
  lq_trashed :: bool
  lq_limit :: nat
  lq_cursor :: "list_cursor option option" \<comment> \<open>\<open>Some None\<close>: a text that does not decode\<close>

definition children_of :: "database \<Rightarrow> uuid \<Rightarrow> list_query \<Rightarrow> node_row list" where
  "children_of db userId q =
     sort_key list_order
       (filter (\<lambda>n. node_org n = lq_org q \<and> node_parent n = lq_parent q \<and> (node_trashed_at n \<noteq> None) = lq_trashed q \<and>
                    myKeyShare db userId (userGroupIds db userId (lq_org q)) (node_id n) \<noteq> None) (nodes db))"

definition list_children :: "database \<Rightarrow> auth_user option \<Rightarrow> list_query \<Rightarrow> (node_row list \<times> list_cursor option) handled" where
  "list_children db u q =
     check db (when_ok (1 \<le> lq_limit q \<and> lq_limit q \<le> 5000) validation) (\<lambda>_.
     check db (requireUser u) (\<lambda>user.
     check db (case lq_parent q of
                 Some p \<Rightarrow> map_sum id (\<lambda>_. ()) (requireNodePerm db u p ''node.view'')
               | None \<Rightarrow> map_sum id (\<lambda>_. ()) (requireMembership db u (lq_org q))) (\<lambda>_.
     check db (when_ok (lq_cursor q \<noteq> Some None) badRequest) (\<lambda>_.
       let cursor = (case lq_cursor q of Some (Some c) \<Rightarrow> Some c | _ \<Rightarrow> None);
           page = take (lq_limit q) (filter (after_cursor cursor) (children_of db (au_id user) q));
           next_cursor = (if length page = lq_limit q \<and> page \<noteq> [] then Some (encodeListCursor (last page)) else None)
       in (Inr (page, next_cursor), db, [])))))"

text \<open>The trash: most recently trashed first.\<close>

definition list_trash :: "database \<Rightarrow> auth_user option \<Rightarrow> uuid \<Rightarrow> node_row list handled" where
  "list_trash db u orgId =
     check db (requireUser u) (\<lambda>user.
     check db (requireMembership db u orgId) (\<lambda>_.
       (Inr (sort_key (\<lambda>n. case node_trashed_at n of Some t \<Rightarrow> - t | None \<Rightarrow> 0)
               (filter (\<lambda>n. node_org n = orgId \<and> node_trashed_at n \<noteq> None \<and>
                  myKeyShare db (au_id user) (userGroupIds db (au_id user) orgId) (node_id n) \<noteq> None) (nodes db))), db, [])))"

section \<open>Renaming and moving\<close>

record patch_body =
  pb_name :: "string option"
  pb_nameNonce :: "string option"
  pb_meta :: "string option"
  pb_metaNonce :: "string option"
  pb_parent :: "uuid option option"

definition patch_schema :: "patch_body \<Rightarrow> bool" where
  "patch_schema b \<longleftrightarrow> opt_ok lower_hex (pb_name b) \<and> opt_ok lower_hex (pb_nameNonce b) \<and>
     opt_ok lower_hex (pb_meta b) \<and> opt_ok lower_hex (pb_metaNonce b)"

definition move_check :: "site_settings \<Rightarrow> database \<Rightarrow> auth_user option \<Rightarrow> uuid \<Rightarrow> uuid option \<Rightarrow> api_error + unit" where
  "move_check site db u i parent =
     (case requireNodePerm db u i ''node.move'' of
        Inl e \<Rightarrow> Inl e
      | Inr access \<Rightarrow>
          (case parent of
             None \<Rightarrow> requireRootPlacement site db u (na_orgId access)
           | Some p \<Rightarrow>
               (case requireNodePerm db u p ''node.create'' of
                  Inl e \<Rightarrow> Inl e
                | Inr target \<Rightarrow>
                    if na_orgId target \<noteq> na_orgId access then Inl badRequest
                    else if p = i then Inl badRequest
                    else if p \<in> set (subtree (nodes db) i) then Inl badRequest
                    else Inr ())))"

text \<open>The checks read the database before the transaction.\<close>

definition patch_checks :: "site_settings \<Rightarrow> database \<Rightarrow> auth_user option \<Rightarrow> uuid \<Rightarrow> patch_body \<Rightarrow> api_error + auth_user" where
  "patch_checks site db u i b =
     (if \<not> patch_schema b then Inl validation
      else case requireUser u of Inl e \<Rightarrow> Inl e
      | Inr user \<Rightarrow>
          (case (if pb_name b \<noteq> None \<or> pb_meta b \<noteq> None then map_sum id (\<lambda>_. ()) (requireNodePerm db u i ''node.rename'') else Inr ()) of
             Inl e \<Rightarrow> Inl e
           | Inr _ \<Rightarrow>
               (case pb_parent b of
                  None \<Rightarrow> Inr user
                | Some parent \<Rightarrow> (case move_check site db u i parent of Inl e \<Rightarrow> Inl e | Inr _ \<Rightarrow> Inr user))))"

definition hex_or_empty :: "string option \<Rightarrow> 8 word list" where
  "hex_or_empty v = hex_buffer (case v of None \<Rightarrow> [] | Some s \<Rightarrow> s)"

definition patched :: "patch_body \<Rightarrow> uuid \<Rightarrow> int \<Rightarrow> node_row \<Rightarrow> node_row" where
  "patched b userId now n =
     (let body = (node_body n)\<lparr>nb_modified_at := now, nb_modified_by := Some userId\<rparr>;
          body1 = (case pb_name b of None \<Rightarrow> body
                   | Some s \<Rightarrow> body\<lparr>nb_name := hex_buffer s, nb_name_nonce := hex_or_empty (pb_nameNonce b)\<rparr>);
          body2 = (case pb_meta b of None \<Rightarrow> body1
                   | Some s \<Rightarrow> body1\<lparr>nb_meta := Some (hex_buffer s), nb_meta_nonce := Some (hex_or_empty (pb_metaNonce b))\<rparr>)
      in case pb_parent b of None \<Rightarrow> n\<lparr>node_body := body2\<rparr>
         | Some parent \<Rightarrow> n\<lparr>node_body := body2, node_parent := parent\<rparr>)"

text \<open>The transaction; a parent that is gone violates the foreign key.\<close>

definition patch_write :: "database \<Rightarrow> auth_user \<Rightarrow> uuid \<Rightarrow> patch_body \<Rightarrow> int \<Rightarrow> node_row handled" where
  "patch_write db user i b now =
     (case node_by_id db i of
        None \<Rightarrow> stop db conflict
      | Some n \<Rightarrow>
          if node_rotation_required n then stop db conflict
          else if (case pb_parent b of Some (Some p) \<Rightarrow> p \<notin> node_id ` set (nodes db) | _ \<Rightarrow> False) then stop db internal_error
          else let ns = on_node i (patched b (au_id user) now) (nodes db);
                   D = (if pb_parent b = None then [] else subtree ns i);
                   dropped = filter (\<lambda>k. nk_node k \<in> set D \<and> nk_inherited_from k \<noteq> None) (node_keys db);
                   db' = db\<lparr>nodes := ns, node_keys := filter (\<lambda>k. \<not> (nk_node k \<in> set D \<and> nk_inherited_from k \<noteq> None)) (node_keys db)\<rparr>
               in (Inr (patched b (au_id user) now n), db',
                   map (\<lambda>j. KickNode j ''node-moved'') (set_of_list (map nk_node dropped)) @
                   [AuditEntry (Some (node_org n)) (Some (au_id user)) ''node.update'' i, NotifyMembers (node_org n)]))"

definition patch_node :: "site_settings \<Rightarrow> int \<Rightarrow> database \<Rightarrow> auth_user option \<Rightarrow> uuid \<Rightarrow> patch_body \<Rightarrow> node_row handled" where
  "patch_node site now db u i b = check db (patch_checks site db u i b) (\<lambda>user. patch_write db user i b now)"

section \<open>Trash\<close>

definition trash_node :: "int \<Rightarrow> database \<Rightarrow> auth_user option \<Rightarrow> uuid \<Rightarrow> unit handled" where
  "trash_node now db u i =
     check db (requireNodePerm db u i ''node.delete'') (\<lambda>access.
     check db (requireUser u) (\<lambda>user.
       let ns = on_node i (\<lambda>n. if node_trashed_at n = None then n\<lparr>node_trashed_at := Some now\<rparr> else n) (nodes db)
       in (Inr (), db\<lparr>nodes := ns\<rparr>,
           map (\<lambda>j. KickNode j ''node-trashed'') (subtree ns i) @
           [AuditEntry (Some (na_orgId access)) (Some (au_id user)) ''node.trash'' i, NotifyMembers (na_orgId access)])))"

definition restore_node :: "database \<Rightarrow> auth_user option \<Rightarrow> uuid \<Rightarrow> unit handled" where
  "restore_node db u i =
     check db (requireNodePerm db u i ''node.restore'') (\<lambda>access.
     check db (requireUser u) (\<lambda>user.
       (Inr (), db\<lparr>nodes := on_node i (\<lambda>n. n\<lparr>node_trashed_at := None\<rparr>) (nodes db)\<rparr>,
        [AuditEntry (Some (na_orgId access)) (Some (au_id user)) ''node.restore'' i, NotifyMembers (na_orgId access)])))"

definition purge_node :: "database \<Rightarrow> auth_user option \<Rightarrow> uuid \<Rightarrow> unit handled" where
  "purge_node db u i =
     check db (requireNodePerm db u i ''node.restore'') (\<lambda>access.
     check db (requireUser u) (\<lambda>user.
       (case node_by_id db i of
          None \<Rightarrow> stop db notFound
        | Some n \<Rightarrow>
            if node_trashed_at n = None then stop db badRequest
            else (Inr (), delete_blobs (subtreeBlobRefs db i) (delete_node i db),
                  [AuditEntry (Some (na_orgId access)) (Some (au_id user)) ''node.purge'' i, NotifyMembers (na_orgId access)]))))"

section \<open>Key rotation\<close>

record rotate_body =
  rb_orgKeyEpoch :: "int option"
  rb_name :: string
  rb_nameNonce :: string
  rb_meta :: "string option"
  rb_metaNonce :: "string option"
  rb_prevKey :: "string option"
  rb_prevNonce :: "string option"
  rb_expectedEpoch :: "int option"
  rb_shares :: "key_share list"

definition rotate_schema :: "rotate_body \<Rightarrow> bool" where
  "rotate_schema b \<longleftrightarrow> opt_ok (\<lambda>e. 0 \<le> e) (rb_orgKeyEpoch b) \<and> lower_hex (rb_name b) \<and> 2 \<le> length (rb_name b) \<and>
     lower_hex (rb_nameNonce b) \<and> 2 \<le> length (rb_nameNonce b) \<and> opt_ok lower_hex (rb_meta b) \<and> opt_ok lower_hex (rb_metaNonce b) \<and>
     opt_ok lower_hex (rb_prevKey b) \<and> opt_ok lower_hex (rb_prevNonce b) \<and> opt_ok (\<lambda>e. 0 < e) (rb_expectedEpoch b) \<and>
     shares_schema (rb_shares b)"

definition roles_valid :: "database \<Rightarrow> uuid \<Rightarrow> uuid list \<Rightarrow> bool" where
  "roles_valid db orgId ids \<longleftrightarrow>
     length (filter (\<lambda>r. role_id r \<in> set ids \<and> (role_org r = Some orgId \<or> role_org r = None)) (roles db)) = length (remdups ids)"

definition rotated :: "rotate_body \<Rightarrow> uuid \<Rightarrow> int \<Rightarrow> node_row \<Rightarrow> node_row" where
  "rotated b userId now n = n\<lparr>node_key_epoch := node_key_epoch n + 1, node_rotation_required := False,
     node_body := (node_body n)\<lparr>nb_name := hex_buffer (rb_name b), nb_name_nonce := hex_buffer (rb_nameNonce b),
       nb_meta := hex_or_null (rb_meta b), nb_meta_nonce := hex_or_null (rb_metaNonce b),
       nb_prev_key := hex_or_null (rb_prevKey b), nb_prev_nonce := hex_or_null (rb_prevNonce b),
       nb_modified_at := now, nb_modified_by := Some userId\<rparr>\<rparr>"

definition revoke_links :: "uuid \<Rightarrow> int \<Rightarrow> link_row list \<Rightarrow> link_row list" where
  "revoke_links i now = map (\<lambda>l. if sl_node l = i \<and> sl_revoked_at l = None then l\<lparr>sl_revoked_at := Some now\<rparr> else l)"

definition rotate_node :: "bool \<Rightarrow> (nat \<Rightarrow> uuid) \<Rightarrow> int \<Rightarrow> database \<Rightarrow> auth_user option \<Rightarrow> uuid \<Rightarrow> rotate_body \<Rightarrow>
    (node_row \<times> nat) handled" where
  "rotate_node legacyCompat fresh now db u i b =
     check db (when_ok (rotate_schema b) validation) (\<lambda>_.
     check db (requireUser u) (\<lambda>user.
     check db (requireNodePerm db u i ''node.acl.manage'') (\<lambda>access.
     check db (requireNodePerm db u i ''node.share.manage'') (\<lambda>_.
     check db (when_ok (has_user_share (na_ownerUserId access) (rb_shares b)) badRequest) (\<lambda>_.
     check db (when_ok (roles_valid db (na_orgId access) (map sh_role (rb_shares b))) badRequest) (\<lambda>_.
     check db (assertFreshPrincipalKeys db (na_orgId access) (rb_shares b) (rb_orgKeyEpoch b) legacyCompat) (\<lambda>legacy.
       (case node_by_id db i of
          None \<Rightarrow> stop db notFound
        | Some n \<Rightarrow>
            if rb_expectedEpoch b \<noteq> None \<and> rb_expectedEpoch b \<noteq> Some (node_key_epoch n) then stop db conflict
            else if list_ex (\<lambda>k. nk_node k = i \<and> nk_principal_type k = OrgPrincipal) (node_keys db) \<and>
                    \<not> list_ex (\<lambda>s. sh_type s = OrgPrincipal \<and> sh_principal s = na_orgId access) (rb_shares b)
            then stop db badRequest
            else let rows = share_rows fresh i (au_id user) (rb_shares b);
                     db1 = db\<lparr>node_keys := filter (\<lambda>k. nk_node k \<noteq> i) (node_keys db)\<rparr>;
                     links = filter (\<lambda>l. sl_node l = i \<and> sl_revoked_at l = None) (share_links db)
                 in check db (when_ok (keys_insertable db1 rows) internal_error) (\<lambda>_.
                      (Inr (rotated b (au_id user) now n, length links),
                       db1\<lparr>node_keys := node_keys db1 @ rows, share_links := revoke_links i now (share_links db),
                           nodes := on_node i (rotated b (au_id user) now) (nodes db)\<rparr>,
                       [KickNode i ''rekeyed'', AuditEntry (Some (na_orgId access)) (Some (au_id user)) ''node.key.rotate'' i] @
                       (if legacy then [Deprecated] else []))))))))))) "

section \<open>Contents\<close>

text \<open>An upload: \<open>announced\<close> is the announced length, \<open>stored\<close> what streaming the body to the store under
  the fresh key \<open>blob\<close> returned, nothing when it exceeded the limit, and \<open>disk\<close> the disk before and
  after. A refused upload leaves no blob behind.\<close>

record upload_request =
  uq_nonce :: string
  uq_has_body :: bool
  uq_version :: "string option"
  uq_epoch :: "string option"
  uq_announced :: nat
  uq_stored :: "nat option"
  uq_disk_before :: "(nat \<times> nat) option"
  uq_disk_after :: "(nat \<times> nat) option"

definition content_nonce_ok :: "string \<Rightarrow> bool" where
  "content_nonce_ok s \<longleftrightarrow> length s = 24 \<and> lower_hex s"

definition next_version_no :: "database \<Rightarrow> uuid \<Rightarrow> nat" where
  "next_version_no db i = Max (insert 0 (ver_no ` set (filter (\<lambda>v. ver_node v = i) (node_versions db)))) + 1"

definition upload_tx :: "site_settings \<Rightarrow> uuid \<Rightarrow> string \<Rightarrow> int \<Rightarrow> database \<Rightarrow> uuid \<Rightarrow> uuid \<Rightarrow> uuid \<Rightarrow> content_base \<Rightarrow> string \<Rightarrow> nat \<Rightarrow>
    (api_error + node_row) \<times> database" where
  "upload_tx site verId blob now db userId orgId i base nonce nbytes =
     (case node_by_id db i of
        None \<Rightarrow> (Inl notFound, db)
      | Some n \<Rightarrow>
          (case assertContentBase base n of
             Inl e \<Rightarrow> (Inl e, db)
           | Inr _ \<Rightarrow>
               (case assertOrgQuota db orgId nbytes of
                  Inl e \<Rightarrow> (Inl e, db)
                | Inr _ \<Rightarrow>
                    (case assertUserQuota site db orgId (node_owner n) nbytes of
                       Inl e \<Rightarrow> (Inl e, db)
                     | Inr _ \<Rightarrow>
                         (let v = \<lparr>ver_id = verId, ver_node = i, ver_no = next_version_no db i, ver_content = blob,
                                   ver_nonce = hex_buffer nonce, ver_size = nbytes, ver_created_by = Some userId,
                                   ver_created_at = now, ver_key_epoch = node_key_epoch n\<rparr>;
                              upd = (\<lambda>m. m\<lparr>node_content := Some blob, node_content_nonce := Some (hex_buffer nonce),
                                           node_size := nbytes, node_current_version := Some verId,
                                           node_body := (node_body m)\<lparr>nb_modified_at := now, nb_modified_by := Some userId\<rparr>\<rparr>)
                          in (Inr (upd n), db\<lparr>node_versions := node_versions db @ [v], nodes := on_node i upd (nodes db),
                                              blobs := blobs db @ [blob]\<rparr>))))))"

definition upload_content :: "site_settings \<Rightarrow> bool \<Rightarrow> (string \<Rightarrow> bool) \<Rightarrow> (string \<Rightarrow> int option) \<Rightarrow> uuid \<Rightarrow> string \<Rightarrow> int \<Rightarrow>
    database \<Rightarrow> auth_user option \<Rightarrow> uuid \<Rightarrow> upload_request \<Rightarrow> node_row handled" where
  "upload_content site legacyCompat is_uuid safe_int verId blob now db u i q =
     check db (requireNodePerm db u i ''node.edit'') (\<lambda>access.
     check db (requireUser u) (\<lambda>user.
     check db (when_ok (na_kind access = File) badRequest) (\<lambda>_.
     check db (when_ok (content_nonce_ok (uq_nonce q)) badRequest) (\<lambda>_.
     check db (when_ok (uq_has_body q) badRequest) (\<lambda>_.
     check db (contentPreconditions is_uuid safe_int (uq_version q) (uq_epoch q) legacyCompat) (\<lambda>base.
     check db (assertDiskSpace site (uq_disk_before q) (uq_announced q)) (\<lambda>_.
       (case uq_stored q of
          None \<Rightarrow> stop db tooLarge
        | Some nbytes \<Rightarrow>
            check db (assertDiskSpace site (uq_disk_after q) nbytes) (\<lambda>_.
              (case upload_tx site verId blob now db (au_id user) (na_orgId access) i base (uq_nonce q) nbytes of
                 (Inl e, _) \<Rightarrow> stop db e
               | (Inr n, db') \<Rightarrow>
                   (Inr n, db', [AuditEntry (Some (na_orgId access)) (Some (au_id user)) ''node.content.update'' i,
                                 NotifyMembers (na_orgId access)] @ (if cb_legacy base then [Deprecated] else [])))))))))))) "

definition download_content :: "database \<Rightarrow> auth_user option \<Rightarrow> uuid \<Rightarrow> (string \<times> uuid option \<times> int \<times> 8 word list option) handled" where
  "download_content db u i =
     check db (requireNodePerm db u i ''node.download'') (\<lambda>_.
       (case node_by_id db i of
          None \<Rightarrow> stop db notFound
        | Some n \<Rightarrow>
            (case node_content n of
               None \<Rightarrow> stop db notFound
             | Some ref \<Rightarrow> if ref = [] then stop db notFound
                           else (Inr (ref, node_current_version n, node_key_epoch n, node_content_nonce n), db, []))))"

end
