(* ===== verification/Drive_Tree.thy ===== *)
theory Drive_Tree
  imports Drive_Nodes
begin

text \<open>
  The tree of nodes: what the descending queries return, and the facts about parent links that the
  handlers preserve.
\<close>

section \<open>Descendants\<close>

definition child_step :: "node_row list \<Rightarrow> (uuid \<times> uuid) set" where
  "child_step ns = {(w, node_id n) |n w. n \<in> set ns \<and> node_parent n = Some w}"

interpretation sub: recursive_query "sub_rec ns" "sub_round ns" "child_step ns" for ns
proof unfold_locales
  show "sub_rec ns R W = (if W = [] then R else sub_rec ns (R @ sub_round ns R W) (sub_round ns R W))" for R W
    by (subst sub_rec.simps) (simp add: Let_def)
  show "set (sub_round ns R W) = child_step ns `` set W - set R" for R W
    by (auto simp: set_sub_round child_step_def)
  have "Range (child_step ns) \<subseteq> node_id ` set ns" by (auto simp: child_step_def)
  then show "finite (Range (child_step ns))" by (rule finite_subset) simp
qed

lemma child_step_parent: "i \<in> node_id ` set ns \<Longrightarrow> (i, d) \<in> (child_step ns)\<^sup>* \<longleftrightarrow> (d, i) \<in> (parent_of ns)\<^sup>*"
proof
  assume i: "i \<in> node_id ` set ns" and "(i, d) \<in> (child_step ns)\<^sup>*"
  from this(2) have "(d, i) \<in> (parent_of ns)\<^sup>* \<and> d \<in> node_id ` set ns"
  proof (induction rule: rtrancl_induct)
    case (step y z)
    then have "(z, y) \<in> parent_of ns" "z \<in> node_id ` set ns"
      by (auto simp: child_step_def intro!: parent_ofI)
    with step.IH show ?case by (meson converse_rtrancl_into_rtrancl)
  qed (use i in simp)
  then show "(d, i) \<in> (parent_of ns)\<^sup>*" ..
next
  assume "(d, i) \<in> (parent_of ns)\<^sup>*"
  then show "(i, d) \<in> (child_step ns)\<^sup>*"
  proof (induction rule: converse_rtrancl_induct)
    case (step y z)
    then have "(z, y) \<in> child_step ns" by (force simp: child_step_def parent_of_def)
    with step.IH show ?case by (meson rtrancl_into_rtrancl)
  qed simp
qed

lemma set_subtrees: "set (subtrees ns ids) = {d. \<exists>i\<in>set ids. i \<in> node_id ` set ns \<and> (d, i) \<in> (parent_of ns)\<^sup>*}"
proof -
  let ?start = "remdups [node_id n. n \<leftarrow> ns, node_id n \<in> set ids]"
  have start: "set ?start = {i \<in> set ids. i \<in> node_id ` set ns}" by auto
  have "set (subtrees ns ids) = (child_step ns)\<^sup>* `` set ?start"
    unfolding subtrees_def Let_def by (rule sub.query)
  also have "\<dots> = {d. \<exists>i\<in>set ids. i \<in> node_id ` set ns \<and> (d, i) \<in> (parent_of ns)\<^sup>*}"
    unfolding start using child_step_parent by blast
  finally show ?thesis .
qed

lemma set_subtree: "set (subtree ns i) = {d. i \<in> node_id ` set ns \<and> (d, i) \<in> (parent_of ns)\<^sup>*}"
  by (simp add: subtree_def set_subtrees)

lemma set_strict_subtree:
  assumes "i \<in> node_id ` set ns"
  shows "set (strict_subtree ns i) = {d. (d, i) \<in> (parent_of ns)\<^sup>+}"
proof -
  let ?start = "remdups [node_id n. n \<leftarrow> ns, node_parent n = Some i]"
  have start: "set ?start = child_step ns `` {i}" by (auto simp: child_step_def)
  have "set (strict_subtree ns i) = (child_step ns)\<^sup>* `` set ?start"
    unfolding strict_subtree_def Let_def by (rule sub.query)
  also have "\<dots> = {d. (i, d) \<in> (child_step ns)\<^sup>+}"
    unfolding start by (auto simp: trancl_unfold_left)
  also have "\<dots> = {d. (d, i) \<in> (parent_of ns)\<^sup>+}"
  proof -
    have "(i, d) \<in> (child_step ns)\<^sup>+ \<longleftrightarrow> (d, i) \<in> (parent_of ns)\<^sup>+" for d
    proof
      assume "(i, d) \<in> (child_step ns)\<^sup>+"
      then obtain y where y: "(i, y) \<in> (child_step ns)\<^sup>*" "(y, d) \<in> child_step ns" by (meson tranclD2)
      with assms have "(y, i) \<in> (parent_of ns)\<^sup>*" by (simp add: child_step_parent)
      moreover have "y \<in> node_id ` set ns" using y(1) assms by (induction rule: rtrancl_induct) (auto simp: child_step_def)
      then have "(d, y) \<in> parent_of ns" using y(2) by (auto simp: child_step_def intro!: parent_ofI)
      ultimately show "(d, i) \<in> (parent_of ns)\<^sup>+" by (meson rtrancl_into_trancl2)
    next
      assume "(d, i) \<in> (parent_of ns)\<^sup>+"
      then obtain y where "(d, y) \<in> parent_of ns" "(y, i) \<in> (parent_of ns)\<^sup>*" by (meson tranclD)
      moreover have "(y, d) \<in> child_step ns"
        using \<open>(d, y) \<in> parent_of ns\<close> by (auto simp: child_step_def parent_of_def)
      moreover have "(i, y) \<in> (child_step ns)\<^sup>*"
        using \<open>(y, i) \<in> (parent_of ns)\<^sup>*\<close> child_step_parent[OF assms] by simp
      ultimately show "(i, d) \<in> (child_step ns)\<^sup>+" by (meson rtrancl_into_trancl1)
    qed
    then show ?thesis by simp
  qed
  finally show ?thesis .
qed

section \<open>The guards name a node\<close>

lemma requireNodePerm_node:
  assumes "requireNodePerm db u i perm = Inr a"
  obtains n user where "u = Some user" "node_by_id db i = Some n" "n \<in> set (nodes db)" "node_id n = i" "na_orgId a = node_org n"
    "na_ownerUserId a = node_owner n" "na_kind a = node_kind n" "perm \<in> set (na_permissions a)"
    "resolveNodeAccess db (au_id user) i = Some a"
proof -
  obtain user where u: "u = Some user" and a: "resolveNodeAccess db (au_id user) i = Some a" "perm \<in> set (na_permissions a)"
    using assms unfolding requireNodePerm_def requireUser_def
    by (auto simp: nodeHasPermission_def split: option.splits if_splits)
  moreover obtain n where n: "node_by_id db i = Some n" "na_orgId a = node_org n" "na_ownerUserId a = node_owner n" "na_kind a = node_kind n"
    using a(1) unfolding resolveNodeAccess_def node_by_id_def by (auto simp: Let_def split: option.splits)
  moreover have "n \<in> set (nodes db)" "node_id n = i" using n(1) by (auto simp: node_by_id_def dest!: queryOne_Some)
  ultimately show thesis using that by blast
qed

lemma node_by_id_eq:
  "distinct (map node_id (nodes db)) \<Longrightarrow> n \<in> set (nodes db) \<Longrightarrow> node_by_id db (node_id n) = Some n"
proof -
  assume d: "distinct (map node_id (nodes db))" and n: "n \<in> set (nodes db)"
  have "n \<in> set (filter (\<lambda>m. node_id m = node_id n) (nodes db))" using n by auto
  then obtain m where m: "node_by_id db (node_id n) = Some m"
    unfolding node_by_id_def by (metis empty_iff empty_set not_None_eq queryOne_None)
  then have "m \<in> set (nodes db)" "node_id m = node_id n" by (auto simp: node_by_id_def dest!: queryOne_Some)
  then have "m = n" using d n by (auto simp: distinct_map dest: inj_onD)
  with m show ?thesis by simp
qed

lemma node_by_id_Some: "node_by_id db i = Some n \<Longrightarrow> n \<in> set (nodes db) \<and> node_id n = i"
  by (auto simp: node_by_id_def dest!: queryOne_Some)

lemma node_by_id_None: "node_by_id db i = None \<longleftrightarrow> i \<notin> node_id ` set (nodes db)"
  by (auto simp: node_by_id_def filter_empty_conv)

lemma assertFreshPrincipalKeys_bool: "requireUser u = Inr user \<longleftrightarrow> u = Some user"
  by (auto simp: requireUser_def split: option.splits)

section \<open>Parent links\<close>

definition tree_ok :: "database \<Rightarrow> bool" where
  "tree_ok db \<longleftrightarrow> distinct (map node_id (nodes db)) \<and>
     (\<forall>n\<in>set (nodes db). \<forall>p. node_parent n = Some p \<longrightarrow> (\<exists>m\<in>set (nodes db). node_id m = p \<and> node_org m = node_org n)) \<and>
     acyclic (parent_of (nodes db))"

definition links :: "node_row list \<Rightarrow> (uuid \<times> uuid option \<times> uuid) list" where
  "links ns = map (\<lambda>n. (node_id n, node_parent n, node_org n)) ns"

lemma set_links: "(i, q, r) \<in> set (links ns) \<longleftrightarrow> (\<exists>n\<in>set ns. node_id n = i \<and> node_parent n = q \<and> node_org n = r)"
  by (auto simp: links_def)

lemma parent_of_links: "parent_of ns = {(i, p). (\<exists>r. (i, Some p, r) \<in> set (links ns)) \<and> (\<exists>q r. (p, q, r) \<in> set (links ns))}"
  unfolding set_links parent_of_def by blast

lemma parents_links:
  "(\<forall>n\<in>set ns. \<forall>p. node_parent n = Some p \<longrightarrow> (\<exists>m\<in>set ns. node_id m = p \<and> node_org m = node_org n)) \<longleftrightarrow>
   (\<forall>i p r. (i, Some p, r) \<in> set (links ns) \<longrightarrow> (\<exists>q. (p, q, r) \<in> set (links ns)))"
  unfolding set_links by blast

lemma tree_ok_links: "links (nodes db') = links (nodes db) \<Longrightarrow> tree_ok db' \<longleftrightarrow> tree_ok db"
proof -
  assume l: "links (nodes db') = links (nodes db)"
  have "map fst (links ns) = map node_id ns" for ns by (simp add: links_def)
  with l have "map node_id (nodes db') = map node_id (nodes db)" by metis
  then show ?thesis unfolding tree_ok_def parent_of_links parents_links l by simp
qed

lemma links_on_node: "(\<And>n. node_id (f n) = node_id n \<and> node_parent (f n) = node_parent n \<and> node_org (f n) = node_org n) \<Longrightarrow>
    links (on_node i f ns) = links ns"
  by (simp add: links_def on_node_def comp_def)

lemma map_node_id_on_node [simp]: "(\<And>n. node_id (f n) = node_id n) \<Longrightarrow> map node_id (on_node i f ns) = map node_id ns"
  by (simp add: on_node_def comp_def)

lemma set_on_node: "set (on_node i f ns) = {n \<in> set ns. node_id n \<noteq> i} \<union> f ` {n \<in> set ns. node_id n = i}"
  by (auto simp: on_node_def)

lemma tree_ok_add:
  assumes ok: "tree_ok db" and new: "node_id n \<notin> node_id ` set (nodes db)"
    and parent: "\<And>p. node_parent n = Some p \<Longrightarrow> \<exists>m\<in>set (nodes db). node_id m = p \<and> node_org m = node_org n"
    and nodes: "nodes db' = nodes db @ [n]"
  shows "tree_ok db'"
proof -
  have no_child: "node_parent m \<noteq> Some (node_id n)" if "m \<in> set (nodes db)" for m
    using ok that new unfolding tree_ok_def by (metis imageI)
  have "node_parent n \<noteq> Some (node_id n)" using parent[of "node_id n"] new by (metis imageI)
  then have pof: "parent_of (nodes db') = parent_of (nodes db) \<union> {(node_id n, p) |p. node_parent n = Some p}"
    using no_child parent by (fastforce simp: parent_of_def nodes)
  have fresh: "node_id n \<notin> Range (parent_of (nodes db))" "node_id n \<notin> Domain (parent_of (nodes db))"
    using new by (auto simp: parent_of_def)
  have "acyclic (parent_of (nodes db'))"
  proof (cases "node_parent n")
    case None
    then show ?thesis using ok by (simp add: pof tree_ok_def)
  next
    case (Some p)
    have "(p, node_id n) \<notin> (parent_of (nodes db))\<^sup>*"
      using fresh parent[OF Some] new by (metis RangeI imageI rtranclE)
    then show ?thesis using ok Some by (simp add: pof tree_ok_def)
  qed
  moreover have "distinct (map node_id (nodes db'))" using ok new by (simp add: nodes tree_ok_def)
  moreover have "\<forall>m\<in>set (nodes db'). \<forall>p. node_parent m = Some p \<longrightarrow> (\<exists>k\<in>set (nodes db'). node_id k = p \<and> node_org k = node_org m)"
    using ok parent by (fastforce simp: nodes tree_ok_def)
  ultimately show ?thesis by (simp add: tree_ok_def)
qed

lemma parent_of_move:
  assumes "distinct (map node_id ns)" "\<And>n. node_id (f n) = node_id n" "\<And>n. node_parent (f n) = parent"
  shows "parent_of (on_node i f ns) \<subseteq> parent_of ns \<union> {(i, p) |p. parent = Some p}"
proof
  fix e assume "e \<in> parent_of (on_node i f ns)"
  then obtain n p where e: "e = (node_id n, node_id p)" "n \<in> set (on_node i f ns)" "p \<in> set (on_node i f ns)" "node_parent n = Some (node_id p)"
    by (auto simp: parent_of_def)
  have p: "\<exists>q\<in>set ns. node_id q = node_id p" using e(3) assms(2) by (auto simp: on_node_def)
  show "e \<in> parent_of ns \<union> {(i, p) |p. parent = Some p}"
  proof (cases "node_id n = i")
    case True
    then obtain m where "n = f m" using e(2) assms(2) by (auto simp: on_node_def split: if_splits)
    then show ?thesis using e True assms(3) by auto
  next
    case False
    then have "n \<in> set ns" using e(2) assms(2) by (auto simp: on_node_def split: if_splits)
    moreover obtain q where "q \<in> set ns" "node_id q = node_id p" using p by blast
    ultimately have "(node_id n, node_id q) \<in> parent_of ns" using e(4) by (intro parent_ofI) auto
    then show ?thesis using e(1) \<open>node_id q = node_id p\<close> by simp
  qed
qed

lemma tree_ok_move:
  assumes ok: "tree_ok db" and n: "node_by_id db i = Some n"
    and f: "\<And>n. node_id (f n) = node_id n" "\<And>n. node_org (f n) = node_org n" "\<And>n. node_parent (f n) = parent"
    and target: "\<And>p. parent = Some p \<Longrightarrow> (\<exists>m\<in>set (nodes db). node_id m = p \<and> node_org m = node_org n) \<and> p \<notin> set (subtree (nodes db) i)"
    and nodes: "nodes db' = on_node i f (nodes db)"
  shows "tree_ok db'"
proof -
  have d: "distinct (map node_id (nodes db))" and a: "acyclic (parent_of (nodes db))" using ok by (auto simp: tree_ok_def)
  have i: "i \<in> node_id ` set (nodes db)" using node_by_id_Some[OF n] by auto
  have "acyclic (parent_of (nodes db) \<union> {(i, p) |p. parent = Some p})"
  proof (cases parent)
    case None
    then show ?thesis using a by simp
  next
    case (Some p)
    then have "(p, i) \<notin> (parent_of (nodes db))\<^sup>*" using target[OF Some] i by (simp add: set_subtree)
    then show ?thesis using a Some by simp
  qed
  then have "acyclic (parent_of (nodes db'))"
    unfolding nodes by (rule acyclic_subset) (rule parent_of_move[OF d f(1,3)])
  moreover have "distinct (map node_id (nodes db'))" using d f(1) by (simp add: nodes)
  moreover have "\<exists>k\<in>set (nodes db'). node_id k = p \<and> node_org k = node_org m"
    if m: "m \<in> set (nodes db')" "node_parent m = Some p" for m p
  proof -
    have keep: "\<exists>k\<in>set (nodes db'). node_id k = q \<and> node_org k = r" if "k \<in> set (nodes db)" "node_id k = q" "node_org k = r" for k q r
      using that f by (intro bexI[of _ "if node_id k = i then f k else k"]) (auto simp: nodes on_node_def)
    show ?thesis
    proof (cases "node_id m = i")
      case True
      then obtain m' where m': "m' \<in> set (nodes db)" "m = f m'" "node_id m' = i" using m(1) f(1) by (auto simp: nodes on_node_def split: if_splits)
      then have "m' = n" using d node_by_id_Some[OF n] by (auto simp: distinct_map dest: inj_onD)
      then have "node_org m = node_org n" "parent = Some p" using m' m f by auto
      with target keep show ?thesis by metis
    next
      case False
      then have "m \<in> set (nodes db)" using m(1) f(1) by (auto simp: nodes on_node_def split: if_splits)
      then obtain k where "k \<in> set (nodes db)" "node_id k = p" "node_org k = node_org m" using ok m(2) by (auto simp: tree_ok_def)
      with keep show ?thesis by metis
    qed
  qed
  ultimately show ?thesis unfolding tree_ok_def by blast
qed

lemma tree_ok_delete:
  assumes ok: "tree_ok db"
  shows "tree_ok (delete_node i db)"
proof -
  have sub: "set (nodes (delete_node i db)) = {n \<in> set (nodes db). node_id n \<notin> set (subtree (nodes db) i)}"
    by (auto simp: delete_node_def Let_def)
  have "parent_of (nodes (delete_node i db)) \<subseteq> parent_of (nodes db)"
    unfolding parent_of_def sub by blast
  then have "acyclic (parent_of (nodes (delete_node i db)))" using ok acyclic_subset by (auto simp: tree_ok_def)
  moreover have "distinct (map node_id (nodes (delete_node i db)))"
    using ok by (simp add: delete_node_def Let_def tree_ok_def distinct_map_filter)
  moreover have "\<exists>m\<in>set (nodes (delete_node i db)). node_id m = p \<and> node_org m = node_org n"
    if n: "n \<in> set (nodes (delete_node i db))" "node_parent n = Some p" for n p
  proof -
    have n': "n \<in> set (nodes db)" "node_id n \<notin> set (subtree (nodes db) i)" using n(1) sub by auto
    then obtain m where m: "m \<in> set (nodes db)" "node_id m = p" "node_org m = node_org n" using ok n(2) by (auto simp: tree_ok_def)
    then have "(node_id n, p) \<in> parent_of (nodes db)" using n' n(2) by (auto intro!: parent_ofI)
    then have "p \<notin> set (subtree (nodes db) i)"
      using n'(2) by (auto simp: set_subtree intro: converse_rtrancl_into_rtrancl)
    with m show ?thesis unfolding sub by blast
  qed
  ultimately show ?thesis unfolding tree_ok_def by blast
qed

end
