(* ===== verification/Drive_Versions.thy ===== *)
theory Drive_Versions
  imports Drive_Nodes
begin

text \<open>
  The history of a file, \<^verbatim>\<open>server/src/routes/versions.ts\<close>, and the periodic cleaning of contents,
  \<^verbatim>\<open>server/src/lib/housekeeping.ts\<close>.
\<close>

section \<open>Reading versions\<close>

definition list_versions :: "database \<Rightarrow> auth_user option \<Rightarrow> uuid \<Rightarrow> (version_row \<times> user_row option) list handled" where
  "list_versions db u i =
     check db (requireNodePerm db u i ''node.version.view'') (\<lambda>_.
       (Inr (map (\<lambda>v. (v, case ver_created_by v of None \<Rightarrow> None
                          | Some by \<Rightarrow> queryOne (filter (\<lambda>r. ur_id r = by) (user_rows db))))
               (rev (sort_key ver_no (filter (\<lambda>v. ver_node v = i) (node_versions db))))), db, []))"

definition find_version :: "database \<Rightarrow> uuid \<Rightarrow> uuid \<Rightarrow> version_row option" where
  "find_version db i versionId = queryOne (filter (\<lambda>v. ver_id v = versionId \<and> ver_node v = i) (node_versions db))"

definition download_version :: "database \<Rightarrow> auth_user option \<Rightarrow> uuid \<Rightarrow> uuid \<Rightarrow> (string \<times> 8 word list) handled" where
  "download_version db u i versionId =
     check db (requireNodePerm db u i ''node.version.view'') (\<lambda>_.
       (case find_version db i versionId of
          None \<Rightarrow> stop db notFound
        | Some v \<Rightarrow> (Inr (ver_content v, ver_nonce v), db, [])))"

section \<open>Re-encryption of a version\<close>

text \<open>The organisation's quota is checked against the growth of the version only.\<close>

definition on_version :: "uuid \<Rightarrow> uuid \<Rightarrow> (version_row \<Rightarrow> version_row) \<Rightarrow> version_row list \<Rightarrow> version_row list" where
  "on_version i versionId f = map (\<lambda>v. if ver_id v = versionId \<and> ver_node v = i then f v else v)"

definition rewrite_tx :: "site_settings \<Rightarrow> string \<Rightarrow> int \<Rightarrow> database \<Rightarrow> uuid \<Rightarrow> uuid \<Rightarrow> uuid \<Rightarrow> uuid \<Rightarrow> string \<Rightarrow> nat \<Rightarrow>
    (api_error + string) \<times> database" where
  "rewrite_tx site blob now db userId orgId i versionId nonce nbytes =
     (case node_by_id db i of
        None \<Rightarrow> (Inl notFound, db)
      | Some n \<Rightarrow>
          (case find_version db i versionId of
             None \<Rightarrow> (Inl notFound, db)
           | Some old \<Rightarrow>
               if ver_key_epoch old \<ge> node_key_epoch n then (Inl conflict, db)
               else (case (if ver_size old < nbytes
                           then (case assertOrgQuota db orgId (nbytes - ver_size old) of
                                   Inl e \<Rightarrow> Inl e
                                 | Inr _ \<Rightarrow> assertUserQuota site db orgId (node_owner n) (nbytes - ver_size old))
                           else Inr ()) of
                  Inl e \<Rightarrow> (Inl e, db)
                | Inr _ \<Rightarrow>
                    (let f = (\<lambda>v. v\<lparr>ver_content := blob, ver_nonce := hex_buffer nonce, ver_key_epoch := node_key_epoch n,
                                    ver_size := nbytes\<rparr>);
                         g = (\<lambda>m. m\<lparr>node_content := Some blob, node_content_nonce := Some (hex_buffer nonce), node_size := nbytes,
                                    node_body := (node_body m)\<lparr>nb_modified_at := now, nb_modified_by := Some userId\<rparr>\<rparr>)
                     in (Inr (ver_content old),
                         db\<lparr>node_versions := on_version i versionId f (node_versions db),
                            nodes := (if node_current_version n = Some versionId then on_node i g (nodes db) else nodes db),
                            blobs := blobs db @ [blob]\<rparr>)))))"

definition rewrite_version :: "site_settings \<Rightarrow> string \<Rightarrow> int \<Rightarrow> database \<Rightarrow> auth_user option \<Rightarrow> uuid \<Rightarrow> uuid \<Rightarrow> upload_request \<Rightarrow>
    unit handled" where
  "rewrite_version site blob now db u i versionId q =
     check db (requireNodePerm db u i ''node.acl.manage'') (\<lambda>access.
     check db (requireUser u) (\<lambda>user.
     check db (when_ok (content_nonce_ok (uq_nonce q)) badRequest) (\<lambda>_.
     check db (when_ok (uq_has_body q) badRequest) (\<lambda>_.
     check db (assertDiskSpace site (uq_disk_before q) (uq_announced q)) (\<lambda>_.
       (case uq_stored q of
          None \<Rightarrow> stop db tooLarge
        | Some nbytes \<Rightarrow>
            check db (assertDiskSpace site (uq_disk_after q) nbytes) (\<lambda>_.
              (case rewrite_tx site blob now db (au_id user) (na_orgId access) i versionId (uq_nonce q) nbytes of
                 (Inl e, _) \<Rightarrow> stop db e
               | (Inr old, db') \<Rightarrow>
                   (Inr (), (if old \<noteq> [] then delete_blobs [old] db' else db'),
                    [AuditEntry (Some (na_orgId access)) (Some (au_id user)) ''node.key.rotate.content'' i])))))))))"

section \<open>Restoring a version\<close>

text \<open>The version is read before the transaction that writes it to the node.\<close>

definition restore_read :: "database \<Rightarrow> auth_user option \<Rightarrow> uuid \<Rightarrow> uuid \<Rightarrow> api_error + (node_access \<times> auth_user \<times> version_row)" where
  "restore_read db u i versionId =
     (case requireNodePerm db u i ''node.version.restore'' of
        Inl e \<Rightarrow> Inl e
      | Inr access \<Rightarrow>
          (case requireUser u of
             Inl e \<Rightarrow> Inl e
           | Inr user \<Rightarrow>
               (case find_version db i versionId of None \<Rightarrow> Inl notFound | Some v \<Rightarrow> Inr (access, user, v))))"

definition restored :: "version_row \<Rightarrow> uuid \<Rightarrow> int \<Rightarrow> node_row \<Rightarrow> node_row" where
  "restored v userId now n =
     n\<lparr>node_content := Some (ver_content v), node_content_nonce := Some (ver_nonce v), node_size := ver_size v,
       node_current_version := Some (ver_id v),
       node_body := (node_body n)\<lparr>nb_modified_at := now, nb_modified_by := Some userId\<rparr>\<rparr>"

definition restore_write :: "int \<Rightarrow> database \<Rightarrow> node_access \<Rightarrow> auth_user \<Rightarrow> uuid \<Rightarrow> version_row \<Rightarrow> node_row handled" where
  "restore_write now db access user i v =
     (case node_by_id db i of
        None \<Rightarrow> stop db notFound
      | Some n \<Rightarrow>
          if ver_id v \<notin> ver_id ` set (node_versions db) then stop db internal_error
          else (Inr (restored v (au_id user) now n), db\<lparr>nodes := on_node i (restored v (au_id user) now) (nodes db)\<rparr>,
                [AuditEntry (Some (na_orgId access)) (Some (au_id user)) ''node.version.restore'' i]))"

definition restore_version :: "int \<Rightarrow> database \<Rightarrow> auth_user option \<Rightarrow> uuid \<Rightarrow> uuid \<Rightarrow> node_row handled" where
  "restore_version now db u i versionId =
     check db (restore_read db u i versionId) (\<lambda>(access, user, v). restore_write now db access user i v)"

section \<open>Housekeeping\<close>

definition DAY :: int where "DAY = 24 * 60 * 60 * 1000000"
definition TRASH_BLOB_RETENTION_DAYS :: int where "TRASH_BLOB_RETENTION_DAYS = 30"
definition TRASH_PURGE_BATCH_LIMIT :: nat where "TRASH_PURGE_BATCH_LIMIT = 200"
definition VERSION_PURGE_BATCH_LIMIT :: nat where "VERSION_PURGE_BATCH_LIMIT = 500"

definition trash_candidates :: "site_settings \<Rightarrow> int \<Rightarrow> database \<Rightarrow> node_row list" where
  "trash_candidates site now db =
     (let days = (if trashRetentionDays site > 0 then trashRetentionDays site else TRASH_BLOB_RETENTION_DAYS)
      in take TRASH_PURGE_BATCH_LIMIT
           (sort_key (\<lambda>n. the (node_trashed_at n))
              (filter (\<lambda>n. case node_trashed_at n of None \<Rightarrow> False | Some t \<Rightarrow> t < now - days * DAY) (nodes db))))"

definition purge_candidate :: "node_row \<Rightarrow> database \<times> drive_effect list \<Rightarrow> database \<times> drive_effect list" where
  "purge_candidate n = (\<lambda>(db, outs).
     (delete_blobs (subtreeBlobRefs db (node_id n)) (delete_node (node_id n) db),
      outs @ [AuditEntry (Some (node_org n)) None ''node.purge.auto'' (node_id n)]))"

definition purgeOrphanedTrashBlobs :: "site_settings \<Rightarrow> int \<Rightarrow> database \<Rightarrow> database \<times> drive_effect list" where
  "purgeOrphanedTrashBlobs site now db = fold purge_candidate (trash_candidates site now db) (db, [])"

definition stale_versions :: "int \<Rightarrow> int \<Rightarrow> database \<Rightarrow> version_row list" where
  "stale_versions days now db =
     take VERSION_PURGE_BATCH_LIMIT
       (sort_key ver_created_at
          (filter (\<lambda>v. ver_created_at v < now - days * DAY \<and>
                       list_ex (\<lambda>n. node_id n = ver_node v \<and> node_current_version n \<noteq> Some (ver_id v)) (nodes db))
             (node_versions db)))"

definition purgeOldVersions :: "site_settings \<Rightarrow> int \<Rightarrow> database \<Rightarrow> database" where
  "purgeOldVersions site now db =
     (if versionRetentionDays site \<le> 0 then db
      else let gone = stale_versions (versionRetentionDays site) now db
           in delete_blobs (map ver_content gone)
                (db\<lparr>node_versions := filter (\<lambda>v. ver_id v \<notin> ver_id ` set gone) (node_versions db)\<rparr>))"

end
