(* ===== verification/Drive_Shares.thy ===== *)
theory Drive_Shares
  imports Drive_Nodes
begin

text \<open>
  The handlers of \<^verbatim>\<open>server/src/routes/shares.ts\<close>: internal shares (the entries of the access list of a
  node) and external links. \<open>H\<close> is the digest of a token.
\<close>

section \<open>Internal shares\<close>

definition share_named :: "database \<Rightarrow> uuid \<Rightarrow> principal_type \<Rightarrow> uuid \<Rightarrow> node_key_row option" where
  "share_named db i ty p =
     queryOne (filter (\<lambda>k. nk_node k = i \<and> nk_principal_type k = ty \<and> nk_principal k = p) (node_keys db))"

text \<open>The list of a node's shares with the role and the name of the principal.\<close>

definition share_name :: "database \<Rightarrow> node_key_row \<Rightarrow> string" where
  "share_name db k =
     (case nk_principal_type k of
        UserPrincipal \<Rightarrow>
          (case queryOne (filter (\<lambda>r. ur_id r = nk_principal k) (user_rows db)) of
             None \<Rightarrow> ''Utilisateur''
           | Some r \<Rightarrow> if ur_display_name r \<noteq> [] then ur_display_name r
                       else if ur_email r \<noteq> [] then ur_email r else ''Utilisateur'')
      | GroupPrincipal \<Rightarrow>
          (case queryOne (filter (\<lambda>g. grp_id g = nk_principal k) (groups db)) of
             None \<Rightarrow> ''Groupe''
           | Some g \<Rightarrow> if grp_name g \<noteq> [] then grp_name g else ''Groupe'')
      | OrgPrincipal \<Rightarrow> ''Organisation'')"

definition list_shares :: "database \<Rightarrow> auth_user option \<Rightarrow> uuid \<Rightarrow> (node_key_row \<times> role_row \<times> string) list handled" where
  "list_shares db u i =
     check db (requireNodePerm db u i ''node.acl.view'') (\<lambda>_.
       (Inr [(k, r, share_name db k). k \<leftarrow> node_keys db, r \<leftarrow> roles db, role_id r = nk_role k, nk_node k = i], db, []))"

definition regranted :: "key_share \<Rightarrow> uuid \<Rightarrow> node_key_row \<Rightarrow> node_key_row" where
  "regranted b by k = k\<lparr>nk_role := sh_role b, nk_wrapped := sh_wrapped b, nk_granted_by := Some by, nk_inherited_from := sh_inherited b\<rparr>"

definition inherited_known :: "database \<Rightarrow> key_share \<Rightarrow> bool" where
  "inherited_known db b = opt_ok (\<lambda>a. a \<in> node_id ` set (nodes db)) (sh_inherited b)"

text \<open>The three writes: the update of a group's share, that of a user's, and the insertion, which does
  nothing where a share exists. Each answers whether it touched a row.\<close>

definition update_share :: "database \<Rightarrow> (node_key_row \<Rightarrow> bool) \<Rightarrow> key_share \<Rightarrow> uuid \<Rightarrow> database \<times> uuid option" where
  "update_share db p b by =
     (db\<lparr>node_keys := map (\<lambda>k. if p k then regranted b by k else k) (node_keys db)\<rparr>,
      map_option nk_id (queryOne (filter p (node_keys db))))"

definition insert_share :: "database \<Rightarrow> uuid \<Rightarrow> uuid \<Rightarrow> key_share \<Rightarrow> uuid \<Rightarrow> database \<times> uuid option" where
  "insert_share db newId i b by =
     (if share_named db i (sh_type b) (sh_principal b) \<noteq> None then (db, None)
      else (db\<lparr>node_keys := node_keys db @
              [\<lparr>nk_id = newId, nk_node = i, nk_principal_type = sh_type b, nk_principal = sh_principal b, nk_role = sh_role b,
                nk_wrapped = sh_wrapped b, nk_granted_by = Some by, nk_inherited_from = sh_inherited b\<rparr>]\<rparr>, Some newId))"

definition owner_share :: "database \<Rightarrow> uuid \<Rightarrow> node_key_row \<Rightarrow> bool" where
  "owner_share db i k \<longleftrightarrow> nk_principal_type k = UserPrincipal \<and> map_option node_owner (node_by_id db i) = Some (nk_principal k)"

definition write_share :: "database \<Rightarrow> uuid \<Rightarrow> uuid \<Rightarrow> uuid \<Rightarrow> node_key_row option \<Rightarrow> key_share \<Rightarrow> database \<times> uuid option" where
  "write_share db newId by i existing b =
     (case existing of
        None \<Rightarrow> insert_share db newId i b by
      | Some old \<Rightarrow>
          if sh_type b = UserPrincipal
          then update_share db (\<lambda>k. nk_id k = nk_id old \<and> nk_node k = i \<and> nk_principal_type k \<noteq> OrgPrincipal \<and> \<not> owner_share db i k) b by
          else update_share db (\<lambda>k. nk_node k = i \<and> nk_principal_type k = sh_type b \<and> nk_principal_type k = GroupPrincipal \<and>
                                    nk_principal k = sh_principal b) b by)"

definition create_share :: "bool \<Rightarrow> uuid \<Rightarrow> database \<Rightarrow> auth_user option \<Rightarrow> uuid \<Rightarrow> int option \<Rightarrow> key_share \<Rightarrow> uuid handled" where
  "create_share legacyCompat newId db u i orgKeyEpoch b =
     check db (when_ok (opt_ok (\<lambda>e. 0 \<le> e) orgKeyEpoch \<and> share_schema b) validation) (\<lambda>_.
     check db (requireUser u) (\<lambda>user.
     check db (requireNodePerm db u i ''node.share.internal'') (\<lambda>access.
     check db (validateRoleCapped db (sh_role b) (na_orgId access) (na_permissions access)) (\<lambda>_.
       let existing = share_named db i (sh_type b) (sh_principal b);
           isProtected = (sh_type b = OrgPrincipal \<or> sh_type b = UserPrincipal \<and> sh_principal b = na_ownerUserId access)
       in if existing \<noteq> None \<and> isProtected then stop db conflict
          else check db (if existing = None then Inr () else map_sum id (\<lambda>_. ()) (requireNodePerm db u i ''node.acl.manage'')) (\<lambda>_.
               check db (if existing = None then Inr () else map_sum id (\<lambda>_. ()) (requireNodePerm db u i ''node.share.manage'')) (\<lambda>_.
               check db (if sh_type b = UserPrincipal then Inr False
                         else assertFreshPrincipalKeys db (na_orgId access) [b] orgKeyEpoch legacyCompat) (\<lambda>legacy.
               check db (when_ok (inherited_known db b) internal_error) (\<lambda>_.
                 (case write_share db newId (au_id user) i existing b of
                    (_, None) \<Rightarrow> stop db conflict
                  | (db', Some shareId) \<Rightarrow>
                      (Inr shareId, db',
                       [KickNode i ''acl-changed'', AuditEntry (Some (na_orgId access)) (Some (au_id user)) ''node.share'' i] @
                       (if legacy then [Deprecated] else []))))))))))) "

definition patch_share :: "database \<Rightarrow> auth_user option \<Rightarrow> uuid \<Rightarrow> uuid \<Rightarrow> uuid \<Rightarrow> unit handled" where
  "patch_share db u i shareId roleId =
     check db (requireUser u) (\<lambda>user.
     check db (requireNodePerm db u i ''node.acl.manage'') (\<lambda>access.
     check db (validateRoleCapped db roleId (na_orgId access) (na_permissions access)) (\<lambda>_.
       if \<not> list_ex (\<lambda>k. nk_id k = shareId \<and> nk_node k = i) (node_keys db) then stop db notFound
       else (Inr (), db\<lparr>node_keys := map (\<lambda>k. if nk_id k = shareId \<and> nk_node k = i then k\<lparr>nk_role := roleId\<rparr> else k) (node_keys db)\<rparr>,
             [KickNode i ''acl-changed'', AuditEntry (Some (na_orgId access)) (Some (au_id user)) ''node.share.update'' i]))))"

text \<open>Revocation, on a folder possibly with the rows of the same principal below it.\<close>

definition deep_row :: "database \<Rightarrow> uuid \<Rightarrow> node_key_row \<Rightarrow> node_key_row \<Rightarrow> bool" where
  "deep_row db i share k \<longleftrightarrow> nk_node k \<in> set (strict_subtree (nodes db) i) \<and>
     nk_principal_type k = nk_principal_type share \<and> nk_principal k = nk_principal share \<and> \<not> owner_share db (nk_node k) k"

definition delete_share :: "database \<Rightarrow> auth_user option \<Rightarrow> uuid \<Rightarrow> uuid \<Rightarrow> bool \<Rightarrow> unit handled" where
  "delete_share db u i shareId deep =
     check db (requireUser u) (\<lambda>user.
     check db (requireNodePerm db u i ''node.share.manage'') (\<lambda>access.
       (case queryOne (filter (\<lambda>k. nk_id k = shareId \<and> nk_node k = i) (node_keys db)) of
          None \<Rightarrow> stop db notFound
        | Some share \<Rightarrow>
            if nk_principal_type share = UserPrincipal \<and> nk_principal share = na_ownerUserId access then stop db conflict
            else let db1 = db\<lparr>node_keys := filter (\<lambda>k. \<not> (nk_id k = shareId \<and> nk_node k = i)) (node_keys db)\<rparr>;
                     below = (if deep \<and> na_kind access = Folder then filter (deep_row db i share) (node_keys db1) else []);
                     db2 = (if deep \<and> na_kind access = Folder
                            then db1\<lparr>node_keys := filter (\<lambda>k. \<not> deep_row db i share k) (node_keys db1)\<rparr> else db1);
                     touched = set_of_list (i # map nk_node below)
                 in (Inr (), db2, map (\<lambda>j. KickNode j ''acl-changed'') touched @
                       [AuditEntry (Some (na_orgId access)) (Some (au_id user)) ''node.unshare'' i]))))"

section \<open>Links\<close>

definition create_link :: "(string \<Rightarrow> string) \<Rightarrow> string \<Rightarrow> uuid \<Rightarrow> database \<Rightarrow> auth_user option \<Rightarrow> uuid \<Rightarrow> uuid \<Rightarrow> string \<Rightarrow> bool \<Rightarrow>
    int option \<Rightarrow> nat option \<Rightarrow> (string \<times> uuid) handled" where
  "create_link H tok newId db u i roleId wrapped hasPassword expiresAt maxDownloads =
     check db (when_ok (opt_ok (\<lambda>m. 0 < m) maxDownloads) validation) (\<lambda>_.
     check db (requireUser u) (\<lambda>user.
     check db (requireNodePerm db u i ''node.share.link'') (\<lambda>access.
     check db (validateRoleCapped db roleId (na_orgId access) (na_permissions access)) (\<lambda>_.
     check db (when_ok (H tok \<notin> sl_token_hash ` set (share_links db)) internal_error) (\<lambda>_.
       let l = \<lparr>sl_id = newId, sl_node = i, sl_token_hash = H tok, sl_role = roleId, sl_wrapped = wrapped,
                sl_has_password = hasPassword, sl_expires_at = expiresAt, sl_max_downloads = maxDownloads,
                sl_download_count = 0, sl_can_sign = False, sl_created_by = Some (au_id user), sl_revoked_at = None\<rparr>
       in (Inr (tok, newId), db\<lparr>share_links := share_links db @ [l]\<rparr>,
           [AuditEntry (Some (na_orgId access)) (Some (au_id user)) ''node.link.create'' i]))))))"

definition list_links :: "database \<Rightarrow> auth_user option \<Rightarrow> uuid \<Rightarrow> (link_row \<times> party_row option) list handled" where
  "list_links db u i =
     check db (requireNodePerm db u i ''node.acl.view'') (\<lambda>_.
       (Inr (map (\<lambda>l. (l, queryOne (filter (\<lambda>p. party_link p = sl_id l) (sign_parties db))))
               (rev (filter (\<lambda>l. sl_node l = i \<and> sl_revoked_at l = None) (share_links db)))), db, []))"

text \<open>A signature link may also be revoked by whoever may send signature requests.\<close>

definition revoke_access :: "database \<Rightarrow> auth_user option \<Rightarrow> uuid \<Rightarrow> link_row \<Rightarrow> api_error + node_access" where
  "revoke_access db u i target =
     (case requireNodePerm db u i ''node.share.manage'' of
        Inr access \<Rightarrow> Inr access
      | Inl e \<Rightarrow> if \<not> sl_can_sign target then Inl e else requireNodePerm db u i ''node.sign.request'')"

definition live_link :: "uuid \<Rightarrow> uuid \<Rightarrow> link_row \<Rightarrow> bool" where
  "live_link i linkId l \<longleftrightarrow> sl_id l = linkId \<and> sl_node l = i \<and> sl_revoked_at l = None"

definition revoke_link :: "int \<Rightarrow> database \<Rightarrow> auth_user option \<Rightarrow> uuid \<Rightarrow> uuid \<Rightarrow> unit handled" where
  "revoke_link now db u i linkId =
     check db (requireUser u) (\<lambda>user.
       (case queryOne (filter (live_link i linkId) (share_links db)) of
          None \<Rightarrow> stop db notFound
        | Some target \<Rightarrow>
            check db (revoke_access db u i target) (\<lambda>access.
              (Inr (), db\<lparr>share_links := map (\<lambda>l. if live_link i linkId l then l\<lparr>sl_revoked_at := Some now\<rparr> else l) (share_links db),
                          sign_parties := (if sl_can_sign target
                            then map (\<lambda>p. if party_link p = linkId \<and> party_state p = Pending then p\<lparr>party_state := Cancelled\<rparr> else p)
                                   (sign_parties db)
                            else sign_parties db)\<rparr>,
               [AuditEntry (Some (na_orgId access)) (Some (au_id user)) ''node.link.revoke'' i]))))"

section \<open>Anonymous access through a link\<close>

definition active_user :: "database \<Rightarrow> uuid \<Rightarrow> bool" where
  "active_user db i = list_ex (\<lambda>r. ur_id r = i \<and> ur_status r = ''active'') (user_rows db)"

definition active_membership :: "database \<Rightarrow> uuid \<Rightarrow> uuid \<Rightarrow> bool" where
  "active_membership db i orgId = list_ex (\<lambda>m. mem_user m = i \<and> mem_org m = orgId \<and> mem_status m = Active) (memberships db)"

text \<open>\<^verbatim>\<open>LIVE_SHARE_POLICY\<close>: the creator is active in the node's organisation, and neither the node nor any of
  its ancestors is in the trash.\<close>

definition LIVE_SHARE_POLICY :: "database \<Rightarrow> link_row \<Rightarrow> node_row \<Rightarrow> bool" where
  "LIVE_SHARE_POLICY db l n \<longleftrightarrow>
     (case sl_created_by l of None \<Rightarrow> False | Some by \<Rightarrow> active_user db by \<and> active_membership db by (node_org n)) \<and>
     \<not> list_ex (\<lambda>m. node_id m \<in> set (ancestors (nodes db) (node_id n)) \<and> node_trashed_at m \<noteq> None) (nodes db)"

definition link_rows :: "database \<Rightarrow> string \<Rightarrow> (link_row \<times> role_row \<times> node_row) list" where
  "link_rows db hash =
     [(l, r, n). l \<leftarrow> share_links db, r \<leftarrow> roles db, n \<leftarrow> nodes db,
       role_id r = sl_role l, node_id n = sl_node l, sl_token_hash l = hash, LIVE_SHARE_POLICY db l n]"

definition resolveLink :: "(string \<Rightarrow> string) \<Rightarrow> int \<Rightarrow> database \<Rightarrow> string \<Rightarrow> (link_row \<times> role_row \<times> node_row) option" where
  "resolveLink H now db tok =
     (case queryOne (link_rows db (H tok)) of
        None \<Rightarrow> None
      | Some (l, r, n) \<Rightarrow>
          if sl_revoked_at l \<noteq> None then None
          else if (case sl_expires_at l of None \<Rightarrow> False | Some e \<Rightarrow> e div 1000 < now div 1000) then None
          else if (case sl_max_downloads l of None \<Rightarrow> False | Some m \<Rightarrow> sl_download_count l \<ge> m) then None
          else Some (l, r, n))"

definition token_schema :: "string \<Rightarrow> bool" where
  "token_schema tok \<longleftrightarrow> 1 \<le> length tok \<and> length tok \<le> 512"

definition open_link :: "(string \<Rightarrow> string) \<Rightarrow> int \<Rightarrow> database \<Rightarrow> string \<Rightarrow> (node_row \<times> string \<times> bool \<times> string) handled" where
  "open_link H now db tok =
     check db (when_ok (token_schema tok) validation) (\<lambda>_.
       (case resolveLink H now db tok of
          None \<Rightarrow> stop db notFound
        | Some (l, r, n) \<Rightarrow> (Inr (n, sl_wrapped l, sl_has_password l, role_key r), db, [])))"

text \<open>The content: the resolution, then the atomic count of the download, at a possibly later state.\<close>

definition may_count :: "uuid \<Rightarrow> link_row \<Rightarrow> bool" where
  "may_count linkId l \<longleftrightarrow> sl_id l = linkId \<and> sl_revoked_at l = None \<and>
     (case sl_max_downloads l of None \<Rightarrow> True | Some m \<Rightarrow> sl_download_count l < m)"

definition link_resolve :: "(string \<Rightarrow> string) \<Rightarrow> int \<Rightarrow> database \<Rightarrow> string \<Rightarrow> api_error + (uuid \<times> string)" where
  "link_resolve H now db tok =
     (if \<not> token_schema tok then Inl validation
      else case resolveLink H now db tok of
             None \<Rightarrow> Inl notFound
           | Some (l, r, n) \<Rightarrow>
               (case node_content n of None \<Rightarrow> Inl notFound | Some ref \<Rightarrow> if ref = [] then Inl notFound else Inr (sl_id l, ref)))"

definition link_count :: "database \<Rightarrow> uuid \<Rightarrow> string \<Rightarrow> string handled" where
  "link_count db linkId ref =
     (if \<not> list_ex (may_count linkId) (share_links db) then stop db notFound
      else (Inr ref, db\<lparr>share_links := map (\<lambda>l. if may_count linkId l then l\<lparr>sl_download_count := sl_download_count l + 1\<rparr> else l)
                          (share_links db)\<rparr>, []))"

definition link_content :: "(string \<Rightarrow> string) \<Rightarrow> int \<Rightarrow> database \<Rightarrow> string \<Rightarrow> string handled" where
  "link_content H now db tok = check db (link_resolve H now db tok) (\<lambda>(linkId, ref). link_count db linkId ref)"

end
