(* ===== verification/Org_Groups.thy ===== *)
theory Org_Groups
  imports Drive_Base
begin

text \<open>
  Teams: the handlers of \<^verbatim>\<open>server/src/routes/groups.ts\<close> and the rotation of a team's key,
  \<^verbatim>\<open>server/src/lib/group-rotation.ts\<close>. A team is a principal with a key pair of its own; its private key is
  wrapped for each member.
\<close>

section \<open>Reading\<close>

definition my_groups :: "database \<Rightarrow> auth_user option \<Rightarrow> uuid \<Rightarrow> (group_row \<times> string) list handled" where
  "my_groups db u orgId =
     check db (requireMembership db u orgId) (\<lambda>_.
     check db (requireUser u) (\<lambda>user.
       (Inr (sort_key (\<lambda>(g, _). grp_name g)
          [(g, gm_wrapped m). m \<leftarrow> group_members db, g \<leftarrow> groups db, grp_id g = gm_group m, gm_user m = au_id user, grp_org g = orgId]),
        db, [])))"

definition group_keys :: "database \<Rightarrow> auth_user option \<Rightarrow> uuid \<Rightarrow> (uuid \<times> string) list handled" where
  "group_keys db u orgId =
     check db (requireMembership db u orgId) (\<lambda>_.
       (Inr [(grp_id g, grp_public g). g \<leftarrow> groups db, grp_org g = orgId], db, []))"

definition list_groups :: "database \<Rightarrow> auth_user option \<Rightarrow> uuid \<Rightarrow> (group_row \<times> nat) list handled" where
  "list_groups db u orgId =
     check db (requireOrgPerm db u orgId ''group.view'') (\<lambda>_.
       (Inr (map (\<lambda>g. (g, length (filter (\<lambda>m. gm_group m = grp_id g) (group_members db))))
               (sort_key grp_name (filter (\<lambda>g. grp_org g = orgId) (groups db)))), db, []))"

definition loadGroupInOrg :: "database \<Rightarrow> uuid \<Rightarrow> uuid \<Rightarrow> api_error + group_row" where
  "loadGroupInOrg db groupId orgId =
     (case queryOne (filter (\<lambda>g. grp_id g = groupId \<and> grp_org g = orgId) (groups db)) of None \<Rightarrow> Inl notFound | Some g \<Rightarrow> Inr g)"

definition get_group :: "database \<Rightarrow> auth_user option \<Rightarrow> uuid \<Rightarrow> uuid \<Rightarrow>
    (group_row \<times> string option \<times> (group_member_row \<times> user_row) list) handled" where
  "get_group db u orgId groupId =
     check db (requireOrgPerm db u orgId ''group.view'') (\<lambda>_.
     check db (requireUser u) (\<lambda>user.
     check db (loadGroupInOrg db groupId orgId) (\<lambda>g.
       (Inr (g, map_option gm_wrapped (queryOne (filter (\<lambda>m. gm_group m = groupId \<and> gm_user m = au_id user) (group_members db))),
             sort_key (\<lambda>(m, r). (ur_display_name r, ur_email r))
               [(m, r). m \<leftarrow> group_members db, r \<leftarrow> user_rows db, ur_id r = gm_user m, gm_group m = groupId]), db, []))))"

section \<open>Creation and members\<close>

record member_input =
  mi_user :: uuid
  mi_wrapped :: string
  mi_manager :: bool

record group_body =
  gb_name :: string
  gb_description :: string
  gb_color :: "string option"
  gb_public :: string
  gb_members :: "member_input list"

definition group_schema :: "group_body \<Rightarrow> bool" where
  "group_schema b \<longleftrightarrow> 1 \<le> length (gb_name b) \<and> length (gb_name b) \<le> 120 \<and> length (gb_description b) \<le> 2000 \<and>
     (case gb_color b of None \<Rightarrow> True | Some c \<Rightarrow> length c \<le> 24) \<and> length (gb_public b) = 130 \<and> lower_hex (gb_public b) \<and>
     1 \<le> length (gb_members b) \<and> length (gb_members b) \<le> 512"

definition is_active_member :: "database \<Rightarrow> uuid \<Rightarrow> uuid \<Rightarrow> bool" where
  "is_active_member db orgId i = list_ex (\<lambda>m. mem_org m = orgId \<and> mem_user m = i \<and> mem_status m = Active) (memberships db)"

text \<open>Inserting a member of a team, or updating the wrapped key and the rank of one already there.\<close>

definition upsert_member :: "uuid \<Rightarrow> member_input \<Rightarrow> group_member_row list \<Rightarrow> group_member_row list" where
  "upsert_member groupId m ms =
     (if list_ex (\<lambda>r. gm_group r = groupId \<and> gm_user r = mi_user m) ms
      then map (\<lambda>r. if gm_group r = groupId \<and> gm_user r = mi_user m
                    then r\<lparr>gm_wrapped := mi_wrapped m, gm_manager := mi_manager m\<rparr> else r) ms
      else ms @ [\<lparr>gm_group = groupId, gm_user = mi_user m, gm_wrapped = mi_wrapped m, gm_manager = mi_manager m\<rparr>])"

definition create_group :: "uuid \<Rightarrow> database \<Rightarrow> auth_user option \<Rightarrow> uuid \<Rightarrow> group_body \<Rightarrow> (group_row \<times> bool) handled" where
  "create_group newId db u orgId b =
     check db (requireOrgPerm db u orgId ''group.create'') (\<lambda>_.
     check db (when_ok (group_schema b) validation) (\<lambda>_.
     check db (requireUser u) (\<lambda>user.
       let creatorIncluded = list_ex (\<lambda>m. mi_user m = au_id user) (gb_members b)
       in check db (when_ok (list_all (\<lambda>m. is_active_member db orgId (mi_user m)) (gb_members b)) badRequest) (\<lambda>_.
            let g = \<lparr>grp_id = newId, grp_org = orgId, grp_name = gb_name b, grp_description = gb_description b,
                     grp_color = (case gb_color b of None \<Rightarrow> ''#0ea5e9'' | Some c \<Rightarrow> c), grp_public = gb_public b,
                     grp_rotation_required = False\<rparr>
            in (Inr (g, creatorIncluded),
                db\<lparr>groups := groups db @ [g], group_members := fold (upsert_member newId) (gb_members b) (group_members db)\<rparr>,
                [AuditEntry (Some orgId) (Some (au_id user)) ''group.create'' newId])))))"

text \<open>A member is added by a manager of the team or by the owner of the organisation.\<close>

definition is_manager :: "database \<Rightarrow> uuid \<Rightarrow> uuid \<Rightarrow> bool" where
  "is_manager db groupId i =
     (case queryOne (filter (\<lambda>m. gm_group m = groupId \<and> gm_user m = i) (group_members db)) of None \<Rightarrow> False | Some m \<Rightarrow> gm_manager m)"

definition group_public_schema :: "string \<Rightarrow> bool" where
  "group_public_schema s \<longleftrightarrow> length s = 130 \<and> lower_hex s \<and> take 2 s = ''04''"

definition add_member :: "bool \<Rightarrow> database \<Rightarrow> auth_user option \<Rightarrow> uuid \<Rightarrow> uuid \<Rightarrow> string option \<Rightarrow> member_input \<Rightarrow> unit handled" where
  "add_member legacyCompat db u orgId groupId expected m =
     check db (requireOrgPerm db u orgId ''group.manage'') (\<lambda>ctx.
     check db (when_ok (expected \<noteq> None) (clientOutdated 400)) (\<lambda>_.
     check db (when_ok (group_public_schema (the expected)) validation) (\<lambda>_.
     check db (requireUser u) (\<lambda>user.
     check db (loadGroupInOrg db groupId orgId) (\<lambda>_.
     check db (when_ok (oc_isOwner ctx \<or> is_manager db groupId (au_id user)) forbidden) (\<lambda>_.
     check db (when_ok (is_active_member db orgId (mi_user m)) badRequest) (\<lambda>_.
     check db (assertFreshPrincipalKeys db orgId
                 [\<lparr>sh_type = GroupPrincipal, sh_principal = groupId, sh_role = [], sh_wrapped = [], sh_group_public = expected,
                   sh_inherited = None\<rparr>] None legacyCompat) (\<lambda>_.
       (Inr (), db\<lparr>group_members := upsert_member groupId m (group_members db)\<rparr>,
        [AuditEntry (Some orgId) (Some (au_id user)) ''group.member.add'' groupId])))))))))"

section \<open>Rotation of a team's key\<close>

record rotation_body =
  gr_expected :: string
  gr_public :: string
  gr_members :: "(uuid \<times> string) list"
  gr_nodeKeys :: "(uuid \<times> string \<times> int) list"

definition rotation_schema :: "rotation_body \<Rightarrow> bool" where
  "rotation_schema b \<longleftrightarrow> group_public_schema (gr_expected b) \<and> group_public_schema (gr_public b) \<and>
     1 \<le> length (gr_members b) \<and> length (gr_members b) \<le> 512 \<and> length (gr_nodeKeys b) \<le> 100000 \<and>
     list_all (\<lambda>(_, _, e). 0 < e) (gr_nodeKeys b)"

definition exactCoverage :: "uuid list \<Rightarrow> uuid list \<Rightarrow> api_error + unit" where
  "exactCoverage ids expected =
     (let s = set_of_list ids
      in if length s \<noteq> length ids \<or> length s \<noteq> length expected \<or> list_ex (\<lambda>i. i \<notin> set s) expected then Inl conflict else Inr ())"

definition markRequiredNodeRotations :: "database \<Rightarrow> uuid list \<Rightarrow> database \<times> uuid list" where
  "markRequiredNodeRotations db nodeIds =
     (if nodeIds = [] then (db, [])
      else let affected = subtrees (nodes db) nodeIds
           in (db\<lparr>nodes := map (\<lambda>n. if node_id n \<in> set affected then n\<lparr>node_rotation_required := True\<rparr> else n) (nodes db)\<rparr>,
               [node_id n. n \<leftarrow> nodes db, node_id n \<in> set affected]))"

definition group_node_keys :: "database \<Rightarrow> uuid \<Rightarrow> uuid \<Rightarrow> (uuid \<times> int) list" where
  "group_node_keys db orgId groupId =
     [(nk_node k, node_key_epoch n). k \<leftarrow> node_keys db, n \<leftarrow> nodes db, node_id n = nk_node k,
       nk_principal_type k = GroupPrincipal, nk_principal k = groupId, node_org n = orgId]"

definition rotation_nodes :: "database \<Rightarrow> auth_user option \<Rightarrow> uuid \<Rightarrow> uuid \<Rightarrow> (string \<times> (uuid \<times> string \<times> int) list) handled" where
  "rotation_nodes db u orgId groupId =
     check db (requireOrgPerm db u orgId ''group.manage'') (\<lambda>ctx.
     check db (requireUser u) (\<lambda>user.
     check db (loadGroupInOrg db groupId orgId) (\<lambda>g.
     check db (when_ok (oc_isOwner ctx \<or> is_manager db groupId (au_id user)) forbidden) (\<lambda>_.
       (Inr (grp_public g, sort_key fst
          [(nk_node k, nk_wrapped k, node_key_epoch n). k \<leftarrow> node_keys db, n \<leftarrow> nodes db, node_id n = nk_node k,
            nk_principal_type k = GroupPrincipal, nk_principal k = groupId, node_org n = orgId]), db, [])))))"

definition rewrap_members :: "uuid \<Rightarrow> (uuid \<times> string) list \<Rightarrow> group_member_row list \<Rightarrow> group_member_row list" where
  "rewrap_members groupId ws = fold (\<lambda>(i, w). map (\<lambda>r. if gm_group r = groupId \<and> gm_user r = i then r\<lparr>gm_wrapped := w\<rparr> else r)) ws"

definition rewrap_nodes :: "uuid \<Rightarrow> (uuid \<times> string \<times> int) list \<Rightarrow> node_key_row list \<Rightarrow> node_key_row list" where
  "rewrap_nodes groupId ks = fold (\<lambda>(i, w, _). map (\<lambda>k. if nk_node k = i \<and> nk_principal_type k = GroupPrincipal \<and> nk_principal k = groupId
     then k\<lparr>nk_wrapped := w\<rparr> else k)) ks"

definition applyGroupKeyRotation :: "database \<Rightarrow> uuid \<Rightarrow> uuid \<Rightarrow> uuid \<Rightarrow> bool \<Rightarrow> rotation_body \<Rightarrow> uuid option \<Rightarrow>
    api_error + (database \<times> uuid list)" where
  "applyGroupKeyRotation db orgId groupId actorId isOwner b removeUserId =
     (case queryOne (filter (\<lambda>g. grp_id g = groupId \<and> grp_org g = orgId) (groups db)) of
        None \<Rightarrow> Inl notFound
      | Some g \<Rightarrow>
          if grp_public g \<noteq> gr_expected b then Inl conflict
          else if gr_public b = gr_expected b then Inl badRequest
          else let members = filter (\<lambda>m. gm_group m = groupId) (group_members db)
          in if \<not> isOwner \<and> \<not> list_ex (\<lambda>m. gm_user m = actorId \<and> gm_manager m) members then Inl forbidden
          else if removeUserId \<noteq> None \<and> \<not> list_ex (\<lambda>m. Some (gm_user m) = removeUserId) members then Inl notFound
          else (case exactCoverage (map fst (gr_members b)) (map gm_user (filter (\<lambda>m. Some (gm_user m) \<noteq> removeUserId) members)) of
             Inl e \<Rightarrow> Inl e
           | Inr _ \<Rightarrow>
               (let keys = group_node_keys db orgId groupId in
                case exactCoverage (map fst (gr_nodeKeys b)) (map fst keys) of
                  Inl e \<Rightarrow> Inl e
                | Inr _ \<Rightarrow>
                    if list_ex (\<lambda>(i, _, e). map_of (rev keys) i \<noteq> Some e) (gr_nodeKeys b) then Inl conflict
                    else let db1 = db\<lparr>groups := map (\<lambda>g. if grp_id g = groupId
                                        then g\<lparr>grp_public := gr_public b, grp_rotation_required := False\<rparr> else g) (groups db),
                                      group_members := rewrap_members groupId (gr_members b)
                                        (filter (\<lambda>m. \<not> (gm_group m = groupId \<and> Some (gm_user m) = removeUserId)) (group_members db)),
                                      node_keys := rewrap_nodes groupId (gr_nodeKeys b) (node_keys db)\<rparr>
                         in Inr (markRequiredNodeRotations db1 (map fst keys)))))"

text \<open>\<open>body\<close> is the parsed body, \<open>None\<close> when one of its four fields is missing.\<close>

definition rotate_group :: "database \<Rightarrow> auth_user option \<Rightarrow> uuid \<Rightarrow> uuid \<Rightarrow> rotation_body option \<Rightarrow> uuid list handled" where
  "rotate_group db u orgId groupId body =
     check db (requireOrgPerm db u orgId ''group.manage'') (\<lambda>ctx.
     check db (requireUser u) (\<lambda>user.
     check db (when_ok (body \<noteq> None) (clientOutdated 400)) (\<lambda>_.
     check db (when_ok (rotation_schema (the body)) validation) (\<lambda>_.
     check db (applyGroupKeyRotation db orgId groupId (au_id user) (oc_isOwner ctx) (the body) None) (\<lambda>(db', ids).
       (Inr ids, db', map (\<lambda>i. KickNode i ''key-rotation-required'') ids @
          [NotifyMembers orgId, AuditEntry (Some orgId) (Some (au_id user)) ''group.key.rotate'' groupId]))))))"

definition remove_member :: "database \<Rightarrow> auth_user option \<Rightarrow> uuid \<Rightarrow> uuid \<Rightarrow> uuid \<Rightarrow> rotation_body option \<Rightarrow> uuid list handled" where
  "remove_member db u orgId groupId userId body =
     check db (requireOrgPerm db u orgId ''group.manage'') (\<lambda>ctx.
     check db (requireUser u) (\<lambda>user.
     check db (when_ok (body \<noteq> None) (clientOutdated 400)) (\<lambda>_.
     check db (when_ok (rotation_schema (the body)) validation) (\<lambda>_.
     check db (applyGroupKeyRotation db orgId groupId (au_id user) (oc_isOwner ctx) (the body) (Some userId)) (\<lambda>(db', ids).
       (Inr ids, db', map (\<lambda>i. KickNode i ''key-rotation-required'') ids @
          [KickMember userId ''group-member-removed'', AuditEntry (Some orgId) (Some (au_id user)) ''group.member.remove'' groupId,
           NotifyMembers orgId]))))))"

definition delete_group :: "database \<Rightarrow> auth_user option \<Rightarrow> uuid \<Rightarrow> uuid \<Rightarrow> uuid list handled" where
  "delete_group db u orgId groupId =
     check db (requireOrgPerm db u orgId ''group.manage'') (\<lambda>_.
     check db (requireUser u) (\<lambda>user.
     check db (loadGroupInOrg db groupId orgId) (\<lambda>_.
       let members = filter (\<lambda>m. gm_group m = groupId) (group_members db);
           held = (\<lambda>k. nk_principal_type k = GroupPrincipal \<and> nk_principal k = groupId)
       in case markRequiredNodeRotations db (map nk_node (filter held (node_keys db))) of
            (db1, pending) \<Rightarrow>
              (Inr pending,
               db1\<lparr>node_keys := filter (\<lambda>k. \<not> held k) (node_keys db1),
                   groups := filter (\<lambda>g. \<not> (grp_id g = groupId \<and> grp_org g = orgId)) (groups db1),
                   group_members := filter (\<lambda>m. gm_group m \<noteq> groupId) (group_members db1)\<rparr>,
               map (\<lambda>m. KickMember (gm_user m) ''group-deleted'') members @ map (\<lambda>i. KickNode i ''key-rotation-required'') pending @
               [AuditEntry (Some orgId) (Some (au_id user)) ''group.delete'' groupId]))))"

end
