(* ===== verification/Org_Roles.thy ===== *)
theory Org_Roles
  imports Drive_Base
begin

text \<open>
  The roles of an organisation, \<^verbatim>\<open>server/src/routes/roles.ts\<close>: its copies of the system templates and its
  custom roles, whose permissions are a part of the catalogue.
\<close>

section \<open>Roles\<close>

definition loadOrgRole :: "database \<Rightarrow> uuid \<Rightarrow> uuid \<Rightarrow> role_row option" where
  "loadOrgRole db orgId roleId = queryOne (filter (\<lambda>r. role_id r = roleId \<and> role_org r = Some orgId) (roles db))"

record role_body =
  ro_name :: "string option"
  ro_description :: "string option"
  ro_color :: "string option"
  ro_permissions :: "string list option"

definition within :: "nat \<Rightarrow> nat \<Rightarrow> string option \<Rightarrow> bool" where
  "within lo hi s = (case s of None \<Rightarrow> True | Some x \<Rightarrow> lo \<le> length x \<and> length x \<le> hi)"

definition role_patch_schema :: "role_body \<Rightarrow> bool" where
  "role_patch_schema b \<longleftrightarrow> within 1 120 (ro_name b) \<and> within 0 2000 (ro_description b) \<and> within 0 32 (ro_color b) \<and>
     (case ro_permissions b of None \<Rightarrow> True | Some ps \<Rightarrow> length ps \<le> 256)"

definition role_create_schema :: "role_body \<Rightarrow> bool" where
  "role_create_schema b \<longleftrightarrow> role_patch_schema b \<and> ro_name b \<noteq> None \<and> ro_permissions b \<noteq> None"

definition sanitize_strings :: "string list \<Rightarrow> string list" where
  "sanitize_strings ps = sanitizePermissions (JArr (map JStr ps) :: int json)"

definition assertCanGrantPermissions :: "org_context \<Rightarrow> string list \<Rightarrow> api_error + unit" where
  "assertCanGrantPermissions ctx perms =
     (if oc_isOwner ctx then Inr ()
      else if list_ex (\<lambda>p. p \<notin> set (oc_permissions ctx)) perms then Inl forbidden
      else Inr ())"

definition list_roles :: "database \<Rightarrow> auth_user option \<Rightarrow> uuid \<Rightarrow> role_row list handled" where
  "list_roles db u orgId =
     check db (requireMembership db u orgId) (\<lambda>_.
       (Inr (sort_key (\<lambda>r. (\<not> role_is_system r, role_name r)) (filter (\<lambda>r. role_org r = Some orgId) (roles db))), db, []))"

text \<open>Inserting a role; \<open>rnd\<close> is the random part of its key, and the pair of the organisation and the key is
  unique.\<close>

definition insert_role :: "database \<Rightarrow> role_row \<Rightarrow> auth_user \<Rightarrow> uuid \<Rightarrow> string \<Rightarrow> role_row handled" where
  "insert_role db r user orgId action =
     (if list_ex (\<lambda>s. role_org s = role_org r \<and> role_key s = role_key r) (roles db) then stop db internal_error
      else (Inr r, db\<lparr>roles := roles db @ [r]\<rparr>, [AuditEntry (Some orgId) (Some (au_id user)) action (role_id r)]))"

definition create_role :: "uuid \<Rightarrow> string \<Rightarrow> database \<Rightarrow> auth_user option \<Rightarrow> uuid \<Rightarrow> role_body \<Rightarrow> role_row handled" where
  "create_role newId rnd db u orgId b =
     check db (when_ok (role_create_schema b) validation) (\<lambda>_.
     check db (requireOrgPerm db u orgId ''role.create'') (\<lambda>ctx.
     check db (requireUser u) (\<lambda>user.
       let permissions = sanitize_strings (the (ro_permissions b))
       in check db (assertCanGrantPermissions ctx permissions) (\<lambda>_.
            insert_role db \<lparr>role_id = newId, role_org = Some orgId, role_key = ''custom-'' @ rnd, role_name = the (ro_name b),
              role_description = (case ro_description b of None \<Rightarrow> [] | Some d \<Rightarrow> d),
              role_color = (case ro_color b of None \<Rightarrow> ''#1d4ed8'' | Some c \<Rightarrow> c), role_is_system = False,
              role_permissions = Some permissions\<rparr> user orgId ''role.create''))))"

definition role_edited :: "role_body \<Rightarrow> role_row \<Rightarrow> role_row" where
  "role_edited b r =
     r\<lparr>role_name := (case ro_name b of None \<Rightarrow> role_name r | Some s \<Rightarrow> s),
       role_description := (case ro_description b of None \<Rightarrow> role_description r | Some s \<Rightarrow> s),
       role_color := (case ro_color b of None \<Rightarrow> role_color r | Some s \<Rightarrow> s),
       role_permissions := (case ro_permissions b of None \<Rightarrow> role_permissions r | Some ps \<Rightarrow> Some (sanitize_strings ps))\<rparr>"

definition patch_role :: "database \<Rightarrow> auth_user option \<Rightarrow> uuid \<Rightarrow> uuid \<Rightarrow> role_body \<Rightarrow> role_row handled" where
  "patch_role db u orgId roleId b =
     check db (when_ok (role_patch_schema b) validation) (\<lambda>_.
     check db (requireOrgPerm db u orgId ''role.manage'') (\<lambda>ctx.
     check db (requireUser u) (\<lambda>user.
       (case loadOrgRole db orgId roleId of
          None \<Rightarrow> stop db notFound
        | Some existing \<Rightarrow>
            check db (assertCanGrantPermissions ctx (perms_of existing)) (\<lambda>_.
            check db (case ro_permissions b of
                        None \<Rightarrow> Inr ()
                      | Some ps \<Rightarrow> if role_key existing = ''owner'' then Inl forbidden
                                   else assertCanGrantPermissions ctx (sanitize_strings ps)) (\<lambda>_.
              (Inr (role_edited b existing),
               db\<lparr>roles := map (\<lambda>r. if role_id r = roleId \<and> role_org r = Some orgId then role_edited b r else r) (roles db)\<rparr>,
               (if ro_permissions b = None then []
                else map (\<lambda>j. KickNode j ''acl-changed'') (remdups (map nk_node (filter (\<lambda>k. nk_role k = roleId) (node_keys db)))) @
                     map (\<lambda>m. KickMember (mem_user m) ''role-permissions-changed'')
                       (filter (\<lambda>m. mem_role m = roleId \<and> mem_org m = orgId) (memberships db))) @
               [AuditEntry (Some orgId) (Some (au_id user)) ''role.update'' roleId])))))))"

definition clone_role :: "uuid \<Rightarrow> string \<Rightarrow> database \<Rightarrow> auth_user option \<Rightarrow> uuid \<Rightarrow> uuid \<Rightarrow> role_row handled" where
  "clone_role newId rnd db u orgId roleId =
     check db (requireOrgPerm db u orgId ''role.create'') (\<lambda>ctx.
     check db (requireUser u) (\<lambda>user.
       (case loadOrgRole db orgId roleId of
          None \<Rightarrow> stop db notFound
        | Some src \<Rightarrow>
            let permissions = sanitize_strings (perms_of src)
            in check db (assertCanGrantPermissions ctx permissions) (\<lambda>_.
                 insert_role db \<lparr>role_id = newId, role_org = Some orgId, role_key = ''custom-'' @ rnd,
                   role_name = role_name src @ '' (copie)'', role_description = role_description src, role_color = role_color src,
                   role_is_system = False, role_permissions = Some permissions\<rparr> user orgId ''role.clone''))))"

text \<open>Besides the two counts, a link keeps its role by a foreign key (so does an invitation, whose table is not
  modelled): the deletion then fails with an internal error.\<close>

definition delete_role :: "database \<Rightarrow> auth_user option \<Rightarrow> uuid \<Rightarrow> uuid \<Rightarrow> unit handled" where
  "delete_role db u orgId roleId =
     check db (requireOrgPerm db u orgId ''role.manage'') (\<lambda>_.
     check db (requireUser u) (\<lambda>user.
       (case loadOrgRole db orgId roleId of
          None \<Rightarrow> stop db notFound
        | Some existing \<Rightarrow>
            if role_key existing = ''owner'' then stop db forbidden
            else if length (filter (\<lambda>m. mem_role m = roleId) (memberships db)) > 0 \<or>
                    length (filter (\<lambda>k. nk_role k = roleId) (node_keys db)) > 0 then stop db conflict
            else if list_ex (\<lambda>l. sl_role l = roleId) (share_links db) then stop db internal_error
            else (Inr (), db\<lparr>roles := filter (\<lambda>r. \<not> (role_id r = roleId \<and> role_org r = Some orgId)) (roles db)\<rparr>,
                  [AuditEntry (Some orgId) (Some (au_id user)) ''role.delete'' roleId]))))"

end
