(* ===== verification/Drive_Steps.thy ===== *)
theory Drive_Steps
  imports Drive_Tree Drive_Versions Drive_Shares Org_Groups Org_Roles
begin

text \<open>
  The server's Drive as a transition system: each step is one handler that answers a value, or one pass
  of the periodic cleaning. What a handler may do to the database is stated once, as a fact about its
  successful outcome; a request that is refused changes nothing.
\<close>

section \<open>Refusals\<close>

definition inert :: "database \<Rightarrow> 'a handled \<Rightarrow> bool" where
  "inert db h \<longleftrightarrow> (\<forall>e. fst h = Inl e \<longrightarrow> snd h = (db, []))"

lemma inert_check [simp]: "inert db (check db r k) \<longleftrightarrow> (\<forall>a. r = Inr a \<longrightarrow> inert db (k a))"
  by (cases r) (simp_all add: inert_def stop_def)

lemma inert_stop [simp]: "inert db (stop db e)"
  by (simp add: inert_def stop_def)

lemma inert_Inr [simp]: "inert db (Inr v, rest)"
  by (simp add: inert_def)

lemma inertD: "inert db h \<Longrightarrow> h = (Inl e, db', outs) \<Longrightarrow> db' = db \<and> outs = []"
  by (simp add: inert_def)

lemma inert_if [simp]: "inert db (if c then h else k) \<longleftrightarrow> (c \<longrightarrow> inert db h) \<and> (\<not> c \<longrightarrow> inert db k)"
  by simp

lemma inert_option [simp]: "inert db (case x of None \<Rightarrow> h | Some a \<Rightarrow> k a) \<longleftrightarrow> (x = None \<longrightarrow> inert db h) \<and> (\<forall>a. x = Some a \<longrightarrow> inert db (k a))"
  by (cases x) auto

lemma requireUser_simps [simp]: "requireUser (Some user) = Inr user" "requireUser None = Inl unauthorized"
  by (simp_all add: requireUser_def)

lemma requireUser_Inr [simp]: "requireUser u = Inr user \<longleftrightarrow> u = Some user"
  by (cases u) auto

lemma forget_Inr [simp]: "map_sum id (\<lambda>_. ()) r = Inr () \<longleftrightarrow> (\<exists>a. r = Inr a)"
  by (cases r) auto

lemma if_unit_Inr: "(if c then Inr () else r) = (Inr () :: api_error + unit) \<longleftrightarrow> (\<not> c \<longrightarrow> r = Inr ())"
  by simp

lemma sum_unit_case: "(\<exists>u. r = (Inr u :: api_error + unit)) \<longleftrightarrow> r = Inr ()"
  by auto

section \<open>Successful outcomes\<close>

lemma share_rows_nodes: "k \<in> set (share_rows fresh i by shares) \<Longrightarrow> nk_node k = i"
  by (auto simp: share_rows_def share_row_def)

lemma create_node_ok:
  "create_node site lc fresh now db u b = (Inr n, db', outs) \<Longrightarrow> \<exists>user. u = Some user \<and>
     create_schema b \<and> create_place site db u b = Inr () \<and> has_user_share (au_id user) (cn_shares b) \<and>
     each_ok (\<lambda>s. validateRole db (sh_role s) (cn_org b)) (cn_shares b) = Inr () \<and>
     (\<exists>legacy. assertFreshPrincipalKeys db (cn_org b) (cn_shares b) (cn_orgKeyEpoch b) lc = Inr legacy) \<and>
     n = new_node b (fresh 0) (au_id user) now \<and>
     keys_insertable (db\<lparr>nodes := nodes db @ [n]\<rparr>) (share_rows fresh (node_id n) (au_id user) (cn_shares b)) \<and>
     db' = db\<lparr>nodes := nodes db @ [n], node_keys := node_keys db @ share_rows fresh (node_id n) (au_id user) (cn_shares b)\<rparr>"
  by (auto simp: create_node_def check_ok Let_def)

lemma patch_checks_ok:
  "patch_checks site db u i b = Inr user \<Longrightarrow> u = Some user \<and>
    (pb_name b \<noteq> None \<or> pb_meta b \<noteq> None \<longrightarrow> (\<exists>a. requireNodePerm db u i ''node.rename'' = Inr a)) \<and>
    (\<forall>parent. pb_parent b = Some parent \<longrightarrow> move_check site db u i parent = Inr ())"
  by (auto simp: patch_checks_def split: sum.splits option.splits if_splits)

definition moved_out :: "database \<Rightarrow> uuid \<Rightarrow> patch_body \<Rightarrow> uuid \<Rightarrow> int \<Rightarrow> uuid list" where
  "moved_out db i b userId now = (if pb_parent b = None then [] else subtree (on_node i (patched b userId now) (nodes db)) i)"

lemma patch_write_ok:
  "patch_write db user i b now = (Inr m, db', outs) \<Longrightarrow> \<exists>n. node_by_id db i = Some n \<and> \<not> node_rotation_required n \<and>
      m = patched b (au_id user) now n \<and> (\<forall>p. pb_parent b = Some (Some p) \<longrightarrow> p \<in> node_id ` set (nodes db)) \<and>
      db' = db\<lparr>nodes := on_node i (patched b (au_id user) now) (nodes db),
         node_keys := filter (\<lambda>k. \<not> (nk_node k \<in> set (moved_out db i b (au_id user) now) \<and> nk_inherited_from k \<noteq> None)) (node_keys db)\<rparr>"
  by (auto simp: patch_write_def Let_def moved_out_def stop_def split: option.splits if_splits)

lemma patch_node_ok:
  "patch_node site now db u i b = (Inr m, db', outs) \<Longrightarrow> \<exists>user. patch_checks site db u i b = Inr user \<and> patch_write db user i b now = (Inr m, db', outs)"
  by (simp add: patch_node_def check_ok)

lemma trash_node_ok:
  "trash_node now db u i = (Inr v, db', outs) \<Longrightarrow> (\<exists>a. requireNodePerm db u i ''node.delete'' = Inr a) \<and>
     db' = db\<lparr>nodes := on_node i (\<lambda>n. if node_trashed_at n = None then n\<lparr>node_trashed_at := Some now\<rparr> else n) (nodes db)\<rparr>"
  by (auto simp: trash_node_def check_ok Let_def)

lemma restore_node_ok:
  "restore_node db u i = (Inr v, db', outs) \<Longrightarrow> db' = db\<lparr>nodes := on_node i (\<lambda>n. n\<lparr>node_trashed_at := None\<rparr>) (nodes db)\<rparr>"
  by (auto simp: restore_node_def check_ok)

lemma purge_node_ok:
  "purge_node db u i = (Inr v, db', outs) \<Longrightarrow> db' = delete_blobs (subtreeBlobRefs db i) (delete_node i db) \<and>
     (\<exists>n. node_by_id db i = Some n \<and> node_trashed_at n \<noteq> None) \<and> (\<exists>a. requireNodePerm db u i ''node.restore'' = Inr a)"
  by (auto simp: purge_node_def check_ok split: option.splits if_splits)

lemma rotate_node_ok:
  "rotate_node lc fresh now db u i b = (Inr v, db', outs) \<Longrightarrow> \<exists>user access n. u = Some user \<and>
     requireNodePerm db u i ''node.acl.manage'' = Inr access \<and> (\<exists>a. requireNodePerm db u i ''node.share.manage'' = Inr a) \<and>
     node_by_id db i = Some n \<and> has_user_share (na_ownerUserId access) (rb_shares b) \<and>
     roles_valid db (na_orgId access) (map sh_role (rb_shares b)) \<and>
     (rb_expectedEpoch b = None \<or> rb_expectedEpoch b = Some (node_key_epoch n)) \<and>
     (list_ex (\<lambda>k. nk_node k = i \<and> nk_principal_type k = OrgPrincipal) (node_keys db) \<longrightarrow>
        list_ex (\<lambda>s. sh_type s = OrgPrincipal \<and> sh_principal s = na_orgId access) (rb_shares b)) \<and>
     keys_insertable (db\<lparr>node_keys := filter (\<lambda>k. nk_node k \<noteq> i) (node_keys db)\<rparr>) (share_rows fresh i (au_id user) (rb_shares b)) \<and>
     db' = db\<lparr>node_keys := filter (\<lambda>k. nk_node k \<noteq> i) (node_keys db) @ share_rows fresh i (au_id user) (rb_shares b),
         share_links := revoke_links i now (share_links db), nodes := on_node i (rotated b (au_id user) now) (nodes db)\<rparr> \<and>
     v = (rotated b (au_id user) now n, length (filter (\<lambda>l. sl_node l = i \<and> sl_revoked_at l = None) (share_links db))) \<and>
     KickNode i ''rekeyed'' \<in> set outs"
  by (auto simp: rotate_node_def check_ok Let_def split: option.splits if_splits)

definition uploaded :: "string \<Rightarrow> string \<Rightarrow> nat \<Rightarrow> uuid \<Rightarrow> uuid \<Rightarrow> int \<Rightarrow> node_row \<Rightarrow> node_row" where
  "uploaded blob nonce nbytes verId userId now m = m\<lparr>node_content := Some blob, node_content_nonce := Some (hex_buffer nonce),
     node_size := nbytes, node_current_version := Some verId,
     node_body := (node_body m)\<lparr>nb_modified_at := now, nb_modified_by := Some userId\<rparr>\<rparr>"

definition upload_row :: "database \<Rightarrow> uuid \<Rightarrow> string \<Rightarrow> string \<Rightarrow> nat \<Rightarrow> uuid \<Rightarrow> uuid \<Rightarrow> int \<Rightarrow> node_row \<Rightarrow> version_row" where
  "upload_row db i blob nonce nbytes verId userId now n = \<lparr>ver_id = verId, ver_node = i, ver_no = next_version_no db i, ver_content = blob,
     ver_nonce = hex_buffer nonce, ver_size = nbytes, ver_created_by = Some userId, ver_created_at = now, ver_key_epoch = node_key_epoch n\<rparr>"

lemma upload_tx_ok:
  "upload_tx site verId blob now db userId orgId i base nonce nbytes = (Inr m, db') \<Longrightarrow> \<exists>n. node_by_id db i = Some n \<and>
     assertContentBase base n = Inr () \<and> assertOrgQuota db orgId nbytes = Inr () \<and> assertUserQuota site db orgId (node_owner n) nbytes = Inr () \<and>
     m = uploaded blob nonce nbytes verId userId now n \<and>
     db' = db\<lparr>node_versions := node_versions db @ [upload_row db i blob nonce nbytes verId userId now n],
              nodes := on_node i (uploaded blob nonce nbytes verId userId now) (nodes db), blobs := blobs db @ [blob]\<rparr>"
  by (auto simp: upload_tx_def Let_def uploaded_def[abs_def] upload_row_def split: option.splits sum.splits)

lemma handled_pair:
  "(case x of (Inl e, _) \<Rightarrow> stop db e | (Inr n, d) \<Rightarrow> f n d) = (Inr v, db', outs) \<longleftrightarrow> (\<exists>n d. x = (Inr n, d) \<and> f n d = (Inr v, db', outs))"
  by (cases x) (auto simp: stop_def split: sum.splits)

lemma handled_option:
  "(case x of None \<Rightarrow> stop db e | Some a \<Rightarrow> f a) = (Inr v, db', outs) \<longleftrightarrow> (\<exists>a. x = Some a \<and> f a = (Inr v, db', outs))"
  by (cases x) (auto simp: stop_def)

lemma upload_content_ok:
  "upload_content site lc is_uuid safe_int verId blob now db u i q = (Inr m, db', outs) \<Longrightarrow> \<exists>user access base nbytes. u = Some user \<and>
     requireNodePerm db u i ''node.edit'' = Inr access \<and> na_kind access = File \<and>
     contentPreconditions is_uuid safe_int (uq_version q) (uq_epoch q) lc = Inr base \<and> uq_stored q = Some nbytes \<and>
     upload_tx site verId blob now db (au_id user) (na_orgId access) i base (uq_nonce q) nbytes = (Inr m, db')"
  by (auto simp: upload_content_def check_ok handled_option handled_pair)

definition rewritten :: "string \<Rightarrow> string \<Rightarrow> nat \<Rightarrow> int \<Rightarrow> version_row \<Rightarrow> version_row" where
  "rewritten blob nonce nbytes epoch v = v\<lparr>ver_content := blob, ver_nonce := hex_buffer nonce, ver_key_epoch := epoch, ver_size := nbytes\<rparr>"

definition repointed :: "string \<Rightarrow> string \<Rightarrow> nat \<Rightarrow> uuid \<Rightarrow> int \<Rightarrow> node_row \<Rightarrow> node_row" where
  "repointed blob nonce nbytes userId now m = m\<lparr>node_content := Some blob, node_content_nonce := Some (hex_buffer nonce),
     node_size := nbytes, node_body := (node_body m)\<lparr>nb_modified_at := now, nb_modified_by := Some userId\<rparr>\<rparr>"

lemma rewrite_tx_ok:
  "rewrite_tx site blob now db userId orgId i vid nonce nbytes = (Inr old_ref, db') \<Longrightarrow> \<exists>n old. node_by_id db i = Some n \<and>
     find_version db i vid = Some old \<and> old_ref = ver_content old \<and> ver_key_epoch old < node_key_epoch n \<and>
     (ver_size old < nbytes \<longrightarrow> assertOrgQuota db orgId (nbytes - ver_size old) = Inr ()) \<and>
     db' = db\<lparr>node_versions := on_version i vid (rewritten blob nonce nbytes (node_key_epoch n)) (node_versions db),
       nodes := (if node_current_version n = Some vid then on_node i (repointed blob nonce nbytes userId now) (nodes db) else nodes db),
       blobs := blobs db @ [blob]\<rparr>"
proof -
  assume a: "rewrite_tx site blob now db userId orgId i vid nonce nbytes = (Inr old_ref, db')"
  from a obtain n old where n: "node_by_id db i = Some n" "find_version db i vid = Some old" "\<not> ver_key_epoch old \<ge> node_key_epoch n"
    by (auto simp: rewrite_tx_def split: option.splits if_splits)
  let ?q = "if ver_size old < nbytes then case assertOrgQuota db orgId (nbytes - ver_size old) of Inl e \<Rightarrow> Inl e
      | Inr _ \<Rightarrow> assertUserQuota site db orgId (node_owner n) (nbytes - ver_size old) else Inr ()"
  obtain w where q: "?q = Inr w" using a n by (cases ?q) (simp_all add: rewrite_tx_def)
  then have "ver_size old < nbytes \<longrightarrow> assertOrgQuota db orgId (nbytes - ver_size old) = Inr ()"
    by (auto split: if_splits sum.splits)
  moreover have "rewrite_tx site blob now db userId orgId i vid nonce nbytes = (Inr (ver_content old),
     db\<lparr>node_versions := on_version i vid (rewritten blob nonce nbytes (node_key_epoch n)) (node_versions db),
       nodes := (if node_current_version n = Some vid then on_node i (repointed blob nonce nbytes userId now) (nodes db) else nodes db),
       blobs := blobs db @ [blob]\<rparr>)"
    using n q unfolding rewrite_tx_def Let_def rewritten_def[abs_def] repointed_def[abs_def] by simp
  ultimately show ?thesis using n a by auto
qed

lemma rewrite_version_ok:
  "rewrite_version site blob now db u i vid q = (Inr v, db', outs) \<Longrightarrow> \<exists>user access nbytes old db1. u = Some user \<and>
     requireNodePerm db u i ''node.acl.manage'' = Inr access \<and> uq_stored q = Some nbytes \<and>
     rewrite_tx site blob now db (au_id user) (na_orgId access) i vid (uq_nonce q) nbytes = (Inr old, db1) \<and>
     db' = (if old \<noteq> [] then delete_blobs [old] db1 else db1)"
  by (fastforce simp: rewrite_version_def check_ok handled_option handled_pair)

lemma restore_version_ok:
  "restore_version now db u i vid = (Inr m, db', outs) \<Longrightarrow> \<exists>access user v n. u = Some user \<and>
     requireNodePerm db u i ''node.version.restore'' = Inr access \<and> find_version db i vid = Some v \<and> node_by_id db i = Some n \<and>
     m = restored v (au_id user) now n \<and> db' = db\<lparr>nodes := on_node i (restored v (au_id user) now) (nodes db)\<rparr>"
  by (auto simp: restore_version_def restore_read_def restore_write_def check_ok stop_def split: sum.splits option.splits if_splits)

lemma handled_written:
  "(case x of (_, None) \<Rightarrow> stop db e | (d, Some s) \<Rightarrow> f d s) = (Inr v, db', outs) \<longleftrightarrow> (\<exists>s d. x = (d, Some s) \<and> f d s = (Inr v, db', outs))"
  by (cases x) (auto simp: stop_def split: option.splits)

lemma if_stop_ok: "(if c then stop db e else h) = (Inr v, db', outs) \<longleftrightarrow> \<not> c \<and> h = (Inr v, db', outs)"
  by simp

lemma create_share_ok:
  "create_share lc newId db u i epoch b = (Inr sid, db', outs) \<Longrightarrow> \<exists>user access. u = Some user \<and>
     requireNodePerm db u i ''node.share.internal'' = Inr access \<and>
     validateRoleCapped db (sh_role b) (na_orgId access) (na_permissions access) = Inr () \<and>
     (share_named db i (sh_type b) (sh_principal b) \<noteq> None \<longrightarrow>
        sh_type b \<noteq> OrgPrincipal \<and> \<not> (sh_type b = UserPrincipal \<and> sh_principal b = na_ownerUserId access) \<and>
        (\<exists>a. requireNodePerm db u i ''node.acl.manage'' = Inr a) \<and> (\<exists>a. requireNodePerm db u i ''node.share.manage'' = Inr a)) \<and>
     (sh_type b = UserPrincipal \<or> (\<exists>legacy. assertFreshPrincipalKeys db (na_orgId access) [b] epoch lc = Inr legacy)) \<and>
     inherited_known db b \<and>
     write_share db newId (au_id user) i (share_named db i (sh_type b) (sh_principal b)) b = (db', Some sid)"
proof -
  assume a: "create_share lc newId db u i epoch b = (Inr sid, db', outs)"
  let ?ex = "share_named db i (sh_type b) (sh_principal b)"
  obtain user access where u: "u = Some user" "requireNodePerm db u i ''node.share.internal'' = Inr access"
      "validateRoleCapped db (sh_role b) (na_orgId access) (na_permissions access) = Inr ()"
    using a by (auto simp: create_share_def check_ok)
  let ?prot = "sh_type b = OrgPrincipal \<or> sh_type b = UserPrincipal \<and> sh_principal b = na_ownerUserId access"
  note c = a[unfolded create_share_def check_ok Let_def u(2)[unfolded u(1)] u(1), simplified u(3) if_stop_ok handled_written, simplified]
  have prot: "?ex \<noteq> None \<Longrightarrow> \<not> ?prot" using c by auto
  have w: "write_share db newId (au_id user) i ?ex b = (db', Some sid)" "inherited_known db b"
    "sh_type b = UserPrincipal \<or> (\<exists>legacy. assertFreshPrincipalKeys db (na_orgId access) [b] epoch lc = Inr legacy)"
    "?ex \<noteq> None \<Longrightarrow> (\<exists>a. requireNodePerm db u i ''node.acl.manage'' = Inr a) \<and> (\<exists>a. requireNodePerm db u i ''node.share.manage'' = Inr a)"
    using c u by (auto simp: check_ok handled_written if_stop_ok split: if_splits)
  show ?thesis using u w prot by blast
qed

lemma write_share_nodes:
  "write_share db newId by i existing b = (db', s) \<Longrightarrow> \<exists>ks. db' = db\<lparr>node_keys := ks\<rparr>"
  by (auto simp: write_share_def update_share_def insert_share_def split: option.splits if_splits)
     (metis database.surjective database.update_convs(8))

lemma patch_share_ok:
  "patch_share db u i sid rid = (Inr v, db', outs) \<Longrightarrow> \<exists>user access. u = Some user \<and>
     requireNodePerm db u i ''node.acl.manage'' = Inr access \<and>
     validateRoleCapped db rid (na_orgId access) (na_permissions access) = Inr () \<and>
     db' = db\<lparr>node_keys := map (\<lambda>k. if nk_id k = sid \<and> nk_node k = i then k\<lparr>nk_role := rid\<rparr> else k) (node_keys db)\<rparr>"
  by (auto simp: patch_share_def check_ok split: if_splits)

definition below_share :: "database \<Rightarrow> uuid \<Rightarrow> bool \<Rightarrow> node_access \<Rightarrow> node_key_row \<Rightarrow> node_key_row \<Rightarrow> bool" where
  "below_share db i deep access share k \<longleftrightarrow> deep \<and> na_kind access = Folder \<and> deep_row db i share k"

lemma delete_share_ok:
  "delete_share db u i sid deep = (Inr v, db', outs) \<Longrightarrow> \<exists>user access share. u = Some user \<and>
     requireNodePerm db u i ''node.share.manage'' = Inr access \<and> share \<in> set (node_keys db) \<and> nk_id share = sid \<and> nk_node share = i \<and>
     \<not> (nk_principal_type share = UserPrincipal \<and> nk_principal share = na_ownerUserId access) \<and>
     db' = db\<lparr>node_keys := filter (\<lambda>k. \<not> (nk_id k = sid \<and> nk_node k = i) \<and> \<not> below_share db i deep access share k) (node_keys db)\<rparr>"
  by (auto simp: delete_share_def check_ok handled_option Let_def below_share_def conj_commute dest!: queryOne_Some split: if_splits)

lemma create_link_ok:
  "create_link H tok newId db u i rid w pw ex mx = (Inr v, db', outs) \<Longrightarrow> \<exists>user access l. u = Some user \<and>
     requireNodePerm db u i ''node.share.link'' = Inr access \<and> validateRoleCapped db rid (na_orgId access) (na_permissions access) = Inr () \<and>
     opt_ok (\<lambda>m. 0 < m) mx \<and> H tok \<notin> sl_token_hash ` set (share_links db) \<and>
     l = \<lparr>sl_id = newId, sl_node = i, sl_token_hash = H tok, sl_role = rid, sl_wrapped = w, sl_has_password = pw, sl_expires_at = ex,
          sl_max_downloads = mx, sl_download_count = 0, sl_can_sign = False, sl_created_by = Some (au_id user), sl_revoked_at = None\<rparr> \<and>
     db' = db\<lparr>share_links := share_links db @ [l]\<rparr>"
  by (auto simp: create_link_def check_ok Let_def)

lemma revoke_link_ok:
  "revoke_link now db u i lid = (Inr v, db', outs) \<Longrightarrow> \<exists>target parties. target \<in> set (share_links db) \<and> live_link i lid target \<and>
     (\<exists>access. revoke_access db u i target = Inr access) \<and>
     db' = db\<lparr>share_links := map (\<lambda>l. if live_link i lid l then l\<lparr>sl_revoked_at := Some now\<rparr> else l) (share_links db), sign_parties := parties\<rparr>"
  by (auto simp: revoke_link_def check_ok handled_option dest!: queryOne_Some)

lemma link_count_ok:
  "link_count db lid ref = (Inr v, db', outs) \<Longrightarrow> v = ref \<and> (\<exists>l\<in>set (share_links db). may_count lid l) \<and>
     db' = db\<lparr>share_links := map (\<lambda>l. if may_count lid l then l\<lparr>sl_download_count := sl_download_count l + 1\<rparr> else l) (share_links db)\<rparr>"
  by (auto simp: link_count_def list_ex_iff stop_def split: if_splits)

lemma create_group_ok:
  "create_group newId db u orgId b = (Inr v, db', outs) \<Longrightarrow> grp_id (fst v) = newId \<and> grp_org (fst v) = orgId \<and>
     list_all (\<lambda>m. is_active_member db orgId (mi_user m)) (gb_members b) \<and> (\<exists>ctx. requireOrgPerm db u orgId ''group.create'' = Inr ctx) \<and>
     db' = db\<lparr>groups := groups db @ [fst v], group_members := fold (upsert_member newId) (gb_members b) (group_members db)\<rparr>"
  by (auto simp: create_group_def check_ok Let_def)

lemma add_member_ok:
  "add_member lc db u orgId gid ex m = (Inr v, db', outs) \<Longrightarrow> \<exists>ctx user. u = Some user \<and>
     requireOrgPerm db u orgId ''group.manage'' = Inr ctx \<and> (oc_isOwner ctx \<or> is_manager db gid (au_id user)) \<and>
     is_active_member db orgId (mi_user m) \<and> db' = db\<lparr>group_members := upsert_member gid m (group_members db)\<rparr>"
  by (auto simp: add_member_def check_ok)

definition marked :: "uuid list \<Rightarrow> node_row \<Rightarrow> node_row" where
  "marked ids n = (if node_id n \<in> set ids then n\<lparr>node_rotation_required := True\<rparr> else n)"

lemma markRequired_eq:
  "markRequiredNodeRotations db ids = (db\<lparr>nodes := map (marked (subtrees (nodes db) ids)) (nodes db)\<rparr>,
     [node_id n. n \<leftarrow> nodes db, node_id n \<in> set (subtrees (nodes db) ids)])"
proof (cases "ids = []")
  case True
  have "subtrees (nodes db) [] = []" by (simp add: subtrees_def sub_rec.simps)
  moreover have "map (marked []) ns = ns" for ns by (induction ns) (simp_all add: marked_def)
  ultimately show ?thesis using True by (simp add: markRequiredNodeRotations_def)
qed (simp add: markRequiredNodeRotations_def Let_def marked_def[abs_def])

lemma group_rotation_ok:
  "applyGroupKeyRotation db orgId gid actor isOwner b rm = Inr (db', ids) \<Longrightarrow> \<exists>g gs ms. g \<in> set (groups db) \<and> grp_id g = gid \<and> grp_org g = orgId \<and>
     grp_public g = gr_expected b \<and> gr_public b \<noteq> gr_expected b \<and>
     (isOwner \<or> (\<exists>m\<in>set (group_members db). gm_group m = gid \<and> gm_user m = actor \<and> gm_manager m)) \<and>
     exactCoverage (map fst (gr_members b)) (map gm_user (filter (\<lambda>m. Some (gm_user m) \<noteq> rm) (filter (\<lambda>m. gm_group m = gid) (group_members db)))) = Inr () \<and>
     exactCoverage (map fst (gr_nodeKeys b)) (map fst (group_node_keys db orgId gid)) = Inr () \<and>
     gs = map (\<lambda>g. if grp_id g = gid then g\<lparr>grp_public := gr_public b, grp_rotation_required := False\<rparr> else g) (groups db) \<and>
     ms = rewrap_members gid (gr_members b) (filter (\<lambda>m. \<not> (gm_group m = gid \<and> Some (gm_user m) = rm)) (group_members db)) \<and>
     ids = [node_id n. n \<leftarrow> nodes db, node_id n \<in> set (subtrees (nodes db) (map fst (group_node_keys db orgId gid)))] \<and>
     db' = db\<lparr>groups := gs, group_members := ms, node_keys := rewrap_nodes gid (gr_nodeKeys b) (node_keys db),
              nodes := map (marked (subtrees (nodes db) (map fst (group_node_keys db orgId gid)))) (nodes db)\<rparr>"
  by (auto simp: applyGroupKeyRotation_def Let_def markRequired_eq list_ex_iff split: option.splits if_splits sum.splits dest!: queryOne_Some)

lemma rotate_group_ok:
  "rotate_group db u orgId gid body = (Inr v, db', outs) \<Longrightarrow> \<exists>ctx user b. u = Some user \<and> body = Some b \<and>
     requireOrgPerm db u orgId ''group.manage'' = Inr ctx \<and>
     applyGroupKeyRotation db orgId gid (au_id user) (oc_isOwner ctx) b None = Inr (db', v) \<and>
     (\<forall>i\<in>set v. KickNode i ''key-rotation-required'' \<in> set outs)"
  by (auto simp: rotate_group_def check_ok split: prod.splits)

lemma remove_member_ok:
  "remove_member db u orgId gid uid body = (Inr v, db', outs) \<Longrightarrow> \<exists>ctx user b. u = Some user \<and> body = Some b \<and>
     requireOrgPerm db u orgId ''group.manage'' = Inr ctx \<and>
     applyGroupKeyRotation db orgId gid (au_id user) (oc_isOwner ctx) b (Some uid) = Inr (db', v) \<and>
     (\<forall>i\<in>set v. KickNode i ''key-rotation-required'' \<in> set outs) \<and> KickMember uid ''group-member-removed'' \<in> set outs"
  by (auto simp: remove_member_def check_ok split: prod.splits)

lemma delete_group_ok:
  "delete_group db u orgId gid = (Inr v, db', outs) \<Longrightarrow> \<exists>g. loadGroupInOrg db gid orgId = Inr g \<and> (\<exists>ctx. requireOrgPerm db u orgId ''group.manage'' = Inr ctx) \<and>
     (let held = (\<lambda>k. nk_principal_type k = GroupPrincipal \<and> nk_principal k = gid) in
      db' = db\<lparr>nodes := map (marked (subtrees (nodes db) (map nk_node (filter held (node_keys db))))) (nodes db),
               node_keys := filter (\<lambda>k. \<not> held k) (node_keys db),
               groups := filter (\<lambda>g. \<not> (grp_id g = gid \<and> grp_org g = orgId)) (groups db),
               group_members := filter (\<lambda>m. gm_group m \<noteq> gid) (group_members db)\<rparr>)"
  by (auto simp: delete_group_def check_ok Let_def markRequired_eq)

lemma insert_role_ok:
  "insert_role db r user orgId act = (Inr v, db', outs) \<Longrightarrow> v = r \<and> db' = db\<lparr>roles := roles db @ [r]\<rparr>"
  by (auto simp: insert_role_def stop_def split: if_splits)

lemma create_role_ok:
  "create_role newId rnd db u orgId b = (Inr r, db', outs) \<Longrightarrow> \<exists>ctx. requireOrgPerm db u orgId ''role.create'' = Inr ctx \<and>
     assertCanGrantPermissions ctx (perms_of r) = Inr () \<and> role_id r = newId \<and> role_org r = Some orgId \<and> db' = db\<lparr>roles := roles db @ [r]\<rparr>"
  by (auto simp: create_role_def check_ok Let_def perms_of_def dest!: insert_role_ok)

lemma clone_role_ok:
  "clone_role newId rnd db u orgId rid = (Inr r, db', outs) \<Longrightarrow> \<exists>ctx. requireOrgPerm db u orgId ''role.create'' = Inr ctx \<and>
     assertCanGrantPermissions ctx (perms_of r) = Inr () \<and> role_id r = newId \<and> role_org r = Some orgId \<and> db' = db\<lparr>roles := roles db @ [r]\<rparr>"
  by (auto simp: clone_role_def check_ok handled_option Let_def perms_of_def dest!: insert_role_ok)

lemma patch_role_ok:
  "patch_role db u orgId rid b = (Inr r, db', outs) \<Longrightarrow> \<exists>ctx existing. requireOrgPerm db u orgId ''role.manage'' = Inr ctx \<and>
     loadOrgRole db orgId rid = Some existing \<and> assertCanGrantPermissions ctx (perms_of existing) = Inr () \<and>
     (\<forall>ps. ro_permissions b = Some ps \<longrightarrow> role_key existing \<noteq> ''owner'' \<and> assertCanGrantPermissions ctx (sanitize_strings ps) = Inr ()) \<and>
     db' = db\<lparr>roles := map (\<lambda>r. if role_id r = rid \<and> role_org r = Some orgId then role_edited b r else r) (roles db)\<rparr>"
  by (auto simp: patch_role_def check_ok handled_option split: option.splits if_splits)

lemma delete_role_ok:
  "delete_role db u orgId rid = (Inr v, db', outs) \<Longrightarrow> \<exists>existing. loadOrgRole db orgId rid = Some existing \<and> role_key existing \<noteq> ''owner'' \<and>
     rid \<notin> mem_role ` set (memberships db) \<and> rid \<notin> nk_role ` set (node_keys db) \<and> rid \<notin> sl_role ` set (share_links db) \<and>
     db' = db\<lparr>roles := filter (\<lambda>r. \<not> (role_id r = rid \<and> role_org r = Some orgId)) (roles db)\<rparr>"
  by (auto simp: delete_role_def check_ok handled_option filter_empty_conv list_ex_iff split: if_splits)


end
