(* ===== verification/Drive_System.thy ===== *)
theory Drive_System
  imports Drive_Steps
begin

text \<open>
  The Drive as a transition system: one step is one handler that answers a value, the cleaning of one
  trashed node, the retention pass over versions, or any handler of the server that leaves the tables of
  the Drive alone. The first invariant is the tree; the system refines a machine on forests.
\<close>

section \<open>Steps\<close>

text \<open>Identifiers are generated by the database and contents get a key drawn at random: both are new.\<close>

definition used_ids :: "database \<Rightarrow> uuid set" where
  "used_ids db = node_id ` set (nodes db) \<union> nk_id ` set (node_keys db) \<union> ver_id ` set (node_versions db) \<union>
     sl_id ` set (share_links db)"

definition new_ids :: "(nat \<Rightarrow> uuid) \<Rightarrow> database \<Rightarrow> bool" where
  "new_ids fresh db \<longleftrightarrow> inj fresh \<and> range fresh \<inter> used_ids db = {}"

definition used_refs :: "database \<Rightarrow> string set" where
  "used_refs db = set (blobs db) \<union> ver_content ` set (node_versions db)"

definition new_blob :: "string \<Rightarrow> database \<Rightarrow> bool" where
  "new_blob ref db \<longleftrightarrow> ref \<noteq> [] \<and> ref \<notin> used_refs db"

definition same_drive :: "database \<Rightarrow> database \<Rightarrow> bool" where
  "same_drive db db' \<longleftrightarrow> nodes db' = nodes db \<and> node_keys db' = node_keys db \<and> node_versions db' = node_versions db \<and>
     share_links db' = share_links db \<and> blobs db' = blobs db"

inductive drive_step :: "database \<Rightarrow> drive_effect list \<Rightarrow> database \<Rightarrow> bool" where
  step_create: "create_node site lc fresh now db u cb = (Inr n, db', outs) \<Longrightarrow> new_ids fresh db \<Longrightarrow> drive_step db outs db'"
| step_patch: "patch_node site now db u i pb = (Inr n, db', outs) \<Longrightarrow> drive_step db outs db'"
| step_trash: "trash_node now db u i = (Inr v, db', outs) \<Longrightarrow> drive_step db outs db'"
| step_restore: "restore_node db u i = (Inr v, db', outs) \<Longrightarrow> drive_step db outs db'"
| step_purge: "purge_node db u i = (Inr v, db', outs) \<Longrightarrow> drive_step db outs db'"
| step_rotate: "rotate_node lc fresh now db u i rb = (Inr r, db', outs) \<Longrightarrow> new_ids fresh db \<Longrightarrow> drive_step db outs db'"
| step_upload: "upload_content site lc is_uuid safe_int vid blob now db u i q = (Inr n, db', outs) \<Longrightarrow> vid \<notin> used_ids db \<Longrightarrow>
    new_blob blob db \<Longrightarrow> drive_step db outs db'"
| step_rewrite: "rewrite_version site blob now db u i vid q = (Inr v, db', outs) \<Longrightarrow> new_blob blob db \<Longrightarrow> drive_step db outs db'"
| step_revert: "restore_version now db u i vid = (Inr n, db', outs) \<Longrightarrow> drive_step db outs db'"
| step_sweep: "purge_candidate n (db, []) = (db', outs) \<Longrightarrow> drive_step db outs db'"
| step_retention: "drive_step db [] (purgeOldVersions site now db)"
| step_share: "create_share lc newId db u i epoch s = (Inr sid, db', outs) \<Longrightarrow> newId \<notin> used_ids db \<Longrightarrow> drive_step db outs db'"
| step_share_role: "patch_share db u i sid rid = (Inr v, db', outs) \<Longrightarrow> drive_step db outs db'"
| step_unshare: "delete_share db u i sid deep = (Inr v, db', outs) \<Longrightarrow> drive_step db outs db'"
| step_link: "create_link H tok newId db u i rid w pw ex mx = (Inr r, db', outs) \<Longrightarrow> newId \<notin> used_ids db \<Longrightarrow> drive_step db outs db'"
| step_unlink: "revoke_link now db u i lid = (Inr v, db', outs) \<Longrightarrow> drive_step db outs db'"
| step_count: "link_count db lid ref = (Inr r, db', outs) \<Longrightarrow> drive_step db outs db'"
| step_team: "rotate_group db u orgId gid rotb = (Inr ids, db', outs) \<Longrightarrow> drive_step db outs db'"
| step_leave: "remove_member db u orgId gid uid rotb = (Inr ids, db', outs) \<Longrightarrow> drive_step db outs db'"
| step_ungroup: "delete_group db u orgId gid = (Inr ids, db', outs) \<Longrightarrow> drive_step db outs db'"
| step_elsewhere: "same_drive db db' \<Longrightarrow> drive_step db outs db'"

text \<open>The handlers of teams and roles that write no table of the Drive are among the last.\<close>

lemma elsewhere_steps:
  "create_group newId db u orgId gb = (Inr g, db', outs) \<Longrightarrow> drive_step db outs db'"
  "add_member lc db u orgId gid ex m = (Inr v, db', outs) \<Longrightarrow> drive_step db outs db'"
  "create_role newId rnd db u orgId ro = (Inr r, db', outs) \<Longrightarrow> drive_step db outs db'"
  "clone_role newId rnd db u orgId rid = (Inr r, db', outs) \<Longrightarrow> drive_step db outs db'"
  "patch_role db u orgId rid ro = (Inr r, db', outs) \<Longrightarrow> drive_step db outs db'"
  "delete_role db u orgId rid = (Inr v, db', outs) \<Longrightarrow> drive_step db outs db'"
  by (rule step_elsewhere, auto simp: same_drive_def dest!: create_group_ok add_member_ok create_role_ok clone_role_ok patch_role_ok delete_role_ok)+

inductive drive_reach :: "database \<Rightarrow> bool" where
  reach_empty: "drive_reach empty_db"
| reach_step: "drive_reach db \<Longrightarrow> drive_step db outs db' \<Longrightarrow> drive_reach db'"

section \<open>The tree\<close>

text \<open>What a step does to the parent links: nothing, a new leaf, a move outside the node's own subtree, or the
  deletion of a subtree.\<close>

inductive tree_effect :: "database \<Rightarrow> database \<Rightarrow> bool" where
  effect_none: "links (nodes db') = links (nodes db) \<Longrightarrow> tree_effect db db'"
| effect_leaf: "nodes db' = nodes db @ [n] \<Longrightarrow> node_id n \<notin> node_id ` set (nodes db) \<Longrightarrow>
    (\<And>p. node_parent n = Some p \<Longrightarrow> \<exists>m\<in>set (nodes db). node_id m = p \<and> node_org m = node_org n) \<Longrightarrow> tree_effect db db'"
| effect_move: "node_by_id db i = Some n \<Longrightarrow> (\<And>n. node_id (f n) = node_id n) \<Longrightarrow> (\<And>n. node_org (f n) = node_org n) \<Longrightarrow>
    (\<And>n. node_parent (f n) = parent) \<Longrightarrow>
    (\<And>p. parent = Some p \<Longrightarrow> (\<exists>m\<in>set (nodes db). node_id m = p \<and> node_org m = node_org n) \<and> p \<notin> set (subtree (nodes db) i)) \<Longrightarrow>
    nodes db' = on_node i f (nodes db) \<Longrightarrow> tree_effect db db'"
| effect_prune: "nodes db' = nodes (delete_node i db) \<Longrightarrow> tree_effect db db'"

lemma tree_effect_ok: "tree_effect db db' \<Longrightarrow> tree_ok db \<Longrightarrow> tree_ok db'"
proof (induction rule: tree_effect.induct)
  case (effect_none db' db)
  show ?case using tree_ok_links[OF effect_none.hyps] effect_none.prems by blast
next
  case (effect_leaf db' db n)
  show ?case using tree_ok_add[OF effect_leaf.prems effect_leaf.hyps(2,3,1)] by simp
next
  case (effect_move db i n f parent db')
  show ?case using tree_ok_move[OF effect_move.prems effect_move.hyps(1-6)] by simp
next
  case (effect_prune db' i db)
  have "links (nodes db') = links (nodes (delete_node i db))" using effect_prune by simp
  then show ?case using tree_ok_delete[OF effect_prune.prems, of i] tree_ok_links by blast
qed

lemma patched_keeps [simp]:
  "node_id (patched b userId now n) = node_id n" "node_org (patched b userId now n) = node_org n"
  "node_owner (patched b userId now n) = node_owner n" "node_kind (patched b userId now n) = node_kind n"
  "node_content (patched b userId now n) = node_content n" "node_content_nonce (patched b userId now n) = node_content_nonce n"
  "node_size (patched b userId now n) = node_size n" "node_current_version (patched b userId now n) = node_current_version n"
  "node_key_epoch (patched b userId now n) = node_key_epoch n"
  "node_rotation_required (patched b userId now n) = node_rotation_required n"
  "node_parent (patched b userId now n) = (case pb_parent b of None \<Rightarrow> node_parent n | Some p \<Rightarrow> p)"
  by (simp_all add: patched_def Let_def split: option.splits)

lemma create_place_parent:
  assumes "create_place site db u b = Inr ()" "cn_parent b = Some p"
  shows "\<exists>m\<in>set (nodes db). node_id m = p \<and> node_org m = cn_org b"
proof -
  obtain a where a: "requireNodePerm db u p ''node.create'' = Inr a" "na_orgId a = cn_org b"
    using assms by (auto simp: create_place_def split: sum.splits)
  obtain n where "n \<in> set (nodes db)" "node_id n = p" "na_orgId a = node_org n" using requireNodePerm_node[OF a(1)] .
  with a(2) show ?thesis by auto
qed

lemma create_node_node:
  "create_node site lc fresh now db u b = (Inr n, db', outs) \<Longrightarrow> create_place site db u b = Inr () \<and> nodes db' = nodes db @ [n] \<and>
     node_id n = fresh 0 \<and> node_org n = cn_org b \<and> node_parent n = cn_parent b \<and> node_content n = None \<and> node_current_version n = None \<and>
     node_key_epoch n = 1 \<and> \<not> node_rotation_required n"
  by (auto simp: create_node_def check_ok Let_def new_node_def)

lemma move_check_target:
  assumes "move_check site db u i (Some p) = Inr ()" "node_by_id db i = Some n"
  shows "(\<exists>m\<in>set (nodes db). node_id m = p \<and> node_org m = node_org n) \<and> p \<notin> set (subtree (nodes db) i)"
proof -
  obtain a t where a: "requireNodePerm db u i ''node.move'' = Inr a" "requireNodePerm db u p ''node.create'' = Inr t"
      "na_orgId t = na_orgId a" "p \<notin> set (subtree (nodes db) i)"
    using assms(1) by (auto simp: move_check_def split: sum.splits if_splits)
  obtain m where "node_by_id db i = Some m" "na_orgId a = node_org m" using requireNodePerm_node[OF a(1)] .
  moreover obtain k where "k \<in> set (nodes db)" "node_id k = p" "na_orgId t = node_org k" using requireNodePerm_node[OF a(2)] .
  ultimately show ?thesis using a assms(2) by auto
qed

lemma links_marked [simp]: "links (map (marked ids) ns) = links ns"
  by (simp add: links_def marked_def comp_def)

lemma nodes_delete_blobs [simp]: "nodes (delete_blobs refs db) = nodes db"
  by (simp add: delete_blobs_def)

lemma nodes_purgeOldVersions [simp]: "nodes (purgeOldVersions site now db) = nodes db"
  by (simp add: purgeOldVersions_def Let_def)

lemma patch_tree_effect:
  assumes "patch_node site now db u i pb = (Inr n, db', outs)"
  shows "tree_effect db db'"
proof -
  obtain user where c: "patch_checks site db u i pb = Inr user" and w: "patch_write db user i pb now = (Inr n, db', outs)"
    using patch_node_ok[OF assms] by blast
  obtain m where m: "node_by_id db i = Some m" and ns: "nodes db' = on_node i (patched pb (au_id user) now) (nodes db)"
    using patch_write_ok[OF w] by auto
  show ?thesis
  proof (cases "pb_parent pb")
    case None
    then have "links (nodes db') = links (nodes db)" unfolding ns by (intro links_on_node) simp
    then show ?thesis by (rule effect_none)
  next
    case (Some parent)
    then have mv: "move_check site db u i parent = Inr ()" using patch_checks_ok[OF c] by blast
    show ?thesis
      by (rule effect_move[OF m _ _ _ _ ns, of parent]) (use Some mv move_check_target[OF _ m] in auto)
  qed
qed

lemma drive_step_tree: "drive_step db outs db' \<Longrightarrow> tree_effect db db'"
proof (induction rule: drive_step.induct)
  case (step_create site lc fresh now db u cb n db' outs)
  note n = create_node_node[OF step_create(1)]
  show ?case
  proof (rule effect_leaf)
    show "nodes db' = nodes db @ [n]" using n by simp
    show "node_id n \<notin> node_id ` set (nodes db)" using step_create(2) n by (auto simp: new_ids_def used_ids_def)
    show "\<exists>m\<in>set (nodes db). node_id m = p \<and> node_org m = node_org n" if "node_parent n = Some p" for p
      using create_place_parent[of site db u cb p] that n by simp
  qed
next
  case (step_patch site now db u i pb n db' outs)
  then show ?case by (rule patch_tree_effect)
next
  case (step_purge db u i v db' outs)
  show ?case using purge_node_ok[OF step_purge] by (intro effect_prune[of _ i]) simp
next
  case (step_sweep n db db' outs)
  then show ?case by (intro effect_prune[of _ "node_id n"]) (auto simp: purge_candidate_def)
next
  case (step_trash now db u i v db' outs)
  show ?case by (rule effect_none) (use trash_node_ok[OF step_trash] in \<open>auto intro!: links_on_node\<close>)
next
  case (step_restore db u i v db' outs)
  show ?case by (rule effect_none) (use restore_node_ok[OF step_restore] in \<open>auto intro!: links_on_node\<close>)
next
  case (step_rotate lc fresh now db u i rb r db' outs)
  show ?case by (rule effect_none) (use rotate_node_ok[OF step_rotate(1)] in \<open>auto intro!: links_on_node simp: rotated_def\<close>)
next
  case (step_upload site lc is_uuid safe_int vid blob now db u i q n db' outs)
  show ?case by (rule effect_none)
    (use upload_content_ok[OF step_upload(1)] in \<open>auto dest!: upload_tx_ok intro!: links_on_node simp: uploaded_def\<close>)
next
  case (step_rewrite site blob now db u i vid q v db' outs)
  show ?case by (rule effect_none)
    (use rewrite_version_ok[OF step_rewrite(1)] in \<open>auto dest!: rewrite_tx_ok intro!: links_on_node simp: repointed_def\<close>)
next
  case (step_revert now db u i vid n db' outs)
  show ?case by (rule effect_none) (use restore_version_ok[OF step_revert] in \<open>auto intro!: links_on_node simp: restored_def\<close>)
next
  case (step_share lc newId db u i epoch s sid db' outs)
  show ?case by (rule effect_none) (use create_share_ok[OF step_share(1)] in \<open>auto dest!: write_share_nodes\<close>)
next
  case (step_team db u orgId gid rotb ids db' outs)
  show ?case by (rule effect_none) (use rotate_group_ok[OF step_team] in \<open>auto dest!: group_rotation_ok\<close>)
next
  case (step_leave db u orgId gid uid rotb ids db' outs)
  show ?case by (rule effect_none) (use remove_member_ok[OF step_leave] in \<open>auto dest!: group_rotation_ok\<close>)
next
  case (step_ungroup db u orgId gid ids db' outs)
  show ?case by (rule effect_none) (use delete_group_ok[OF step_ungroup] in \<open>auto simp: Let_def\<close>)
qed (auto intro!: effect_none simp: same_drive_def dest!: patch_share_ok delete_share_ok create_link_ok revoke_link_ok link_count_ok)

lemma reach_tree_ok: "drive_reach db \<Longrightarrow> tree_ok db"
proof (induction rule: drive_reach.induct)
  case reach_empty
  then show ?case by (simp add: tree_ok_def empty_db_def parent_of_def acyclic_def)
next
  case (reach_step db outs db')
  then show ?case using tree_effect_ok[OF drive_step_tree] by blast
qed

lemma reach_ids: "drive_reach db \<Longrightarrow> distinct (map node_id (nodes db))"
  using reach_tree_ok by (simp add: tree_ok_def)

end
