(* ===== verification/Drive_Sample.thy ===== *)
theory Drive_Sample
  imports Drive_System
begin

text \<open>
  A run of the Drive on which the theorems about its steps are instantiated: an organisation with an owner
  and a member, two folders, a file with a content, a share and a link.
\<close>

lemma answered: "\<not> isl (fst h) \<Longrightarrow> h = (Inr (projr (fst h)), fst (snd h), snd (snd h))"
  by (cases h) (auto simp: isl_def)

definition sample_role :: "uuid \<Rightarrow> string list \<Rightarrow> role_row" where
  "sample_role i ps = \<lparr>role_id = i, role_org = Some ''o'', role_key = i, role_name = [], role_description = [], role_color = [],
     role_is_system = False, role_permissions = Some ps\<rparr>"

definition sample_user :: "uuid \<Rightarrow> user_row" where
  "sample_user i = \<lparr>ur_id = i, ur_fingerprint = [], ur_email = [], ur_display_name = [], ur_status = ''active'', ur_token_epoch = 0\<rparr>"

definition sample_member :: "uuid \<Rightarrow> uuid \<Rightarrow> membership_row" where
  "sample_member i r = \<lparr>mem_id = i, mem_org = ''o'', mem_user = i, mem_role = r, mem_status = Active, mem_quota = None\<rparr>"

text \<open>The owner \<open>u\<close>, the member \<open>v\<close>; the role \<open>m\<close> manages shares, the role \<open>a\<close> holds every permission of a node.\<close>

definition sample0 :: database where
  "sample0 = empty_db
    \<lparr>roles := [sample_role ''r'' [''node.view'', ''node.edit''], sample_role ''m'' [''node.view'', ''node.acl.manage'', ''node.share.manage''],
               sample_role ''a'' OWNER_NODE_PERMS],
     orgs := [\<lparr>org_id = ''o'', org_owner = ''u'', org_quota = Some 100, org_key_epoch = 1, org_rotation_required = False\<rparr>],
     memberships := [sample_member ''u'' ''a'', sample_member ''v'' ''r''],
     user_rows := [sample_user ''u'', sample_user ''v'']\<rparr>"

definition sample_auth :: "uuid \<Rightarrow> auth_user option" where
  "sample_auth i = Some \<lparr>au_id = i, au_fingerprint = [], au_email = [], au_displayName = []\<rparr>"

definition sample_site :: site_settings where
  "sample_site = \<lparr>perUserQuotaBytes = Some 100, versionRetentionDays = 1, trashRetentionDays = 30, membersCanCreateSpaces = True,
     diskMarginPercent = 0, set_diskMarginBytes = 0\<rparr>"

definition sample_share :: "uuid \<Rightarrow> uuid \<Rightarrow> key_share" where
  "sample_share i r = \<lparr>sh_type = UserPrincipal, sh_principal = i, sh_role = r, sh_wrapped = [], sh_group_public = None, sh_inherited = None\<rparr>"

definition sample_create :: "uuid option \<Rightarrow> node_kind \<Rightarrow> key_share list \<Rightarrow> create_body" where
  "sample_create parent k shares = \<lparr>cn_orgKeyEpoch = None, cn_org = ''o'', cn_parent = parent, cn_kind = k, cn_name = ''00'', cn_nameNonce = ''00'',
     cn_meta = None, cn_metaNonce = None, cn_appKind = None, cn_shares = shares\<rparr>"

definition sample_ids :: "string \<Rightarrow> nat \<Rightarrow> uuid" where
  "sample_ids p k = p @ replicate k CHR ''x''"

lemma inj_sample_ids: "inj (sample_ids p)"
proof (rule injI)
  fix x y assume "sample_ids p x = sample_ids p y"
  then have "length (replicate x CHR ''x'') = length (replicate y CHR ''x'')" unfolding sample_ids_def by (simp del: length_replicate)
  then show "x = y" by simp
qed

definition no_prefix :: "string \<Rightarrow> database \<Rightarrow> bool" where
  "no_prefix p db = list_all (\<lambda>x. take (length p) x \<noteq> p)
    (map node_id (nodes db) @ map nk_id (node_keys db) @ map ver_id (node_versions db) @ map sl_id (share_links db))"

lemma new_sample_ids: "no_prefix p db \<Longrightarrow> new_ids (sample_ids p) db"
proof -
  assume a: "no_prefix p db"
  have "sample_ids p k \<notin> used_ids db" for k
  proof
    assume "sample_ids p k \<in> used_ids db"
    then have "sample_ids p k \<in> set (map node_id (nodes db) @ map nk_id (node_keys db) @ map ver_id (node_versions db) @ map sl_id (share_links db))"
      by (auto simp: used_ids_def)
    moreover have "\<forall>x\<in>set (map node_id (nodes db) @ map nk_id (node_keys db) @ map ver_id (node_versions db) @ map sl_id (share_links db)).
        take (length p) x \<noteq> p" using a unfolding no_prefix_def list_all_iff .
    ultimately have "take (length p) (sample_ids p k) \<noteq> p" by (rule bspec[rotated])
    then show False by (simp add: sample_ids_def)
  qed
  then show ?thesis by (auto simp: new_ids_def inj_sample_ids)
qed

lemma unused_id: "i \<notin> set (map node_id (nodes db) @ map nk_id (node_keys db) @ map ver_id (node_versions db) @ map sl_id (share_links db)) \<Longrightarrow> i \<notin> used_ids db"
  by (auto simp: used_ids_def)

lemma unused_ref: "ref \<noteq> [] \<and> ref \<notin> set (blobs db @ map ver_content (node_versions db)) \<Longrightarrow> new_blob ref db"
  by (auto simp: new_blob_def used_refs_def)

definition sample1_run :: "node_row handled" where
  "sample1_run = create_node sample_site False (sample_ids ''A'') 0 sample0 (sample_auth ''u'')
     (sample_create None Folder [sample_share ''u'' ''a'', sample_share ''v'' ''m''])"
definition sample1 :: database where "sample1 = fst (snd sample1_run)"

definition sample2_run :: "node_row handled" where
  "sample2_run = create_node sample_site False (sample_ids ''B'') 0 sample1 (sample_auth ''u'')
     (sample_create None Folder [sample_share ''u'' ''a''])"
definition sample2 :: database where "sample2 = fst (snd sample2_run)"

definition sample3_run :: "node_row handled" where
  "sample3_run = create_node sample_site False (sample_ids ''F'') 0 sample2 (sample_auth ''u'')
     (sample_create (Some ''A'') File [sample_share ''u'' ''a''])"
definition sample3 :: database where "sample3 = fst (snd sample3_run)"

definition sample_upload :: "string option \<Rightarrow> string option \<Rightarrow> upload_request" where
  "sample_upload v e = \<lparr>uq_nonce = replicate 24 CHR ''0'', uq_has_body = True, uq_version = v, uq_epoch = e, uq_announced = 7,
     uq_stored = Some 7, uq_disk_before = None, uq_disk_after = None\<rparr>"

definition sample_int :: "string \<Rightarrow> int option" where
  "sample_int s = (if s = ''1'' then Some 1 else None)"

definition sample4_run :: "node_row handled" where
  "sample4_run = upload_content sample_site False (\<lambda>_. True) sample_int ''v1'' ''blob1'' 0 sample3 (sample_auth ''u'') ''F''
     (sample_upload (Some ''null'') (Some ''1''))"
definition sample4 :: database where "sample4 = fst (snd sample4_run)"

definition sample5_run :: "(string \<times> uuid) handled" where
  "sample5_run = create_link id ''tok'' ''l1'' sample4 (sample_auth ''u'') ''F'' ''r'' [] False None (Some 1)"
definition sample5 :: database where "sample5 = fst (snd sample5_run)"

text \<open>The owner withdraws the share of \<open>v\<close> on the folder \<open>A\<close>, then renews the key of the folder.\<close>

definition sample6_run :: "unit handled" where
  "sample6_run = delete_share sample5 (sample_auth ''u'') ''A'' ''Axx'' False"
definition sample6 :: database where "sample6 = fst (snd sample6_run)"

definition sample_rotate :: "key_share list \<Rightarrow> rotate_body" where
  "sample_rotate shares = \<lparr>rb_orgKeyEpoch = None, rb_name = ''00'', rb_nameNonce = ''00'', rb_meta = None, rb_metaNonce = None, rb_prevKey = None,
     rb_prevNonce = None, rb_expectedEpoch = None, rb_shares = shares\<rparr>"

definition sample7_run :: "(node_row \<times> nat) handled" where
  "sample7_run = rotate_node False (sample_ids ''R'') 5 sample6 (sample_auth ''u'') ''F'' (sample_rotate [sample_share ''u'' ''a''])"
definition sample7 :: database where "sample7 = fst (snd sample7_run)"

lemma sample1_ok: "\<not> isl (fst sample1_run)" by code_simp
lemma sample2_ok: "\<not> isl (fst sample2_run)" by code_simp
lemma sample3_ok: "\<not> isl (fst sample3_run)" by code_simp
lemma sample4_ok: "\<not> isl (fst sample4_run)" by code_simp
lemma sample5_ok: "\<not> isl (fst sample5_run)" by code_simp
lemma sample6_ok: "\<not> isl (fst sample6_run)" by code_simp
lemma sample7_ok: "\<not> isl (fst sample7_run)" by code_simp

lemma sample_unused:
  "no_prefix ''A'' sample0" "no_prefix ''B'' sample1" "no_prefix ''F'' sample2"
  "''v1'' \<notin> set (map node_id (nodes sample3) @ map nk_id (node_keys sample3) @ map ver_id (node_versions sample3) @ map sl_id (share_links sample3))"
  "''blob1'' \<noteq> [] \<and> ''blob1'' \<notin> set (blobs sample3 @ map ver_content (node_versions sample3))"
  "''l1'' \<notin> set (map node_id (nodes sample4) @ map nk_id (node_keys sample4) @ map ver_id (node_versions sample4) @ map sl_id (share_links sample4))"
  "no_prefix ''R'' sample6"
  by code_simp+

lemma sample_steps:
  "drive_step sample0 (snd (snd sample1_run)) sample1" "drive_step sample1 (snd (snd sample2_run)) sample2"
  "drive_step sample2 (snd (snd sample3_run)) sample3" "drive_step sample3 (snd (snd sample4_run)) sample4"
  "drive_step sample4 (snd (snd sample5_run)) sample5" "drive_step sample5 (snd (snd sample6_run)) sample6"
  "drive_step sample6 (snd (snd sample7_run)) sample7"
proof -
  show "drive_step sample0 (snd (snd sample1_run)) sample1"
    by (rule step_create[OF trans[OF sample1_run_def[symmetric] answered[OF sample1_ok, folded sample1_def]] new_sample_ids[OF sample_unused(1)]])
  show "drive_step sample1 (snd (snd sample2_run)) sample2"
    by (rule step_create[OF trans[OF sample2_run_def[symmetric] answered[OF sample2_ok, folded sample2_def]] new_sample_ids[OF sample_unused(2)]])
  show "drive_step sample2 (snd (snd sample3_run)) sample3"
    by (rule step_create[OF trans[OF sample3_run_def[symmetric] answered[OF sample3_ok, folded sample3_def]] new_sample_ids[OF sample_unused(3)]])
  show "drive_step sample3 (snd (snd sample4_run)) sample4"
    by (rule step_upload[OF trans[OF sample4_run_def[symmetric] answered[OF sample4_ok, folded sample4_def]] unused_id[OF sample_unused(4)]
      unused_ref[OF sample_unused(5)]])
  show "drive_step sample4 (snd (snd sample5_run)) sample5"
    by (rule step_link[OF trans[OF sample5_run_def[symmetric] answered[OF sample5_ok, folded sample5_def]] unused_id[OF sample_unused(6)]])
  show "drive_step sample5 (snd (snd sample6_run)) sample6"
    by (rule step_unshare[OF trans[OF sample6_run_def[symmetric] answered[OF sample6_ok, folded sample6_def]]])
  show "drive_step sample6 (snd (snd sample7_run)) sample7"
    by (rule step_rotate[OF trans[OF sample7_run_def[symmetric] answered[OF sample7_ok, folded sample7_def]] new_sample_ids[OF sample_unused(7)]])
qed

lemma sample_reach: "drive_reach sample0" "drive_reach sample1" "drive_reach sample2" "drive_reach sample3" "drive_reach sample4" "drive_reach sample5"
  "drive_reach sample6" "drive_reach sample7"
proof -
  have "drive_step empty_db [] sample0" by (rule step_elsewhere) (simp add: same_drive_def sample0_def empty_db_def)
  with reach_empty show r0: "drive_reach sample0" by (rule reach_step)
  show r1: "drive_reach sample1" by (rule reach_step[OF r0 sample_steps(1)])
  show r2: "drive_reach sample2" by (rule reach_step[OF r1 sample_steps(2)])
  show r3: "drive_reach sample3" by (rule reach_step[OF r2 sample_steps(3)])
  show r4: "drive_reach sample4" by (rule reach_step[OF r3 sample_steps(4)])
  show r5: "drive_reach sample5" by (rule reach_step[OF r4 sample_steps(5)])
  show r6: "drive_reach sample6" by (rule reach_step[OF r5 sample_steps(6)])
  show "drive_reach sample7" by (rule reach_step[OF r6 sample_steps(7)])
qed

text \<open>A second run, with a team: the folder \<open>T\<close> is shared with the team \<open>g\<close>, which is then deleted.\<close>

definition team_public :: string where
  "team_public = ''04'' @ replicate 128 CHR ''0''"

definition team0 :: database where
  "team0 = sample0\<lparr>groups := [\<lparr>grp_id = ''g'', grp_org = ''o'', grp_name = ''team'', grp_description = [], grp_color = [], grp_public = team_public,
      grp_rotation_required = False\<rparr>],
    group_members := [\<lparr>gm_group = ''g'', gm_user = ''v'', gm_wrapped = [], gm_manager = True\<rparr>]\<rparr>"

definition team1_run :: "node_row handled" where
  "team1_run = create_node sample_site False (sample_ids ''T'') 0 team0 (sample_auth ''u'')
     (sample_create None Folder [sample_share ''u'' ''a'',
        \<lparr>sh_type = GroupPrincipal, sh_principal = ''g'', sh_role = ''r'', sh_wrapped = [], sh_group_public = Some team_public, sh_inherited = None\<rparr>])"
definition team1 :: database where "team1 = fst (snd team1_run)"

definition team2_run :: "uuid list handled" where
  "team2_run = delete_group team1 (sample_auth ''u'') ''o'' ''g''"
definition team2 :: database where "team2 = fst (snd team2_run)"

lemma team1_ok: "\<not> isl (fst team1_run)" by code_simp
lemma team2_ok: "\<not> isl (fst team2_run)" by code_simp
lemma team_unused: "no_prefix ''T'' team0" by code_simp

lemma team_reach: "drive_reach team0" "drive_reach team1" "drive_reach team2"
proof -
  have "drive_step sample0 [] team0" by (rule step_elsewhere) (simp add: same_drive_def team0_def)
  with sample_reach(1) show r0: "drive_reach team0" by (rule reach_step)
  show r1: "drive_reach team1"
    by (rule reach_step[OF r0 step_create[OF trans[OF team1_run_def[symmetric] answered[OF team1_ok, folded team1_def]] new_sample_ids[OF team_unused]]])
  show "drive_reach team2"
    by (rule reach_step[OF r1 step_ungroup[OF trans[OF team2_run_def[symmetric] answered[OF team2_ok, folded team2_def]]]])
qed

end
