(* ===== verification/Drive_Forest.thy ===== *)
theory Drive_Forest
  imports Drive_Sample
begin

text \<open>
  The abstract view of the tree: a finite map from identifiers to a parent and an organisation. Three
  operations change it; the handlers of the Drive refine them.
\<close>

section \<open>The machine on forests\<close>

type_synonym forest = "uuid \<rightharpoonup> uuid option \<times> uuid"

definition below :: "forest \<Rightarrow> (uuid \<times> uuid) set" where
  "below F = {(i, p). \<exists>r. F i = Some (Some p, r)}"

definition fits :: "forest \<Rightarrow> uuid option \<Rightarrow> uuid \<Rightarrow> bool" where
  "fits F parent r \<longleftrightarrow> (\<forall>p. parent = Some p \<longrightarrow> (\<exists>q. F p = Some (q, r)))"

inductive forest_step :: "forest \<Rightarrow> forest \<Rightarrow> bool" where
  grow: "F i = None \<Longrightarrow> fits F parent r \<Longrightarrow> forest_step F (F(i \<mapsto> (parent, r)))"
| graft: "F i = Some (old, r) \<Longrightarrow> fits F parent r \<Longrightarrow> (\<And>p. parent = Some p \<Longrightarrow> (p, i) \<notin> (below F)\<^sup>*) \<Longrightarrow>
    forest_step F (F(i \<mapsto> (parent, r)))"
| prune: "F i \<noteq> None \<Longrightarrow> forest_step F (F |` {j. (j, i) \<notin> (below F)\<^sup>*})"

definition forest_ok :: "forest \<Rightarrow> bool" where
  "forest_ok F \<longleftrightarrow> finite (dom F) \<and> (\<forall>i q r. F i = Some (q, r) \<longrightarrow> fits F q r) \<and> acyclic (below F)"

lemma below_update: "below (F(i \<mapsto> (parent, r))) \<subseteq> below F \<union> {(i, p) |p. parent = Some p}"
  by (auto simp: below_def split: if_splits)

lemma acyclic_extend:
  assumes "acyclic (below F)" "\<And>p. parent = Some p \<Longrightarrow> (p, i) \<notin> (below F)\<^sup>*"
  shows "acyclic (below (F(i \<mapsto> (parent, r))))"
proof (rule acyclic_subset[OF _ below_update])
  show "acyclic (below F \<union> {(i, p) |p. parent = Some p})"
    using assms by (cases parent) auto
qed

lemma forest_ok_update:
  assumes "forest_ok F" "acyclic (below (F(i \<mapsto> (parent, r))))" "fits F parent r" "F i = None \<or> (\<exists>old. F i = Some (old, r))"
  shows "forest_ok (F(i \<mapsto> (parent, r)))"
proof -
  have "fits (F(i \<mapsto> (parent, r))) q s" if "fits F q s" for q s
    using that assms(4) by (auto simp: fits_def)
  moreover have "finite (dom (F(i \<mapsto> (parent, r))))" using assms(1) by (simp add: forest_ok_def)
  ultimately show ?thesis using assms(1-3) unfolding forest_ok_def by (metis fun_upd_apply option.inject prod.inject)
qed

lemma forest_step_ok: "forest_step F G \<Longrightarrow> forest_ok F \<Longrightarrow> forest_ok G"
proof (induction rule: forest_step.induct)
  case (grow F i parent r)
  have "(p, i) \<notin> (below F)\<^sup>*" if "parent = Some p" for p
  proof
    assume "(p, i) \<in> (below F)\<^sup>*"
    moreover have "p \<noteq> i" using grow that by (auto simp: fits_def)
    ultimately obtain k where "(k, i) \<in> below F" by (metis rtranclE)
    then obtain q where "F k = Some (Some i, q)" by (auto simp: below_def)
    then show False using grow by (force simp: forest_ok_def fits_def)
  qed
  then have "acyclic (below (F(i \<mapsto> (parent, r))))" using grow by (intro acyclic_extend) (auto simp: forest_ok_def)
  with grow show ?case by (intro forest_ok_update) auto
next
  case (graft F i old r parent)
  then have "acyclic (below (F(i \<mapsto> (parent, r))))" by (intro acyclic_extend) (auto simp: forest_ok_def)
  with graft show ?case by (intro forest_ok_update) auto
next
  case (prune F i)
  let ?K = "{j. (j, i) \<notin> (below F)\<^sup>*}"
  have "acyclic (below (F |` ?K))"
    using prune by (auto simp: forest_ok_def below_def restrict_map_def split: if_splits elim!: acyclic_subset)
  moreover have "fits (F |` ?K) q r" if "(F |` ?K) j = Some (q, r)" for j q r
  proof -
    have j: "F j = Some (q, r)" "j \<in> ?K" using that by (auto simp: restrict_map_def split: if_splits)
    have "p \<in> ?K" if "q = Some p" for p
      using j that by (auto simp: below_def intro: converse_rtrancl_into_rtrancl)
    then show ?thesis using j prune.prems by (auto simp: forest_ok_def fits_def)
  qed
  ultimately show ?case using prune by (auto simp: forest_ok_def)
qed

section \<open>Refinement\<close>











end
