(* ===== verification/Drive_Contents.thy ===== *)
theory Drive_Contents
  imports Drive_Sample
begin

text \<open>
  The contents of files: the pointer of a node to its current version, the store of encrypted blobs, and
  what optimistic preconditions and quotas guarantee.
\<close>

section \<open>The current version\<close>

definition points :: "version_row list \<Rightarrow> node_row \<Rightarrow> bool" where
  "points vs n \<longleftrightarrow> (case node_current_version n of
     None \<Rightarrow> node_content n = None
   | Some x \<Rightarrow> \<exists>v\<in>set vs. ver_id v = x \<and> ver_node v = node_id n \<and> node_content n = Some (ver_content v) \<and>
       node_content_nonce n = Some (ver_nonce v) \<and> node_size n = ver_size v)"

definition versions_ok :: "version_row list \<Rightarrow> uuid set \<Rightarrow> string set \<Rightarrow> bool" where
  "versions_ok vs ids refs \<longleftrightarrow> distinct (map ver_id vs) \<and> distinct (map ver_content vs) \<and>
     (\<forall>v\<in>set vs. ver_node v \<in> ids \<and> ver_content v \<in> refs \<and> ver_content v \<noteq> [])"

definition content_ok :: "database \<Rightarrow> bool" where
  "content_ok db \<longleftrightarrow> versions_ok (node_versions db) (node_id ` set (nodes db)) (set (blobs db)) \<and>
     (\<forall>n\<in>set (nodes db). points (node_versions db) n)"

definition content_view :: "node_row \<Rightarrow> uuid \<times> string option \<times> 8 word list option \<times> nat \<times> uuid option" where
  "content_view n = (node_id n, node_content n, node_content_nonce n, node_size n, node_current_version n)"

lemma points_view: "content_view m = content_view n \<Longrightarrow> points vs m \<longleftrightarrow> points vs n"
  by (auto simp: points_def content_view_def split: option.splits)

lemma node_ids_on_node: "(\<And>n. node_id (f n) = node_id n) \<Longrightarrow> node_id ` set (on_node i f ns) = node_id ` set ns"
  by (metis map_node_id_on_node set_map)

lemma same_view:
  assumes "map content_view ms = map content_view ns"
  shows "node_id ` set ms = node_id ` set ns" "(\<forall>n\<in>set ms. points vs n) \<longleftrightarrow> (\<forall>n\<in>set ns. points vs n)"
proof -
  have *: "content_view ` set ms = content_view ` set ns" using assms by (metis set_map)
  then show "node_id ` set ms = node_id ` set ns" by (metis (no_types) content_view_def fst_conv image_cong image_image)
  show "(\<forall>n\<in>set ms. points vs n) \<longleftrightarrow> (\<forall>n\<in>set ns. points vs n)"
    using * points_view by (metis (no_types, opaque_lifting) image_iff)
qed

lemma content_view_on_node: "(\<And>n. content_view (f n) = content_view n) \<Longrightarrow> map content_view (on_node i f ns) = map content_view ns"
  by (simp add: on_node_def comp_def)

lemma content_view_marked [simp]: "content_view (marked ids n) = content_view n"
  by (simp add: marked_def content_view_def)

lemma versions_by_id: "distinct (map ver_id vs) \<Longrightarrow> v \<in> set vs \<Longrightarrow> w \<in> set vs \<Longrightarrow> ver_id v = ver_id w \<Longrightarrow> v = w"
  by (auto simp: distinct_map dest: inj_onD)

lemma versions_by_content: "distinct (map ver_content vs) \<Longrightarrow> v \<in> set vs \<Longrightarrow> w \<in> set vs \<Longrightarrow> ver_content v = ver_content w \<Longrightarrow> v = w"
  by (auto simp: distinct_map dest: inj_onD)

lemma pointsI:
  "node_current_version n = Some (ver_id v) \<Longrightarrow> v \<in> set vs \<Longrightarrow> ver_node v = node_id n \<Longrightarrow> node_content n = Some (ver_content v) \<Longrightarrow>
   node_content_nonce n = Some (ver_nonce v) \<Longrightarrow> node_size n = ver_size v \<Longrightarrow> points vs n"
  by (auto simp: points_def)

lemma points_mono: "points vs n \<Longrightarrow> (\<And>v. v \<in> set vs \<Longrightarrow> node_current_version n = Some (ver_id v) \<Longrightarrow> ver_node v = node_id n \<Longrightarrow> v \<in> set ws) \<Longrightarrow> points ws n"
  by (auto simp: points_def split: option.splits)

section \<open>Each write\<close>

lemma content_ok_same:
  assumes "content_ok db" "map content_view (nodes db') = map content_view (nodes db)" "node_versions db' = node_versions db"
    "blobs db' = blobs db"
  shows "content_ok db'"
  using assms(1) unfolding content_ok_def assms(3,4) same_view[OF assms(2)] .

lemma content_ok_leaf:
  assumes ok: "content_ok db" and n: "node_content n = None" "node_current_version n = None"
    and db': "nodes db' = nodes db @ [n]" "node_versions db' = node_versions db" "blobs db' = blobs db"
  shows "content_ok db'"
proof -
  have "points (node_versions db) n" using n by (simp add: points_def)
  then show ?thesis using ok unfolding content_ok_def db' versions_ok_def by auto
qed

lemma content_ok_upload:
  assumes ok: "content_ok db" and n: "node_by_id db i = Some n" and new: "vid \<notin> used_ids db" "new_blob blob db"
    and db': "db' = db\<lparr>node_versions := node_versions db @ [upload_row db i blob nonce nbytes vid userId now n],
                 nodes := on_node i (uploaded blob nonce nbytes vid userId now) (nodes db), blobs := blobs db @ [blob]\<rparr>"
  shows "content_ok db'"
proof -
  let ?v = "upload_row db i blob nonce nbytes vid userId now n"
  have n': "n \<in> set (nodes db)" "node_id n = i" using node_by_id_Some[OF n] by auto
  have vid: "vid \<notin> ver_id ` set (node_versions db)" using new(1) by (auto simp: used_ids_def)
  have blob: "blob \<noteq> []" "blob \<notin> ver_content ` set (node_versions db)" using new(2) by (auto simp: new_blob_def used_refs_def)
  have ids: "node_id ` set (nodes db') = node_id ` set (nodes db)"
    unfolding db' by (simp add: node_ids_on_node uploaded_def)
  have "versions_ok (node_versions db') (node_id ` set (nodes db')) (set (blobs db'))"
    using ok vid blob n' unfolding ids by (auto simp: db' content_ok_def versions_ok_def upload_row_def)
  moreover have "points (node_versions db') m" if m: "m \<in> set (nodes db')" for m
  proof (cases "node_id m = i")
    case True
    then obtain m0 where "m = uploaded blob nonce nbytes vid userId now m0" "node_id m0 = i"
      using m by (auto simp: db' set_on_node)
    then show ?thesis by (intro pointsI[of _ ?v]) (auto simp: db' uploaded_def upload_row_def)
  next
    case False
    then have "m \<in> set (nodes db)" using m by (auto simp: db' set_on_node uploaded_def)
    then have "points (node_versions db) m" using ok by (simp add: content_ok_def)
    then show ?thesis by (rule points_mono) (simp add: db')
  qed
  ultimately show ?thesis by (simp add: content_ok_def)
qed

lemma content_ok_rewrite:
  assumes ok: "content_ok db" and n: "node_by_id db i = Some n" and old: "find_version db i vid = Some old"
    and new: "new_blob blob db" and d: "distinct (map node_id (nodes db))"
    and db': "db' = delete_blobs [ver_content old] (db\<lparr>node_versions := on_version i vid (rewritten blob nonce nbytes e) (node_versions db),
       nodes := (if node_current_version n = Some vid then on_node i (repointed blob nonce nbytes userId now) (nodes db) else nodes db),
       blobs := blobs db @ [blob]\<rparr>)"
  shows "content_ok db'"
proof -
  have o: "old \<in> set (node_versions db)" "ver_id old = vid" "ver_node old = i" using old by (auto simp: find_version_def dest!: queryOne_Some)
  have di: "distinct (map ver_id (node_versions db))" and dc: "distinct (map ver_content (node_versions db))"
    and vs: "\<And>v. v \<in> set (node_versions db) \<Longrightarrow> ver_node v \<in> node_id ` set (nodes db) \<and> ver_content v \<in> set (blobs db) \<and> ver_content v \<noteq> []"
    using ok by (auto simp: content_ok_def versions_ok_def)
  have blob: "blob \<noteq> []" "blob \<notin> ver_content ` set (node_versions db)" using new by (auto simp: new_blob_def used_refs_def)
  have only: "v = old" if "v \<in> set (node_versions db)" "ver_id v = vid" for v using versions_by_id[OF di that(1) o(1)] that o by simp
  let ?w = "rewritten blob nonce nbytes e old"
  have set': "set (node_versions db') = insert ?w (set (node_versions db) - {old})"
  proof -
    have "set (node_versions db') = (\<lambda>v. if ver_id v = vid \<and> ver_node v = i then rewritten blob nonce nbytes e v else v) ` set (node_versions db)"
      by (simp add: db' delete_blobs_def on_version_def)
    also have "\<dots> = (\<lambda>v. if v = old then ?w else v) ` set (node_versions db)"
    proof (rule image_cong[OF refl])
      show "(if ver_id v = vid \<and> ver_node v = i then rewritten blob nonce nbytes e v else v) = (if v = old then ?w else v)"
        if "v \<in> set (node_versions db)" for v
        using only[OF that] o(2,3) by (cases "v = old") (simp_all, blast)
    qed
    also have "\<dots> = insert ?w (set (node_versions db) - {old})" using o(1) by auto
    finally show ?thesis .
  qed
  have blobs': "set (blobs db') = insert blob (set (blobs db)) - {ver_content old}" by (auto simp: db' delete_blobs_def)
  have ids': "map ver_id (node_versions db') = map ver_id (node_versions db)"
    by (auto simp: db' delete_blobs_def on_version_def rewritten_def)
  have nodes': "node_id ` set (nodes db') = node_id ` set (nodes db)"
    unfolding db' by (simp add: delete_blobs_def node_ids_on_node repointed_def)
  have dist': "distinct (map ver_content (node_versions db'))"
  proof -
    have len: "length (node_versions db') = length (node_versions db)" by (simp add: db' delete_blobs_def on_version_def)
    have "inj_on ver_content (set (node_versions db'))"
      using dc blob by (auto simp: set' inj_on_def distinct_map rewritten_def)
    moreover have "distinct (node_versions db')" using ids' di by (metis distinct_map)
    ultimately show ?thesis by (simp add: distinct_map)
  qed
  have "versions_ok (node_versions db') (node_id ` set (nodes db')) (set (blobs db'))"
    unfolding versions_ok_def nodes' ids'
  proof (intro conjI ballI)
    fix v assume "v \<in> set (node_versions db')"
    then consider "v = ?w" | "v \<in> set (node_versions db)" "v \<noteq> old" by (auto simp: set')
    then have "ver_node v \<in> node_id ` set (nodes db) \<and> ver_content v \<in> set (blobs db') \<and> ver_content v \<noteq> []"
    proof cases
      case 1
      have "blob \<noteq> ver_content old" using blob(2) o(1) by blast
      then show ?thesis using 1 vs[OF o(1)] o blob by (simp add: rewritten_def blobs')
    next
      case 2
      have "ver_content v \<noteq> ver_content old" using versions_by_content[OF dc 2(1) o(1)] 2(2) by blast
      then show ?thesis using vs[OF 2(1)] by (simp add: blobs')
    qed
    then show "ver_node v \<in> node_id ` set (nodes db)" "ver_content v \<in> set (blobs db')" "ver_content v \<noteq> []" by blast+
  qed (use di dist' in auto)
  moreover have "points (node_versions db') m" if m: "m \<in> set (nodes db')" for m
  proof -
    obtain m0 where m0: "m0 \<in> set (nodes db)" "m = (if node_current_version n = Some vid \<and> node_id m0 = i then repointed blob nonce nbytes userId now m0 else m0)"
      using m by (auto simp: db' delete_blobs_def on_node_def split: if_splits)
    have p: "points (node_versions db) m0" using ok m0(1) by (simp add: content_ok_def)
    have n': "n \<in> set (nodes db)" "node_id n = i" using node_by_id_Some[OF n] by auto
    show ?thesis
    proof (cases "node_current_version m0 = Some vid")
      case True
      then obtain v where "v \<in> set (node_versions db)" "ver_id v = vid" "ver_node v = node_id m0" using p by (auto simp: points_def)
      then have i: "node_id m0 = i" using only o by auto
      then have "m0 = n" using n' m0(1) d by (auto simp: distinct_map dest: inj_onD)
      then have "m = repointed blob nonce nbytes userId now m0" using m0(2) True i by simp
      then show ?thesis using True i o by (intro pointsI[of _ ?w]) (auto simp: set' repointed_def rewritten_def)
    next
      case False
      have "\<not> (node_current_version n = Some vid \<and> node_id m0 = i)"
        using False n' m0(1) d by (auto simp: distinct_map dest: inj_onD)
      then have "m = m0" using m0(2) by auto
      with p False o show ?thesis by (auto intro: points_mono simp: set')
    qed
  qed
  ultimately show ?thesis by (simp add: content_ok_def)
qed

lemma content_ok_restore:
  assumes ok: "content_ok db" and v: "find_version db i vid = Some v" and d: "distinct (map node_id (nodes db))"
    and db': "db' = db\<lparr>nodes := on_node i (restored v userId now) (nodes db)\<rparr>"
  shows "content_ok db'"
proof -
  have v': "v \<in> set (node_versions db)" "ver_node v = i" using v by (auto simp: find_version_def dest!: queryOne_Some)
  have "node_id ` set (nodes db') = node_id ` set (nodes db)" unfolding db' by (simp add: node_ids_on_node restored_def)
  moreover have "points (node_versions db) m" if "m \<in> set (nodes db')" for m
  proof -
    consider m0 where "m = restored v userId now m0" "node_id m0 = i" | "m \<in> set (nodes db)"
      using \<open>m \<in> set (nodes db')\<close> by (auto simp: db' set_on_node)
    then show ?thesis
    proof cases
      case 1
      then show ?thesis using v' by (intro pointsI[of _ v]) (simp_all add: restored_def)
    qed (use ok in \<open>simp add: content_ok_def\<close>)
  qed
  ultimately show ?thesis using ok by (simp add: content_ok_def db')
qed

lemma content_ok_prune:
  assumes ok: "content_ok db"
  shows "content_ok (delete_blobs (subtreeBlobRefs db i) (delete_node i db))"
proof -
  let ?D = "set (subtree (nodes db) i)" and ?db' = "delete_blobs (subtreeBlobRefs db i) (delete_node i db)"
  have vs': "node_versions ?db' = filter (\<lambda>v. ver_node v \<notin> ?D) (node_versions db)" and ns': "nodes ?db' = filter (\<lambda>n. node_id n \<notin> ?D) (nodes db)"
    and bs': "set (blobs ?db') = set (blobs db) - set (subtreeBlobRefs db i)"
    by (auto simp: delete_blobs_def delete_node_def Let_def)
  have dc: "distinct (map ver_content (node_versions db))" and vs: "\<And>v. v \<in> set (node_versions db) \<Longrightarrow> ver_node v \<in> node_id ` set (nodes db) \<and> ver_content v \<in> set (blobs db) \<and> ver_content v \<noteq> []"
    using ok by (auto simp: content_ok_def versions_ok_def)
  have refs: "\<exists>v\<in>set (node_versions db). ver_node v \<in> ?D \<and> ver_content v = r" if "r \<in> set (subtreeBlobRefs db i)" for r
  proof -
    have "(\<exists>n\<in>set (nodes db). node_id n \<in> ?D \<and> node_content n = Some r) \<or> (\<exists>v\<in>set (node_versions db). ver_node v \<in> ?D \<and> ver_content v = r)"
      using that unfolding subtreeBlobRefs_def Let_def by (auto split: option.splits if_splits)
    then show ?thesis
    proof
      assume "\<exists>n\<in>set (nodes db). node_id n \<in> ?D \<and> node_content n = Some r"
      then obtain n where n: "n \<in> set (nodes db)" "node_id n \<in> ?D" "node_content n = Some r" by blast
      then have "points (node_versions db) n" using ok by (simp add: content_ok_def)
      with n obtain v where "v \<in> set (node_versions db)" "ver_node v = node_id n" "ver_content v = r"
        by (auto simp: points_def split: option.splits)
      with n show ?thesis by (intro bexI[of _ v]) simp_all
    qed
  qed
  have "versions_ok (node_versions ?db') (node_id ` set (nodes ?db')) (set (blobs ?db'))"
    unfolding versions_ok_def bs'
  proof (intro conjI ballI)
    fix v assume "v \<in> set (node_versions ?db')"
    then have v: "v \<in> set (node_versions db)" "ver_node v \<notin> ?D" by (auto simp: vs')
    obtain n where "n \<in> set (nodes db)" "node_id n = ver_node v" using vs[OF v(1)] by (metis imageE)
    then show "ver_node v \<in> node_id ` set (nodes ?db')" using v(2) unfolding ns' by force
    show "ver_content v \<in> set (blobs db) - set (subtreeBlobRefs db i)"
      using vs[OF v(1)] refs v versions_by_content[OF dc _ v(1)] by blast
  qed (use ok vs in \<open>auto simp: vs' content_ok_def versions_ok_def distinct_map_filter\<close>)
  moreover have "points (node_versions ?db') n" if "n \<in> set (nodes ?db')" for n
  proof -
    have n: "n \<in> set (nodes db)" "node_id n \<notin> ?D" using that unfolding ns' by simp_all
    then have "points (node_versions db) n" using ok by (simp add: content_ok_def)
    then show ?thesis by (rule points_mono) (use n in \<open>simp add: vs'\<close>)
  qed
  ultimately show ?thesis by (simp add: content_ok_def)
qed

lemma content_ok_retention:
  assumes ok: "content_ok db" and d: "distinct (map node_id (nodes db))"
  shows "content_ok (purgeOldVersions site now db)"
proof (cases "versionRetentionDays site \<le> 0")
  case False
  let ?gone = "stale_versions (versionRetentionDays site) now db" and ?db' = "purgeOldVersions site now db"
  have gone: "v \<in> set (node_versions db) \<and> (\<exists>n\<in>set (nodes db). node_id n = ver_node v \<and> node_current_version n \<noteq> Some (ver_id v))"
    if "v \<in> set ?gone" for v
    using that by (auto simp: stale_versions_def list_ex_iff dest!: in_set_takeD)
  have di: "distinct (map ver_id (node_versions db))" and dc: "distinct (map ver_content (node_versions db))"
    and vs: "\<And>v. v \<in> set (node_versions db) \<Longrightarrow> ver_node v \<in> node_id ` set (nodes db) \<and> ver_content v \<in> set (blobs db) \<and> ver_content v \<noteq> []"
    using ok by (auto simp: content_ok_def versions_ok_def)
  have vs': "node_versions ?db' = filter (\<lambda>v. ver_id v \<notin> ver_id ` set ?gone) (node_versions db)" and ns': "nodes ?db' = nodes db"
    and bs': "set (blobs ?db') = set (blobs db) - ver_content ` set ?gone"
    using False by (auto simp: purgeOldVersions_def Let_def delete_blobs_def)
  have not_gone: "v \<in> set ?gone" if v: "v \<in> set (node_versions db)" and c: "ver_content v \<in> ver_content ` set ?gone" for v
  proof -
    obtain w where w: "w \<in> set ?gone" "ver_content w = ver_content v" using c by (metis imageE)
    then show ?thesis using gone[OF w(1)] versions_by_content[OF dc _ v] by metis
  qed
  have "versions_ok (node_versions ?db') (node_id ` set (nodes ?db')) (set (blobs ?db'))"
    unfolding versions_ok_def bs' ns'
  proof (intro conjI ballI)
    fix v assume "v \<in> set (node_versions ?db')"
    then have v: "v \<in> set (node_versions db)" "v \<notin> set ?gone" by (auto simp: vs')
    show "ver_node v \<in> node_id ` set (nodes db)" "ver_content v \<noteq> []" using vs[OF v(1)] by auto
    show "ver_content v \<in> set (blobs db) - ver_content ` set ?gone"
      using vs[OF v(1)] v(2) not_gone[OF v(1)] by blast
  next
    show "distinct (map ver_id (node_versions ?db'))" "distinct (map ver_content (node_versions ?db'))"
      unfolding vs' by (rule distinct_map_filter, fact)+
  qed
  moreover have "points (node_versions ?db') n" if n: "n \<in> set (nodes ?db')" for n
  proof -
    have n': "n \<in> set (nodes db)" using n by (simp add: ns')
    then have "points (node_versions db) n" using ok by (simp add: content_ok_def)
    then show ?thesis
    proof (rule points_mono)
      fix v assume v: "v \<in> set (node_versions db)" "node_current_version n = Some (ver_id v)" "ver_node v = node_id n"
      have "ver_id v \<notin> ver_id ` set ?gone"
      proof
        assume "ver_id v \<in> ver_id ` set ?gone"
        then obtain w where "w \<in> set ?gone" "ver_id w = ver_id v" by auto
        then have w: "v \<in> set ?gone" using gone versions_by_id[OF di _ v(1)] by metis
        then obtain m where "m \<in> set (nodes db)" "node_id m = node_id n" "node_current_version m \<noteq> Some (ver_id v)" using gone v(3) by metis
        then show False using d n' v(2) by (auto simp: distinct_map dest: inj_onD)
      qed
      then show "v \<in> set (node_versions ?db')" using v(1) by (simp add: vs')
    qed
  qed
  ultimately show ?thesis by (simp add: content_ok_def)
qed (use ok in \<open>simp add: purgeOldVersions_def\<close>)


section \<open>Every step\<close>

lemma rewrite_version_content:
  assumes "rewrite_version site blob now db u i vid q = (Inr v, db', outs)" "new_blob blob db" "tree_ok db" "content_ok db"
  shows "content_ok db'"
proof -
  obtain user :: auth_user and access :: node_access and nbytes old db1 where tx: "rewrite_tx site blob now db (au_id user) (na_orgId access) i vid (uq_nonce q) nbytes = (Inr old, db1)"
      and db': "db' = (if old \<noteq> [] then delete_blobs [old] db1 else db1)"
    using rewrite_version_ok[OF assms(1)] by blast
  obtain n ov where n: "node_by_id db i = Some n" and ov: "find_version db i vid = Some ov" "old = ver_content ov"
      and db1: "db1 = db\<lparr>node_versions := on_version i vid (rewritten blob (uq_nonce q) nbytes (node_key_epoch n)) (node_versions db),
         nodes := (if node_current_version n = Some vid then on_node i (repointed blob (uq_nonce q) nbytes (au_id user) now) (nodes db) else nodes db),
         blobs := blobs db @ [blob]\<rparr>"
    using rewrite_tx_ok[OF tx] by (elim exE conjE) (rule that)
  have "ov \<in> set (node_versions db)" using ov(1) by (auto simp: find_version_def dest!: queryOne_Some)
  then have "old \<noteq> []" using assms(4) ov(2) by (auto simp: content_ok_def versions_ok_def)
  then have "db' = delete_blobs [ver_content ov] db1" using db' ov(2) by simp
  with db1 show ?thesis using content_ok_rewrite[OF assms(4) n ov(1) assms(2)] assms(3) by (simp add: tree_ok_def)
qed

lemma upload_content_content:
  assumes "upload_content site lc is_uuid safe_int vid blob now db u i q = (Inr m, db', outs)" "vid \<notin> used_ids db" "new_blob blob db" "content_ok db"
  shows "content_ok db'"
proof -
  obtain user :: auth_user and access :: node_access and base nbytes where tx: "upload_tx site vid blob now db (au_id user) (na_orgId access) i base (uq_nonce q) nbytes = (Inr m, db')"
    using upload_content_ok[OF assms(1)] by blast
  obtain n where "node_by_id db i = Some n" and "db' = db\<lparr>node_versions := node_versions db @ [upload_row db i blob (uq_nonce q) nbytes vid (au_id user) now n],
              nodes := on_node i (uploaded blob (uq_nonce q) nbytes vid (au_id user) now) (nodes db), blobs := blobs db @ [blob]\<rparr>"
    using upload_tx_ok[OF tx] by (elim exE conjE) (rule that)
  then show ?thesis using content_ok_upload[OF assms(4) _ assms(2,3)] by blast
qed

lemma patch_node_content:
  assumes "patch_node site now db u i pb = (Inr n, db', outs)" "content_ok db"
  shows "content_ok db'"
proof -
  obtain user where w: "patch_write db user i pb now = (Inr n, db', outs)" using patch_node_ok[OF assms(1)] by blast
  show ?thesis using patch_write_ok[OF w]
    by (intro content_ok_same[OF assms(2)]) (auto intro!: content_view_on_node simp: content_view_def)
qed

lemma write_share_keys: "write_share db newId by i existing b = (db', s) \<Longrightarrow> nodes db' = nodes db \<and> node_versions db' = node_versions db \<and>
    share_links db' = share_links db \<and> blobs db' = blobs db"
  by (auto dest!: write_share_nodes)

lemma drive_step_content: "drive_step db outs db' \<Longrightarrow> tree_ok db \<Longrightarrow> content_ok db \<Longrightarrow> content_ok db'"
proof (induction rule: drive_step.induct)
  case (step_create site lc fresh now db u cb n db' outs)
  have "node_versions db' = node_versions db" "blobs db' = blobs db"
    using create_node_ok[OF step_create(1)] by auto
  with create_node_node[OF step_create(1)] show ?case by (intro content_ok_leaf[OF step_create.prems(2)]) auto
next
  case (step_patch site now db u i pb n db' outs)
  show ?case by (rule patch_node_content[OF step_patch(1) step_patch.prems(2)])
next
  case (step_upload site lc is_uuid safe_int vid blob now db u i q n db' outs)
  show ?case by (rule upload_content_content[OF step_upload(1-3) step_upload.prems(2)])
next
  case (step_rewrite site blob now db u i vid q v db' outs)
  show ?case by (rule rewrite_version_content[OF step_rewrite(1,2) step_rewrite.prems])
next
  case (step_revert now db u i vid n db' outs)
  obtain v and user :: auth_user where v: "find_version db i vid = Some v" "db' = db\<lparr>nodes := on_node i (restored v (au_id user) now) (nodes db)\<rparr>"
    using restore_version_ok[OF step_revert(1)] by blast
  show ?case by (rule content_ok_restore[OF step_revert.prems(2) v(1) _ v(2)]) (use step_revert.prems(1) in \<open>simp add: tree_ok_def\<close>)
next
  case (step_purge db u i v db' outs)
  have "db' = delete_blobs (subtreeBlobRefs db i) (delete_node i db)" using purge_node_ok[OF step_purge(1)] by blast
  then show ?case using content_ok_prune[OF step_purge.prems(2)] by simp
next
  case (step_sweep n db db' outs)
  then have "db' = delete_blobs (subtreeBlobRefs db (node_id n)) (delete_node (node_id n) db)" by (simp add: purge_candidate_def)
  then show ?case using content_ok_prune[OF step_sweep.prems(2)] by simp
next
  case (step_retention db site now)
  then show ?case using content_ok_retention by (simp add: tree_ok_def)
next
  case (step_trash now db u i v db' outs)
  show ?case using trash_node_ok[OF step_trash(1)]
    by (intro content_ok_same[OF step_trash.prems(2)]) (auto intro!: content_view_on_node simp: content_view_def)
next
  case (step_restore db u i v db' outs)
  show ?case using restore_node_ok[OF step_restore(1)]
    by (intro content_ok_same[OF step_restore.prems(2)]) (auto intro!: content_view_on_node simp: content_view_def)
next
  case (step_rotate lc fresh now db u i rb r db' outs)
  show ?case using rotate_node_ok[OF step_rotate(1)]
    by (intro content_ok_same[OF step_rotate.prems(2)]) (auto intro!: content_view_on_node simp: content_view_def rotated_def)
next
  case (step_share lc newId db u i epoch s sid db' outs)
  show ?case using create_share_ok[OF step_share(1)]
    by (intro content_ok_same[OF step_share.prems(2)]) (auto dest!: write_share_keys)
next
  case (step_team db u orgId gid rotb ids db' outs)
  show ?case using rotate_group_ok[OF step_team(1)]
    by (intro content_ok_same[OF step_team.prems(2)]) (auto dest!: group_rotation_ok)
next
  case (step_leave db u orgId gid uid rotb ids db' outs)
  show ?case using remove_member_ok[OF step_leave(1)]
    by (intro content_ok_same[OF step_leave.prems(2)]) (auto dest!: group_rotation_ok)
next
  case (step_ungroup db u orgId gid ids db' outs)
  show ?case using delete_group_ok[OF step_ungroup(1)]
    by (intro content_ok_same[OF step_ungroup.prems(2)]) (auto simp: Let_def)
next
  case (step_share_role db u i sid rid v db' outs)
  show ?case using patch_share_ok[OF step_share_role(1)] by (intro content_ok_same[OF step_share_role.prems(2)]) auto
next
  case (step_unshare db u i sid deep v db' outs)
  show ?case using delete_share_ok[OF step_unshare(1)] by (intro content_ok_same[OF step_unshare.prems(2)]) auto
next
  case (step_link H tok newId db u i rid w pw ex mx r db' outs)
  show ?case using create_link_ok[OF step_link(1)] by (intro content_ok_same[OF step_link.prems(2)]) auto
next
  case (step_unlink now db u i lid v db' outs)
  show ?case using revoke_link_ok[OF step_unlink(1)] by (intro content_ok_same[OF step_unlink.prems(2)]) auto
next
  case (step_count db lid ref r db' outs)
  show ?case using link_count_ok[OF step_count(1)] by (intro content_ok_same[OF step_count.prems(2)]) auto
next
  case (step_elsewhere db db' outs)
  show ?case using step_elsewhere(1) by (intro content_ok_same[OF step_elsewhere.prems(2)]) (auto simp: same_drive_def)
qed

lemma reach_content_ok: "drive_reach db \<Longrightarrow> content_ok db"
proof (induction rule: drive_reach.induct)
  case reach_empty
  then show ?case by (simp add: content_ok_def versions_ok_def empty_db_def)
next
  case (reach_step db outs db')
  then show ?case using drive_step_content reach_tree_ok by blast
qed

end
