(* ===== verification/Drive_Quota.thy ===== *)
theory Drive_Quota
  imports Drive_Contents
begin

text \<open>
  What the database guarantees about contents: the current version of every file, the stored bytes within
  the quota, and no update lost between two writers.
\<close>

section \<open>Coherence\<close>




section \<open>Optimistic writes\<close>

lemma contentPreconditions_base:
  "contentPreconditions is_uuid safe_int (Some v) (Some e) lc = Inr base \<Longrightarrow>
     cb_version base = (if v = ''null'' then None else Some (map to_lower v)) \<and> safe_int e = Some (cb_epoch base) \<and> \<not> cb_legacy base"
  by (auto simp: contentPreconditions_def split: if_splits option.splits)

lemma assertContentBase_Inr:
  "assertContentBase base n = Inr () \<longleftrightarrow> \<not> node_rotation_required n \<and>
     (cb_legacy base \<or> cb_version base = node_current_version n \<and> cb_epoch base = node_key_epoch n)"
  by (auto simp: assertContentBase_def)

lemma upload_base:
  assumes "upload_content site lc is_uuid safe_int vid blob now db u i q = (Inr m, db', outs)"
  obtains n nbytes user where "u = Some user" "node_by_id db i = Some n" "\<not> node_rotation_required n"
    "m = uploaded blob (uq_nonce q) nbytes vid (au_id user) now n" "uq_stored q = Some nbytes"
    "db' = db\<lparr>node_versions := node_versions db @ [upload_row db i blob (uq_nonce q) nbytes vid (au_id user) now n],
              nodes := on_node i (uploaded blob (uq_nonce q) nbytes vid (au_id user) now) (nodes db), blobs := blobs db @ [blob]\<rparr>"
    "\<And>v e. uq_version q = Some v \<Longrightarrow> uq_epoch q = Some e \<Longrightarrow>
       node_current_version n = (if v = ''null'' then None else Some (map to_lower v)) \<and> safe_int e = Some (node_key_epoch n)"
    "assertOrgQuota db (node_org n) nbytes = Inr ()" "assertUserQuota site db (node_org n) (node_owner n) nbytes = Inr ()"
proof -
  obtain user :: auth_user and access :: node_access and base nbytes where
    c: "u = Some user" "requireNodePerm db u i ''node.edit'' = Inr access" "uq_stored q = Some nbytes"
      "contentPreconditions is_uuid safe_int (uq_version q) (uq_epoch q) lc = Inr base"
      "upload_tx site vid blob now db (au_id user) (na_orgId access) i base (uq_nonce q) nbytes = (Inr m, db')"
    using upload_content_ok[OF assms] by blast
  obtain n where n: "node_by_id db i = Some n" "assertContentBase base n = Inr ()" "assertOrgQuota db (na_orgId access) nbytes = Inr ()"
      "assertUserQuota site db (na_orgId access) (node_owner n) nbytes = Inr ()"
      "m = uploaded blob (uq_nonce q) nbytes vid (au_id user) now n"
      "db' = db\<lparr>node_versions := node_versions db @ [upload_row db i blob (uq_nonce q) nbytes vid (au_id user) now n],
              nodes := on_node i (uploaded blob (uq_nonce q) nbytes vid (au_id user) now) (nodes db), blobs := blobs db @ [blob]\<rparr>"
    using upload_tx_ok[OF c(5)] by (elim exE conjE) (rule that)
  have org: "na_orgId access = node_org n" using requireNodePerm_node[OF c(2)] n(1) by (metis option.inject)
  have "node_current_version n = (if v = ''null'' then None else Some (map to_lower v)) \<and> safe_int e = Some (node_key_epoch n)"
    if "uq_version q = Some v" "uq_epoch q = Some e" for v e
    using contentPreconditions_base[OF c(4)[unfolded that]] n(2) by (simp add: assertContentBase_Inr)
  then show thesis using that[OF c(1) n(1) _ n(5) c(3) n(6)] n(2-4) org by (simp add: assertContentBase_Inr)
qed

lemma upload_current:
  assumes "upload_content site lc is_uuid safe_int vid blob now db u i q = (Inr m, db', outs)" "uq_version q = Some v" "uq_epoch q = Some e"
  shows "\<exists>n. node_by_id db i = Some n \<and> node_current_version n = (if v = ''null'' then None else Some (map to_lower v))"
proof (rule upload_base[OF assms(1)])
  fix n :: node_row
  assume "node_by_id db i = Some n"
    and c: "\<And>v e. uq_version q = Some v \<Longrightarrow> uq_epoch q = Some e \<Longrightarrow>
       node_current_version n = (if v = ''null'' then None else Some (map to_lower v)) \<and> safe_int e = Some (node_key_epoch n)"
  then show ?thesis using c[OF assms(2,3)] by blast
qed

lemma on_node_at: "x \<in> set (on_node i f ns) \<Longrightarrow> node_id x = i \<Longrightarrow> (\<And>y. x = f y \<Longrightarrow> thesis) \<Longrightarrow> thesis"
  by (auto simp: set_on_node)

lemma next_version_no_above: "v \<in> set (node_versions db) \<Longrightarrow> ver_node v = i \<Longrightarrow> ver_no v < next_version_no db i"
  by (simp add: next_version_no_def less_Suc_eq_le)

text \<open>C5: no update is lost. An upload that carries its base (version and epoch) succeeds only if they are those of
  the file; it adds one version, numbered above all those of the file, makes it current and keeps every earlier version and its
  content. After it, no upload with the same base version succeeds on the file, whoever sends it and whatever else
  happened to the other tables: the second of two concurrent writers is refused.\<close>

theorem no_lost_update:
  assumes reach: "drive_reach db" and new: "vid \<notin> used_ids db"
    and up: "upload_content site lc is_uuid safe_int vid blob now db u i q = (Inr m, db', outs)"
    and base: "uq_version q = Some v" "uq_epoch q = Some e"
  shows "(\<exists>n\<in>set (nodes db). node_id n = i \<and> node_current_version n = (if v = ''null'' then None else Some (map to_lower v)) \<and>
            safe_int e = Some (node_key_epoch n)) \<and>
         (\<exists>w. node_versions db' = node_versions db @ [w] \<and> ver_node w = i \<and> ver_id w = vid \<and> ver_content w = blob \<and>
            (\<forall>x\<in>set (node_versions db). ver_node x = i \<longrightarrow> ver_no x < ver_no w)) \<and>
         node_current_version m = Some vid \<and> set (blobs db) \<subseteq> set (blobs db') \<and>
         (\<forall>later u' q' vid' blob' m' db'' outs'. same_drive db' later \<longrightarrow> uq_version q' = Some v \<longrightarrow> uq_epoch q' = Some e \<longrightarrow>
            upload_content site lc is_uuid safe_int vid' blob' now' later u' i q' \<noteq> (Inr m', db'', outs'))"
proof -
  obtain n nbytes and user :: auth_user where n: "node_by_id db i = Some n" "m = uploaded blob (uq_nonce q) nbytes vid (au_id user) now n"
    "db' = db\<lparr>node_versions := node_versions db @ [upload_row db i blob (uq_nonce q) nbytes vid (au_id user) now n],
              nodes := on_node i (uploaded blob (uq_nonce q) nbytes vid (au_id user) now) (nodes db), blobs := blobs db @ [blob]\<rparr>"
    "node_current_version n = (if v = ''null'' then None else Some (map to_lower v))" "safe_int e = Some (node_key_epoch n)"
    by (rule upload_base[OF up]) (metis base)
  have n': "n \<in> set (nodes db)" "node_id n = i" using node_by_id_Some[OF n(1)] by auto
  have "points (node_versions db) n" using reach_content_ok[OF reach] n'(1) by (simp add: content_ok_def)
  then have fresh: "node_current_version n \<noteq> Some vid"
    using new by (auto simp: points_def used_ids_def split: option.splits)
  have "upload_content site lc is_uuid safe_int vid' blob' now' later u' i q' \<noteq> (Inr m', db'', outs')"
    if later: "same_drive db' later" and q': "uq_version q' = Some v" "uq_epoch q' = Some e" for later u' q' vid' blob' m' db'' outs'
  proof
    assume up': "upload_content site lc is_uuid safe_int vid' blob' now' later u' i q' = (Inr m', db'', outs')"
    obtain n2 where n2: "node_by_id later i = Some n2" "node_current_version n2 = (if v = ''null'' then None else Some (map to_lower v))"
      using upload_current[OF up' q'] by blast
    have "n2 \<in> set (nodes later)" "node_id n2 = i" using node_by_id_Some[OF n2(1)] by auto
    then have "n2 \<in> set (on_node i (uploaded blob (uq_nonce q) nbytes vid (au_id user) now) (nodes db))" "node_id n2 = i"
      using later n(3) by (simp_all add: same_drive_def)
    then obtain y where "n2 = uploaded blob (uq_nonce q) nbytes vid (au_id user) now y" by (rule on_node_at)
    then have "node_current_version n2 = Some vid" by (simp add: uploaded_def)
    then show False using fresh n(4) n2(2) by simp
  qed
  moreover have "\<exists>w. node_versions db' = node_versions db @ [w] \<and> ver_node w = i \<and> ver_id w = vid \<and> ver_content w = blob \<and>
      (\<forall>x\<in>set (node_versions db). ver_node x = i \<longrightarrow> ver_no x < ver_no w)"
    using n(3) next_version_no_above
    by (intro exI[of _ "upload_row db i blob (uq_nonce q) nbytes vid (au_id user) now n"]) (auto simp: upload_row_def)
  moreover have "node_current_version m = Some vid" "set (blobs db) \<subseteq> set (blobs db')" using n(2,3) by (auto simp: uploaded_def)
  ultimately show ?thesis using n'(1,2) n(4,5) by blast
qed

theorem no_lost_update_witness:
  "\<forall>m' db'' outs'. upload_content sample_site False (\<lambda>_. True) sample_int ''v2'' ''blob2'' 9 sample4 (sample_auth ''u'') ''F''
     (sample_upload (Some ''null'') (Some ''1'')) \<noteq> (Inr m', db'', outs')"
  using no_lost_update [OF sample_reach(4) unused_id[OF sample_unused(4)]
      trans[OF sample4_run_def[symmetric] answered[OF sample4_ok, folded sample4_def]], of "''null''" "''1''" 9]
  by (auto simp: sample_upload_def same_drive_def)

section \<open>Quota\<close>


















end
