(* ===== verification/Drive_Access.thy ===== *)
theory Drive_Access
  imports Drive_Contents Drive_Forest
begin

text \<open>
  What the handlers of the Drive guarantee about access: refused requests, the ceiling of what may be granted,
  the eviction of connected peers, the rotation of keys after a withdrawal.
\<close>

section \<open>Refused requests\<close>





section \<open>The ceiling\<close>





section \<open>Evictions\<close>

definition entries :: "database \<Rightarrow> (uuid \<times> principal_type \<times> uuid \<times> uuid) set" where
  "entries db = (\<lambda>k. (nk_node k, nk_principal_type k, nk_principal k, nk_role k)) ` set (node_keys db)"
















lemma keys_retention [simp]: "entries (purgeOldVersions site now db) = entries db"
  by (simp add: entries_def purgeOldVersions_def Let_def delete_blobs_def)




end
