(* ===== verification/Drive_Rotation.thy ===== *)
theory Drive_Rotation
  imports Drive_Access
begin

text \<open>
  Renewal of keys: what the rotation of a node does, what the departure of a team's member forces, and how a
  node is blocked until its key is renewed.
\<close>

section \<open>The rotation of a node\<close>






section \<open>Required rotations\<close>

lemma same_node: "distinct (map node_id ns) \<Longrightarrow> n \<in> set ns \<Longrightarrow> m \<in> set ns \<Longrightarrow> node_id m = node_id n \<Longrightarrow> m = n"
  by (auto simp: distinct_map dest: inj_onD)

lemma on_node_image:
  assumes "distinct (map node_id ns)" "\<And>n. node_id (f n) = node_id n" "n \<in> set ns" "m \<in> set (on_node i f ns)" "node_id m = node_id n"
  shows "m = (if node_id n = i then f n else n)"
proof -
  obtain k where "k \<in> set ns" "m = (if node_id k = i then f k else k)" using assms(4) by (auto simp: on_node_def)
  moreover from this have "node_id k = node_id n" using assms(2,5) by (auto split: if_splits)
  ultimately show ?thesis using same_node[OF assms(1,3)] by auto
qed

definition key_state :: "node_row \<Rightarrow> int \<times> bool" where
  "key_state n = (node_key_epoch n, node_rotation_required n)"

lemma drive_step_key_state:
  assumes "drive_step db outs db'" "distinct (map node_id (nodes db))" "n \<in> set (nodes db)" "m \<in> set (nodes db')" "node_id m = node_id n"
  shows "key_state m = key_state n \<or> node_rotation_required m \<and> node_key_epoch m = node_key_epoch n \<or>
    key_state m = (node_key_epoch n + 1, False) \<and> KickNode (node_id n) ''rekeyed'' \<in> set outs"
proof -
  have on: "key_state m = key_state n" if "nodes db' = on_node i f (nodes db)" "\<And>n. node_id (f n) = node_id n" "\<And>n. key_state (f n) = key_state n" for i f
    using on_node_image[OF assms(2) that(2) assms(3) assms(4)[unfolded that(1)] assms(5)] that(3) by simp
  have same: "key_state m = key_state n" if "nodes db' = nodes db"
    using same_node[OF assms(2,3) _ assms(5)] assms(4) that by simp
  have mark: "key_state m = key_state n \<or> node_rotation_required m \<and> node_key_epoch m = node_key_epoch n"
    if ns: "nodes db' = map (marked ids) (nodes db)" for ids
  proof -
    obtain k where k: "k \<in> set (nodes db)" "m = marked ids k" using assms(4) ns by auto
    then have "k = n" using same_node[OF assms(2,3)] assms(5) by (simp add: marked_def split: if_splits)
    then show ?thesis using k by (simp add: marked_def key_state_def)
  qed
  from assms(1) show ?thesis
  proof cases
    case (step_create site lc fresh now u cb a)
    note c = create_node_node[OF step_create(1)]
    have "a \<noteq> m" using c step_create(2) assms(3,5) by (auto simp: new_ids_def used_ids_def)
    then have "m \<in> set (nodes db)" using c assms(4) by simp
    then show ?thesis using same_node[OF assms(2,3) _ assms(5)] by simp
  next
    case (step_patch site now u i pb a)
    obtain user :: auth_user where "patch_write db user i pb now = (Inr a, db', outs)" using patch_node_ok[OF step_patch] by blast
    from patch_write_ok[OF this] have "nodes db' = on_node i (patched pb (au_id user) now) (nodes db)" by auto
    then have "key_state m = key_state n" by (rule on) (simp_all add: key_state_def)
    then show ?thesis by blast
  next
    case (step_rotate lc fresh now u i rb r)
    obtain user :: auth_user where ns: "nodes db' = on_node i (rotated rb (au_id user) now) (nodes db)" and k: "KickNode i ''rekeyed'' \<in> set outs"
      using rotate_node_ok[OF step_rotate(1)] by auto
    have "m = (if node_id n = i then rotated rb (au_id user) now n else n)"
      by (rule on_node_image[OF assms(2) _ assms(3) assms(4)[unfolded ns] assms(5)]) (simp add: rotated_def)
    then show ?thesis using k by (auto simp: key_state_def rotated_def split: if_splits)
  next
    case (step_upload site lc is_uuid safe_int vid blob now u i q a)
    obtain user :: auth_user and nbytes where "nodes db' = on_node i (uploaded blob (uq_nonce q) nbytes vid (au_id user) now) (nodes db)"
      using upload_content_ok[OF step_upload(1)] by (auto dest!: upload_tx_ok)
    then have "key_state m = key_state n" by (rule on) (simp_all add: uploaded_def key_state_def)
    then show ?thesis by blast
  next
    case (step_rewrite site blob now u i vid q v)
    obtain user :: auth_user and access :: node_access and nbytes old db1 where
      tx: "rewrite_tx site blob now db (au_id user) (na_orgId access) i vid (uq_nonce q) nbytes = (Inr old, db1)"
        and "db' = (if old \<noteq> [] then delete_blobs [old] db1 else db1)"
      using rewrite_version_ok[OF step_rewrite(1)] by blast
    then have "nodes db' = nodes db1" by simp
    moreover have "nodes db1 = nodes db \<or> nodes db1 = on_node i (repointed blob (uq_nonce q) nbytes (au_id user) now) (nodes db)"
      using rewrite_tx_ok[OF tx] by (elim exE conjE) simp
    ultimately have "nodes db' = on_node i (repointed blob (uq_nonce q) nbytes (au_id user) now) (nodes db) \<or> nodes db' = nodes db" by auto
    then have "key_state m = key_state n"
    proof
      assume "nodes db' = on_node i (repointed blob (uq_nonce q) nbytes (au_id user) now) (nodes db)"
      then show ?thesis by (rule on) (simp_all add: repointed_def key_state_def)
    qed (rule same)
    then show ?thesis by blast
  next
    case (step_revert now u i vid a)
    obtain user :: auth_user and v where "nodes db' = on_node i (restored v (au_id user) now) (nodes db)"
      using restore_version_ok[OF step_revert] by auto
    then have "key_state m = key_state n" by (rule on) (simp_all add: restored_def key_state_def)
    then show ?thesis by blast
  next
    case (step_trash now u i v)
    show ?thesis using trash_node_ok[OF step_trash] on by (auto simp: key_state_def)
  next
    case (step_restore u i v)
    show ?thesis using restore_node_ok[OF step_restore] on by (auto simp: key_state_def)
  next
    case (step_purge u i v)
    have "m \<in> set (nodes db)" using purge_node_ok[OF step_purge] assms(4) by (auto simp: delete_node_def Let_def)
    then show ?thesis using same_node[OF assms(2,3) _ assms(5)] by simp
  next
    case (step_sweep a)
    then have "m \<in> set (nodes db)" using assms(4) by (auto simp: purge_candidate_def delete_node_def Let_def)
    then show ?thesis using same_node[OF assms(2,3) _ assms(5)] by simp
  next
    case (step_team u orgId gid rotb ids)
    obtain W where "nodes db' = map (marked W) (nodes db)" using rotate_group_ok[OF step_team] by (fastforce dest!: group_rotation_ok)
    from mark[OF this] show ?thesis by blast
  next
    case (step_leave u orgId gid uid rotb ids)
    obtain W where "nodes db' = map (marked W) (nodes db)" using remove_member_ok[OF step_leave] by (fastforce dest!: group_rotation_ok)
    from mark[OF this] show ?thesis by blast
  next
    case (step_ungroup u orgId gid ids)
    obtain W where "nodes db' = map (marked W) (nodes db)" using delete_group_ok[OF step_ungroup] by (fastforce simp: Let_def)
    from mark[OF this] show ?thesis by blast
  next
    case (step_share lc newId u i epoch s sid)
    then show ?thesis using create_share_ok[OF step_share(1)] same by (auto dest!: write_share_nodes)
  qed (use same in \<open>auto simp: same_drive_def dest!: patch_share_ok delete_share_ok create_link_ok revoke_link_ok link_count_ok\<close>)
qed

text \<open>C7: a required rotation can only be answered by a rotation. In every reachable state, a step keeps the epoch of each node, except that the
  rotation of its key raises it by one and disconnects its peers; and a node marked as requiring a rotation stays marked until its
  epoch is raised. While it is marked, no upload of content and no rename or move of the node succeeds.\<close>

theorem required_rotation_blocks:
  assumes "drive_reach db" "n \<in> set (nodes db)" "node_rotation_required n"
  shows "(\<forall>outs db' m. drive_step db outs db' \<longrightarrow> m \<in> set (nodes db') \<longrightarrow> node_id m = node_id n \<longrightarrow>
            node_rotation_required m \<and> node_key_epoch m = node_key_epoch n \<or>
            node_key_epoch m = node_key_epoch n + 1 \<and> KickNode (node_id n) ''rekeyed'' \<in> set outs) \<and>
         (\<forall>site lc is_uuid safe_int vid blob now u q. \<exists>e. fst (upload_content site lc is_uuid safe_int vid blob now db u (node_id n) q) = Inl e) \<and>
         (\<forall>site now u b. \<exists>e. fst (patch_node site now db u (node_id n) b) = Inl e)"
proof (intro conjI allI impI)
  have d: "distinct (map node_id (nodes db))" by (rule reach_ids[OF assms(1)])
  have n: "node_by_id db (node_id n) = Some n" by (rule node_by_id_eq[OF d assms(2)])
  show "node_rotation_required m \<and> node_key_epoch m = node_key_epoch n \<or>
      node_key_epoch m = node_key_epoch n + 1 \<and> KickNode (node_id n) ''rekeyed'' \<in> set outs"
    if "drive_step db outs db'" "m \<in> set (nodes db')" "node_id m = node_id n" for outs db' m
    using drive_step_key_state[OF that(1) d assms(2) that(2,3)] assms(3) by (auto simp: key_state_def)
  fix site lc is_uuid safe_int vid blob now u q
  show "\<exists>e. fst (upload_content site lc is_uuid safe_int vid blob now db u (node_id n) q) = Inl e"
  proof (cases "upload_content site lc is_uuid safe_int vid blob now db u (node_id n) q")
    case (fields r db' outs)
    show ?thesis
    proof (cases r)
      case (Inr m)
      obtain user :: auth_user and access :: node_access and base nbytes where
        "upload_tx site vid blob now db (au_id user) (na_orgId access) (node_id n) base (uq_nonce q) nbytes = (Inr m, db')"
        using upload_content_ok[OF fields[unfolded Inr]] by blast
      then show ?thesis using upload_tx_ok n assms(3) by (fastforce simp: assertContentBase_def)
    qed (use fields in simp)
  qed
next
  have d: "distinct (map node_id (nodes db))" by (rule reach_ids[OF assms(1)])
  have n: "node_by_id db (node_id n) = Some n" by (rule node_by_id_eq[OF d assms(2)])
  fix site now u b
  show "\<exists>e. fst (patch_node site now db u (node_id n) b) = Inl e"
  proof (cases "patch_node site now db u (node_id n) b")
    case (fields r db' outs)
    show ?thesis
    proof (cases r)
      case (Inr m)
      obtain user where "patch_write db user (node_id n) b now = (Inr m, db', outs)" using patch_node_ok[OF fields[unfolded Inr]] by blast
      then show ?thesis using patch_write_ok n assms(3) by fastforce
    qed (use fields in simp)
  qed
qed

lemma team2_node: "list_ex (\<lambda>n. node_rotation_required n) (nodes team2)" by code_simp

theorem required_rotation_blocks_witness:
  "\<exists>n\<in>set (nodes team2). \<forall>site now u b. \<exists>e. fst (patch_node site now team2 u (node_id n) b) = Inl e"
  using team2_node required_rotation_blocks[OF team_reach(3)] unfolding list_ex_iff by blast

end
