(* ===== verification/Sheet_Refs.thy ===== *)
theory Sheet_Refs
  imports Prelude
begin

text \<open>
  Addresses of cells and the rewriting of the references of a formula, \<^verbatim>\<open>web-studio/src/sheet/formula.ts\<close>
  (\<^verbatim>\<open>colToIndex\<close> to \<^verbatim>\<open>applyNamedRanges\<close>). The regular expressions are the predicates
  and splittings below; scanning by index is recursion on the rest of the text.
\<close>

section \<open>Addresses\<close>

definition colToIndex :: "string \<Rightarrow> int" where
  "colToIndex col = fold (\<lambda>ch n. n * 26 + (of_char ch - 64)) col 0 - 1"

lemma div26_less: "0 < n \<Longrightarrow> (n - 1) div 26 < (n :: int)"
proof -
  assume "0 < n"
  then have "(n - 1) div 26 \<le> (n - 1) div 1" by (intro zdiv_mono2) simp_all
  then show ?thesis by simp
qed

function col_loop :: "int \<Rightarrow> string \<Rightarrow> string" where
  "col_loop n s = (if n > 0 then col_loop ((n - 1) div 26) (char_of (65 + nat ((n - 1) mod 26)) # s) else s)"
  by pat_completeness auto
termination
  by (relation "measure (\<lambda>(n, _). nat n)") (simp_all add: div26_less)

declare col_loop.simps [simp del]

definition indexToCol :: "int \<Rightarrow> string" where
  "indexToCol idx = col_loop (idx + 1) []"

text \<open>An optional dollar, letters, an optional dollar, digits; the letters are those of \<open>letter\<close>.\<close>

definition dollar :: "string \<Rightarrow> string \<times> string" where
  "dollar s = (case s of [] \<Rightarrow> ([], []) | c # cs \<Rightarrow> if c = CHR ''$'' then ([c], cs) else ([], s))"

definition split_address :: "(char \<Rightarrow> bool) \<Rightarrow> string \<Rightarrow> (string \<times> string \<times> string \<times> string) option" where
  "split_address letter s =
     (let (d1, s1) = dollar s;
          ls = takeWhile letter s1;
          (d2, ds) = dollar (dropWhile letter s1)
      in if ls \<noteq> [] \<and> ds \<noteq> [] \<and> list_all is_digit ds then Some (d1, ls, d2, ds) else None)"

definition parseRef :: "string \<Rightarrow> (int \<times> int) option" where
  "parseRef ref = map_option (\<lambda>(_, ls, _, ds). (colToIndex ls, parse_dec ds - 1)) (split_address is_upper ref)"

definition cellRef :: "int \<Rightarrow> int \<Rightarrow> string" where
  "cellRef c r = indexToCol c @ int_text (r + 1)"

definition expandRange :: "string \<Rightarrow> string \<Rightarrow> string + string list" where
  "expandRange a b =
     (case (parseRef a, parseRef b) of
        (Some (ac, ar), Some (bc, br)) \<Rightarrow>
          Inr [cellRef c r. r \<leftarrow> [min ar br..max ar br], c \<leftarrow> [min ac bc..max ac bc]]
      | _ \<Rightarrow> Inl ''#REF'')"

section \<open>Rewriting the references of a formula\<close>

type_synonym ref_map = "int \<Rightarrow> int \<Rightarrow> (int \<times> int) option"

definition word_start :: "char \<Rightarrow> bool" where
  "word_start c \<longleftrightarrow> is_alpha c \<or> c = CHR ''_'' \<or> c = CHR ''$''"

definition word_char :: "char \<Rightarrow> bool" where
  "word_char c \<longleftrightarrow> word_start c \<or> is_digit c"

definition dead_ref :: string where "dead_ref = ''#REF!''"

definition rewriteAddr :: "ref_map \<Rightarrow> bool \<Rightarrow> bool \<Rightarrow> string \<Rightarrow> string" where
  "rewriteAddr m respectAnchors qualified word =
     (case split_address is_alpha word of
        None \<Rightarrow> word
      | Some (d1, _, d2, _) \<Rightarrow>
          (case parseRef (map to_upper word) of
             None \<Rightarrow> word
           | Some (pc, pr) \<Rightarrow>
               if qualified \<and> \<not> respectAnchors then word
               else (case m pc pr of
                  None \<Rightarrow> dead_ref
                | Some (nc, nr) \<Rightarrow>
                    let col = (if respectAnchors \<and> d1 = ''$'' then pc else nc);
                        row = (if respectAnchors \<and> d2 = ''$'' then pr else nr)
                    in if col < 0 \<or> row < 0 then dead_ref else d1 @ indexToCol col @ d2 @ int_text (row + 1))))"

text \<open>What a quoted sheet name consumes, its closing quote included when there is one, and the rest;
  a doubled quote is part of the name.\<close>

fun quoted :: "string \<Rightarrow> string \<times> string" where
  "quoted [] = ([], [])"
| "quoted (c # cs) =
     (if c = CHR 39 then
        (case cs of
           d # ds \<Rightarrow> if d = CHR 39 then (let (a, b) = quoted ds in (c # d # a, b)) else ([c], cs)
         | [] \<Rightarrow> ([c], []))
      else (let (a, b) = quoted cs in (c # a, b)))"

text \<open>Is there a closing quote?\<close>

fun closed :: "string \<Rightarrow> bool" where
  "closed [] = False"
| "closed (c # cs) =
     (if c = CHR 39 then (case cs of d # ds \<Rightarrow> if d = CHR 39 then closed ds else True | [] \<Rightarrow> True) else closed cs)"

definition after_spaces :: "string \<Rightarrow> char option" where
  "after_spaces s = (case dropWhile js_space s of [] \<Rightarrow> None | c # _ \<Rightarrow> Some c)"

lemma quoted_split: "fst (quoted s) @ snd (quoted s) = s"
proof (induction s rule: quoted.induct)
  case (2 c cs)
  then show ?case by (cases cs) (simp_all add: Let_def case_prod_unfold)
qed simp

lemma length_snd_quoted: "length (snd (quoted s)) \<le> length s"
  by (metis quoted_split length_append le_add2)

lemma length_drop_address: "length (dropWhile P (drop n (dropWhile Q s))) \<le> length s"
  by (metis le_trans length_drop diff_le_self length_dropWhile_le)

lemma length_literal: "length (dropWhile P cs) - Suc 0 < Suc (length cs)"
  using length_dropWhile_le[of P cs] by simp

function rewriteRefs :: "ref_map \<Rightarrow> bool \<Rightarrow> string \<Rightarrow> string" where
  "rewriteRefs m anchors [] = []"
| "rewriteRefs m anchors (c # cs) =
     (if c = CHR 34 then
        (let rest = dropWhile (\<lambda>x. x \<noteq> CHR 34) cs
         in c # takeWhile (\<lambda>x. x \<noteq> CHR 34) cs @ take 1 rest @ rewriteRefs m anchors (drop 1 rest))
      else if c = CHR 39 then
        (let name = fst (quoted cs); rest = snd (quoted cs)
         in if after_spaces rest = Some (CHR ''!'') then
              (let behind = drop 1 (dropWhile js_space rest)
               in c # name @ takeWhile js_space rest @ ''!'' @ rewriteAddr m anchors True (takeWhile word_char behind) @
                  rewriteRefs m anchors (dropWhile word_char behind))
            else c # name @ rewriteRefs m anchors rest)
      else if word_start c then
        (let word = c # takeWhile word_char cs; rest = dropWhile word_char cs
         in if after_spaces rest = Some (CHR ''('') then word @ rewriteRefs m anchors rest
            else if after_spaces rest = Some (CHR ''!'') then
              (let behind = drop 1 (dropWhile js_space rest)
               in word @ takeWhile js_space rest @ ''!'' @ rewriteAddr m anchors True (takeWhile word_char behind) @
                  rewriteRefs m anchors (dropWhile word_char behind))
            else rewriteAddr m anchors False word @ rewriteRefs m anchors rest)
      else c # rewriteRefs m anchors cs)"
  by pat_completeness auto
termination
proof (relation "measure (\<lambda>(_, _, s). length s)"; simp add: Let_def del: length_drop)
  fix cs :: string
  show "length (drop (Suc 0) (dropWhile (\<lambda>x. x \<noteq> CHR 34) cs)) < Suc (length cs)"
    using length_dropWhile_le[of "\<lambda>x. x \<noteq> CHR 34" cs] by simp
  show "length (snd (quoted cs)) < Suc (length cs)" using length_snd_quoted[of cs] by simp
  show "length (dropWhile word_char (drop (Suc 0) (dropWhile js_space (snd (quoted cs))))) < Suc (length cs)"
    using length_drop_address[of word_char 1 js_space "snd (quoted cs)"] length_snd_quoted[of cs] by simp
  show "length (dropWhile word_char cs) < Suc (length cs)" by (simp add: le_imp_less_Suc length_dropWhile_le)
  then show "length (dropWhile word_char cs) < Suc (length cs)" .
  show "length (dropWhile word_char (drop (Suc 0) (dropWhile js_space (dropWhile word_char cs)))) < Suc (length cs)"
    using length_drop_address[of word_char 1 js_space "dropWhile word_char cs"] length_dropWhile_le[of word_char cs] by simp
qed

declare rewriteRefs.simps(2) [simp del]

section \<open>Names of sheets and defined names\<close>

text \<open>\<^verbatim>\<open>toLowerCase\<close> on the code units below 256.\<close>

definition lower_char :: "char \<Rightarrow> char" where
  "lower_char c =
     (let n = of_char c :: nat
      in if 65 \<le> n \<and> n \<le> 90 \<or> 192 \<le> n \<and> n \<le> 222 \<and> n \<noteq> 215 then char_of (n + 32) else c)"

definition bare_name :: "string \<Rightarrow> bool" where
  "bare_name s \<longleftrightarrow>
     (case s of [] \<Rightarrow> False
      | c # cs \<Rightarrow> (is_alpha c \<or> c = CHR ''_'') \<and> list_all (\<lambda>x. is_alpha x \<or> is_digit x \<or> x = CHR ''_'') cs)"

definition double_quotes :: "string \<Rightarrow> string" where
  "double_quotes s = concat (map (\<lambda>c. if c = CHR 39 then [c, c] else [c]) s)"

definition quoteSheetName :: "string \<Rightarrow> string" where
  "quoteSheetName name = (if bare_name name then name else [CHR 39] @ double_quotes name @ [CHR 39])"

text \<open>The name a quoted text denotes: its doubled quotes are single ones, its closing quote is dropped.\<close>

fun quoted_name :: "string \<Rightarrow> string" where
  "quoted_name [] = []"
| "quoted_name (c # cs) =
     (if c = CHR 39 then (case cs of d # ds \<Rightarrow> if d = CHR 39 then d # quoted_name ds else [] | [] \<Rightarrow> [])
      else c # quoted_name cs)"

definition same_sheet :: "string \<Rightarrow> string \<Rightarrow> bool" where
  "same_sheet a b \<longleftrightarrow> map lower_char a = map lower_char b"

function rename_scan :: "string \<Rightarrow> string \<Rightarrow> string \<Rightarrow> string" where
  "rename_scan oldName replacement [] = []"
| "rename_scan oldName replacement (c # cs) =
     (if c = CHR 34 then
        (let rest = dropWhile (\<lambda>x. x \<noteq> CHR 34) cs
         in c # takeWhile (\<lambda>x. x \<noteq> CHR 34) cs @ take 1 rest @ rename_scan oldName replacement (drop 1 rest))
      else if c = CHR 39 then
        (let rest = snd (quoted cs)
         in (if after_spaces rest = Some (CHR ''!'') \<and> same_sheet (quoted_name cs) oldName then replacement else c # fst (quoted cs)) @
            rename_scan oldName replacement rest)
      else if word_start c then
        (let word = c # takeWhile word_char cs; rest = dropWhile word_char cs
         in (if after_spaces rest = Some (CHR ''!'') \<and> same_sheet word oldName then replacement else word) @
            rename_scan oldName replacement rest)
      else c # rename_scan oldName replacement cs)"
  by pat_completeness auto
termination
  by (relation "measure (\<lambda>(_, _, s). length s)")
    (simp_all add: le_imp_less_Suc length_dropWhile_le length_snd_quoted Let_def length_literal)

definition renameSheetRefs :: "string \<Rightarrow> string \<Rightarrow> string \<Rightarrow> string" where
  "renameSheetRefs formula oldName newName =
     (case formula of [] \<Rightarrow> formula
      | c # _ \<Rightarrow> if c = CHR ''='' then rename_scan oldName (quoteSheetName newName) formula else formula)"

text \<open>The words of this scan may hold points, as the names of functions do.\<close>

definition name_char :: "char \<Rightarrow> bool" where
  "name_char c \<longleftrightarrow> word_char c \<or> c = CHR ''.''"

definition is_address :: "string \<Rightarrow> bool" where
  "is_address word \<longleftrightarrow> split_address is_alpha word \<noteq> None"

function applyNamedRanges :: "string \<Rightarrow> (string \<Rightarrow> string option) \<Rightarrow> string" where
  "applyNamedRanges [] resolve = []"
| "applyNamedRanges (c # cs) resolve =
     (if c = CHR 34 then
        (let rest = dropWhile (\<lambda>x. x \<noteq> CHR 34) cs
         in c # takeWhile (\<lambda>x. x \<noteq> CHR 34) cs @ take 1 rest @ applyNamedRanges (drop 1 rest) resolve)
      else if c = CHR 39 then c # fst (quoted cs) @ applyNamedRanges (snd (quoted cs)) resolve
      else if word_start c then
        (let word = c # takeWhile name_char cs; rest = dropWhile name_char cs
         in (if after_spaces rest = Some (CHR ''('') \<or> after_spaces rest = Some (CHR ''!'') \<or> is_address word then word
             else case resolve (map to_upper word) of None \<Rightarrow> word | Some target \<Rightarrow> target) @
            applyNamedRanges rest resolve)
      else c # applyNamedRanges cs resolve)"
  by pat_completeness auto
termination
  by (relation "measure (\<lambda>(s, _). length s)")
    (simp_all add: le_imp_less_Suc length_dropWhile_le length_snd_quoted Let_def length_literal)

declare rename_scan.simps(2) [simp del] applyNamedRanges.simps(2) [simp del]

end
