(* ===== verification/Sheet_Parser.thy ===== *)
theory Sheet_Parser
  imports Sheet_Refs
begin

text \<open>
  The formula engine's lexer and parser, \<^verbatim>\<open>web-studio/src/sheet/formula.ts\<close> (\<^verbatim>\<open>tokenize\<close> and
  the class \<^verbatim>\<open>Parser\<close>). A number keeps the text it was read from; the parser's methods take the
  rest of the tokens instead of the index \<open>p\<close>.
\<close>

section \<open>Lexer\<close>

datatype tok = Num string | Str string | Id string | Sheet string | Op string

definition is_op_char :: "char \<Rightarrow> bool" where
  "is_op_char c \<longleftrightarrow> c \<in> set ''+-*/(),:=<>!&^%''"

definition num_start :: "char \<Rightarrow> string \<Rightarrow> bool" where
  "num_start c cs \<longleftrightarrow> is_digit c \<or> c = CHR ''.'' \<and> (case cs of [] \<Rightarrow> False | d # _ \<Rightarrow> is_digit d)"

definition num_char :: "char \<Rightarrow> bool" where
  "num_char c \<longleftrightarrow> is_digit c \<or> c = CHR ''.''"

text \<open>\<open>A1#\<close>: the sign directly follows a word, and no letter follows it.\<close>

definition spill_sign :: "tok option \<Rightarrow> char option \<Rightarrow> string \<Rightarrow> bool" where
  "spill_sign lst prev rest \<longleftrightarrow>
     (case lst of Some (Id _) \<Rightarrow> True | _ \<Rightarrow> False) \<and>
     (case prev of None \<Rightarrow> False | Some p \<Rightarrow> is_alpha p \<or> is_digit p \<or> p = CHR ''$'') \<and>
     (case rest of [] \<Rightarrow> True | d # _ \<Rightarrow> \<not> is_alpha d)"

definition push :: "tok \<Rightarrow> string + tok list \<Rightarrow> string + tok list" where
  "push t r = map_sum id (\<lambda>ts. t # ts) r"

text \<open>The last token read and the character just before stand for \<^verbatim>\<open>toks[toks.length - 1]\<close> and \<^verbatim>\<open>src[i - 1]\<close>.\<close>

function scan :: "tok option \<Rightarrow> char option \<Rightarrow> string \<Rightarrow> string + tok list" where
  "scan lst prev [] = Inr []"
| "scan lst prev (c # cs) =
     (if c = CHR '' '' \<or> c = CHR 9 then scan lst (Some c) cs
      else if num_start c cs then
        (let text = c # takeWhile num_char cs
         in if 1 < length (filter (\<lambda>x. x = CHR ''.'') text) then Inl ''#NUM''
            else push (Num text) (scan (Some (Num text)) (Some (List.last text)) (dropWhile num_char cs)))
      else if c = CHR 34 then
        (let body = takeWhile (\<lambda>x. x \<noteq> CHR 34) cs; rest = dropWhile (\<lambda>x. x \<noteq> CHR 34) cs
         in if rest = [] then Inl ''#ERR''
            else push (Str body) (scan (Some (Str body)) (Some (CHR 34)) (drop 1 rest)))
      else if c = CHR 39 then
        (if closed cs then push (Sheet (quoted_name cs)) (scan (Some (Sheet (quoted_name cs))) (Some (CHR 39)) (snd (quoted cs)))
         else Inl ''#ERR'')
      else if word_start c then
        (let word = c # takeWhile word_char cs
         in push (Id word) (scan (Some (Id word)) (Some (List.last word)) (dropWhile word_char cs)))
      else if take 2 (c # cs) \<in> {''<='', ''>='', ''<>''} then
        push (Op (take 2 (c # cs))) (scan (Some (Op (take 2 (c # cs)))) (Some (cs ! 0)) (drop 1 cs))
      else if c = CHR '';'' then push (Op '','') (scan (Some (Op '','')) (Some c) cs)
      else if c = CHR ''#'' \<and> spill_sign lst prev cs then push (Op ''#'') (scan (Some (Op ''#'')) (Some c) cs)
      else if is_op_char c then push (Op [c]) (scan (Some (Op [c])) (Some c) cs)
      else if c = CHR ''#'' then Inl ''#REF''
      else Inl ''#ERR'')"
  by pat_completeness auto
termination
  by (relation "measure (\<lambda>(_, _, s). length s)")
    (simp_all add: le_imp_less_Suc length_dropWhile_le length_snd_quoted Let_def length_literal)

section \<open>Syntax trees\<close>

text \<open>A cell reference is upper case without dollars; the optional name is the sheet that qualifies it.\<close>

datatype node =
    NNum string
  | NStr string
  | NBool bool
  | NRef string "string option"
  | NRange string string "string option"
  | NName string
  | NSpill string "string option"
  | NNeg node
  | NPct node
  | NBin string node node
  | NCall string "node list"
  | NInvoke node "node list"

definition COMPARE_OPS :: "string list" where
  "COMPARE_OPS = [''='', ''<>'', ''<'', ''>'', ''<='', ''>='']"

section \<open>Parser\<close>

text \<open>\<open>None\<close> is the exception \<^verbatim>\<open>#ERR\<close>, the only one the parser throws.\<close>

type_synonym 'a parsed = "('a \<times> tok list) option"

fun starts_op :: "string list \<Rightarrow> tok list \<Rightarrow> bool" where
  "starts_op vs (Op v # _) = (v \<in> set vs)"
| "starts_op vs _ = False"

definition is_ref :: "string \<Rightarrow> bool" where
  "is_ref w \<longleftrightarrow> split_address is_upper (map to_upper w) \<noteq> None"

definition ref_name :: "string \<Rightarrow> string" where
  "ref_name w = filter (\<lambda>c. c \<noteq> CHR ''$'') (map to_upper w)"

definition maybeRange :: "string \<Rightarrow> string option \<Rightarrow> tok list \<Rightarrow> node \<times> tok list" where
  "maybeRange a sheet ts =
     (case ts of
        Op v # Id w # rest \<Rightarrow>
          if v = '':'' \<and> is_ref w then (NRange a (ref_name w) sheet, rest) else (NRef a sheet, ts)
      | _ \<Rightarrow> (NRef a sheet, ts))"

definition qualifiedRef :: "string \<Rightarrow> tok list \<Rightarrow> node parsed" where
  "qualifiedRef sheet ts =
     (case ts of
        Op v # Id w # rest \<Rightarrow> if v = ''!'' \<and> is_ref w then Some (maybeRange (ref_name w) (Some sheet) rest) else None
      | _ \<Rightarrow> None)"

definition spill_node :: "node \<Rightarrow> node option" where
  "spill_node n = (case n of NRef v sheet \<Rightarrow> Some (NSpill v sheet) | _ \<Rightarrow> None)"

definition callable :: "node \<Rightarrow> bool" where
  "callable n = (case n of NCall _ _ \<Rightarrow> True | NInvoke _ _ \<Rightarrow> True | _ \<Rightarrow> False)"

definition op_text :: "tok \<Rightarrow> string" where
  "op_text t = (case t of Op v \<Rightarrow> v | _ \<Rightarrow> [])"

function p_comparison :: "tok list \<Rightarrow> node parsed"
  and p_concat :: "tok list \<Rightarrow> node parsed"
  and concat_loop :: "node \<Rightarrow> tok list \<Rightarrow> node parsed"
  and p_additive :: "tok list \<Rightarrow> node parsed"
  and additive_loop :: "node \<Rightarrow> tok list \<Rightarrow> node parsed"
  and p_multiplicative :: "tok list \<Rightarrow> node parsed"
  and multiplicative_loop :: "node \<Rightarrow> tok list \<Rightarrow> node parsed"
  and p_power :: "tok list \<Rightarrow> node parsed"
  and power_loop :: "node \<Rightarrow> tok list \<Rightarrow> node parsed"
  and p_unary :: "tok list \<Rightarrow> node parsed"
  and p_postfix :: "tok list \<Rightarrow> node parsed"
  and postfix_loop :: "node \<Rightarrow> tok list \<Rightarrow> node parsed"
  and p_primary :: "tok list \<Rightarrow> node parsed"
  and call_args :: "tok list \<Rightarrow> node list parsed"
  and args_loop :: "tok list \<Rightarrow> node list parsed" where
  "p_comparison ts =
     (case p_concat ts of None \<Rightarrow> None
      | Some (n, r) \<Rightarrow>
          if starts_op COMPARE_OPS r
          then (case p_concat (tl r) of None \<Rightarrow> None | Some (m, r') \<Rightarrow> Some (NBin (op_text (hd r)) n m, r'))
          else Some (n, r))"
| "p_concat ts = (case p_additive ts of None \<Rightarrow> None | Some (n, r) \<Rightarrow> concat_loop n r)"
| "concat_loop n ts =
     (if starts_op [''&''] ts
      then (case p_additive (tl ts) of None \<Rightarrow> None | Some (m, r) \<Rightarrow> concat_loop (NBin ''&'' n m) r)
      else Some (n, ts))"
| "p_additive ts = (case p_multiplicative ts of None \<Rightarrow> None | Some (n, r) \<Rightarrow> additive_loop n r)"
| "additive_loop n ts =
     (if starts_op [''+'', ''-''] ts
      then (case p_multiplicative (tl ts) of None \<Rightarrow> None | Some (m, r) \<Rightarrow> additive_loop (NBin (op_text (hd ts)) n m) r)
      else Some (n, ts))"
| "p_multiplicative ts = (case p_power ts of None \<Rightarrow> None | Some (n, r) \<Rightarrow> multiplicative_loop n r)"
| "multiplicative_loop n ts =
     (if starts_op [''*'', ''/''] ts
      then (case p_power (tl ts) of None \<Rightarrow> None | Some (m, r) \<Rightarrow> multiplicative_loop (NBin (op_text (hd ts)) n m) r)
      else Some (n, ts))"
| "p_power ts = (case p_unary ts of None \<Rightarrow> None | Some (n, r) \<Rightarrow> power_loop n r)"
| "power_loop n ts =
     (if starts_op [''^''] ts
      then (case p_unary (tl ts) of None \<Rightarrow> None | Some (m, r) \<Rightarrow> power_loop (NBin ''^'' n m) r)
      else Some (n, ts))"
| "p_unary ts =
     (if starts_op [''-''] ts then (case p_unary (tl ts) of None \<Rightarrow> None | Some (n, r) \<Rightarrow> Some (NNeg n, r))
      else if starts_op [''+''] ts then p_unary (tl ts)
      else p_postfix ts)"
| "p_postfix ts = (case p_primary ts of None \<Rightarrow> None | Some (n, r) \<Rightarrow> postfix_loop n r)"
| "postfix_loop n ts =
     (if starts_op [''%''] ts then postfix_loop (NPct n) (tl ts)
      else if starts_op [''#''] ts \<and> spill_node n \<noteq> None then postfix_loop (the (spill_node n)) (tl ts)
      else if starts_op [''(''] ts \<and> callable n
      then (case call_args ts of None \<Rightarrow> None | Some (args, r) \<Rightarrow> postfix_loop (NInvoke n args) r)
      else Some (n, ts))"
| "p_primary ts =
     (case ts of [] \<Rightarrow> None
      | t # rest \<Rightarrow>
          (case t of
             Num v \<Rightarrow> Some (NNum v, rest)
           | Str v \<Rightarrow> Some (NStr v, rest)
           | Sheet v \<Rightarrow> qualifiedRef v rest
           | Op v \<Rightarrow>
               if v = ''('' then
                 (case p_comparison rest of None \<Rightarrow> None
                  | Some (n, r) \<Rightarrow> if starts_op ['')''] r then Some (n, tl r) else None)
               else None
           | Id v \<Rightarrow>
               if starts_op [''(''] rest then
                 (case call_args rest of None \<Rightarrow> None | Some (args, r) \<Rightarrow> Some (NCall (map to_upper v) args, r))
               else if starts_op [''!''] rest then qualifiedRef v rest
               else if is_ref v then Some (maybeRange (ref_name v) None rest)
               else if map to_upper v = ''TRUE'' then Some (NBool True, rest)
               else if map to_upper v = ''FALSE'' then Some (NBool False, rest)
               else Some (NName (map to_upper v), rest)))"
| "call_args ts =
     (if \<not> starts_op [''(''] ts then None
      else if starts_op ['')''] (tl ts) then Some ([], tl (tl ts))
      else (case args_loop (tl ts) of None \<Rightarrow> None
            | Some (args, r) \<Rightarrow> if starts_op ['')''] r then Some (args, tl r) else None))"
| "args_loop ts =
     (case p_comparison ts of None \<Rightarrow> None
      | Some (n, r) \<Rightarrow>
          if starts_op ['',''] r
          then (case args_loop (tl r) of None \<Rightarrow> None | Some (args, r') \<Rightarrow> Some (n # args, r'))
          else Some ([n], r))"
  by pat_completeness auto

text \<open>Termination: the tokens left are fewer than those given. This is proved on the domain first, since
  the loops run on what the previous call left.\<close>

abbreviation parser_dom where
  "parser_dom \<equiv>
    p_comparison_p_concat_concat_loop_p_additive_additive_loop_p_multiplicative_multiplicative_loop_p_power_power_loop_p_unary_p_postfix_postfix_loop_p_primary_call_args_args_loop_dom"

lemma starts_op_length: "starts_op vs ts \<Longrightarrow> Suc (length (tl ts)) = length ts"
  by (cases ts) auto

lemma length_maybeRange: "length (snd (maybeRange a sheet ts)) \<le> length ts"
  by (auto simp: maybeRange_def split: list.splits tok.splits)

lemma length_maybeRange_eq: "maybeRange a sheet ts = (n, r) \<Longrightarrow> length r \<le> length ts"
  using length_maybeRange[of a sheet ts] by simp

lemma length_qualifiedRef: "qualifiedRef sheet ts = Some (n, r) \<Longrightarrow> length r < length ts"
  by (auto simp: qualifiedRef_def dest: length_maybeRange_eq split: list.splits tok.splits if_splits)

lemma parser_consumes:
  "parser_dom (Inl (Inl (Inl ts))) \<Longrightarrow> \<forall>v r. p_comparison ts = Some (v, r) \<longrightarrow> length r < length ts"
  "parser_dom (Inl (Inl (Inr (Inl ts)))) \<Longrightarrow> \<forall>v r. p_concat ts = Some (v, r) \<longrightarrow> length r < length ts"
  "parser_dom (Inl (Inl (Inr (Inr (n, ts))))) \<Longrightarrow> \<forall>v r. concat_loop n ts = Some (v, r) \<longrightarrow> length r \<le> length ts"
  "parser_dom (Inl (Inr (Inl (Inl ts)))) \<Longrightarrow> \<forall>v r. p_additive ts = Some (v, r) \<longrightarrow> length r < length ts"
  "parser_dom (Inl (Inr (Inl (Inr (n, ts))))) \<Longrightarrow> \<forall>v r. additive_loop n ts = Some (v, r) \<longrightarrow> length r \<le> length ts"
  "parser_dom (Inl (Inr (Inr (Inl ts)))) \<Longrightarrow> \<forall>v r. p_multiplicative ts = Some (v, r) \<longrightarrow> length r < length ts"
  "parser_dom (Inl (Inr (Inr (Inr (n, ts))))) \<Longrightarrow> \<forall>v r. multiplicative_loop n ts = Some (v, r) \<longrightarrow> length r \<le> length ts"
  "parser_dom (Inr (Inl (Inl (Inl ts)))) \<Longrightarrow> \<forall>v r. p_power ts = Some (v, r) \<longrightarrow> length r < length ts"
  "parser_dom (Inr (Inl (Inl (Inr (n, ts))))) \<Longrightarrow> \<forall>v r. power_loop n ts = Some (v, r) \<longrightarrow> length r \<le> length ts"
  "parser_dom (Inr (Inl (Inr (Inl ts)))) \<Longrightarrow> \<forall>v r. p_unary ts = Some (v, r) \<longrightarrow> length r < length ts"
  "parser_dom (Inr (Inl (Inr (Inr ts)))) \<Longrightarrow> \<forall>v r. p_postfix ts = Some (v, r) \<longrightarrow> length r < length ts"
  "parser_dom (Inr (Inr (Inl (Inl (n, ts))))) \<Longrightarrow> \<forall>v r. postfix_loop n ts = Some (v, r) \<longrightarrow> length r \<le> length ts"
  "parser_dom (Inr (Inr (Inl (Inr ts)))) \<Longrightarrow> \<forall>v r. p_primary ts = Some (v, r) \<longrightarrow> length r < length ts"
  "parser_dom (Inr (Inr (Inr (Inl ts)))) \<Longrightarrow> \<forall>v r. call_args ts = Some (v, r) \<longrightarrow> length r < length ts"
  "parser_dom (Inr (Inr (Inr (Inr ts)))) \<Longrightarrow> \<forall>v r. args_loop ts = Some (v, r) \<longrightarrow> length r < length ts"
proof (induction rule: p_comparison_p_concat_concat_loop_p_additive_additive_loop_p_multiplicative_multiplicative_loop_p_power_power_loop_p_unary_p_postfix_postfix_loop_p_primary_call_args_args_loop.pinduct)
  case (1 ts)
  show ?case using 1(2-) by (fastforce simp: p_comparison.psimps[OF 1(1)] split: option.splits if_splits dest!: starts_op_length)
next
  case (2 ts)
  show ?case using 2(2-) by (fastforce simp: p_concat.psimps[OF 2(1)] split: option.splits if_splits dest!: starts_op_length)
next
  case (3 n ts)
  show ?case using 3(2-) by (fastforce simp: concat_loop.psimps[OF 3(1)] split: option.splits if_splits dest!: starts_op_length)
next
  case (4 ts)
  show ?case using 4(2-) by (fastforce simp: p_additive.psimps[OF 4(1)] split: option.splits if_splits dest!: starts_op_length)
next
  case (5 n ts)
  show ?case using 5(2-) by (fastforce simp: additive_loop.psimps[OF 5(1)] split: option.splits if_splits dest!: starts_op_length)
next
  case (6 ts)
  show ?case using 6(2-) by (fastforce simp: p_multiplicative.psimps[OF 6(1)] split: option.splits if_splits dest!: starts_op_length)
next
  case (7 n ts)
  show ?case using 7(2-) by (fastforce simp: multiplicative_loop.psimps[OF 7(1)] split: option.splits if_splits dest!: starts_op_length)
next
  case (8 ts)
  show ?case using 8(2-) by (fastforce simp: p_power.psimps[OF 8(1)] split: option.splits if_splits dest!: starts_op_length)
next
  case (9 n ts)
  show ?case using 9(2-) by (fastforce simp: power_loop.psimps[OF 9(1)] split: option.splits if_splits dest!: starts_op_length)
next
  case (10 ts)
  show ?case
  proof (cases "starts_op [''-''] ts")
    case True
    then show ?thesis using 10(2)[OF True] starts_op_length[OF True] by (auto simp: p_unary.psimps[OF 10(1)] simp del: length_tl split: option.splits)
  next
    case neg: False
    show ?thesis
    proof (cases "starts_op [''+''] ts")
      case True
      then show ?thesis using neg 10(3)[OF neg True] starts_op_length[OF True]
        by (auto simp: p_unary.psimps[OF 10(1)] simp del: length_tl)
    next
      case False
      then show ?thesis using neg 10(4)[OF neg False] by (simp add: p_unary.psimps[OF 10(1)])
    qed
  qed
next
  case (11 ts)
  show ?case using 11(2-) by (fastforce simp: p_postfix.psimps[OF 11(1)] split: option.splits if_splits dest!: starts_op_length)
next
  case (12 n ts)
  consider (pct) "starts_op [''%''] ts" | (spill) "\<not> starts_op [''%''] ts" "starts_op [''#''] ts \<and> spill_node n \<noteq> None"
    | (invoke) "\<not> starts_op [''%''] ts" "\<not> (starts_op [''#''] ts \<and> spill_node n \<noteq> None)" "starts_op [''(''] ts \<and> callable n"
    | (stop) "\<not> starts_op [''%''] ts" "\<not> (starts_op [''#''] ts \<and> spill_node n \<noteq> None)" "\<not> (starts_op [''(''] ts \<and> callable n)"
    by blast
  then show ?case
  proof cases
    case pct
    then show ?thesis using 12(2)[OF pct] starts_op_length[OF pct] by (auto simp: postfix_loop.psimps[OF 12(1)] simp del: length_tl)
  next
    case spill
    then show ?thesis using 12(3)[OF spill] starts_op_length[of "[''#'']" ts]
      by (auto simp: postfix_loop.psimps[OF 12(1)] simp del: length_tl)
  next
    case invoke
    show ?thesis
    proof (cases "call_args ts")
      case None
      with invoke show ?thesis by (auto simp: postfix_loop.psimps[OF 12(1)])
    next
      case (Some p)
      obtain args r where p: "p = (args, r)" by (cases p)
      have "length r < length ts" using 12(4)[OF invoke] Some p by blast
      moreover have "postfix_loop n ts = postfix_loop (NInvoke n args) r"
        using invoke Some p by (auto simp: postfix_loop.psimps[OF 12(1)])
      ultimately show ?thesis using 12(5)[OF invoke Some p[symmetric]] by (metis less_imp_le order_trans)
    qed
  qed (auto simp: postfix_loop.psimps[OF 12(1)])
next
  case (13 ts)
  show ?case
  proof (cases ts)
    case Nil
    then show ?thesis using p_primary.psimps[OF 13(1)] by simp
  next
    case (Cons t rest)
    show ?thesis
    proof (cases t)
      case (Id v)
      note step = p_primary.psimps[OF 13(1), unfolded Cons Id, simplified]
      show ?thesis
      proof (cases "starts_op [''(''] rest")
        case True
        then show ?thesis using 13(2)[OF Cons Id True] unfolding Cons Id step by (fastforce split: option.splits)
      next
        case False
        then show ?thesis unfolding Cons Id step
          by (auto dest: length_maybeRange_eq length_qualifiedRef split: if_splits)
      qed
    next
      case (Op v)
      note step = p_primary.psimps[OF 13(1), unfolded Cons Op, simplified]
      show ?thesis
      proof (cases "v = ''(''")
        case True
        show ?thesis using 13(3)[OF Cons Op True] unfolding Cons Op step
          by (auto simp: True split: option.splits if_splits dest: starts_op_length)
      next
        case False
        then show ?thesis unfolding Cons Op step by simp
      qed
    qed (use p_primary.psimps[OF 13(1)] in \<open>auto simp: Cons dest: length_qualifiedRef\<close>)
  qed
next
  case (14 ts)
  show ?case
  proof (cases "starts_op [''(''] ts")
    case True
    then obtain rest where ts: "ts = Op ''('' # rest" by (auto elim: starts_op.elims)
    show ?thesis
    proof (cases "starts_op ['')''] rest")
      case True
      with ts show ?thesis using call_args.psimps[OF 14(1)] by auto
    next
      case False
      then have "\<forall>v r. args_loop rest = Some (v, r) \<longrightarrow> length r < length rest" using 14(2) ts by simp
      then show ?thesis using call_args.psimps[OF 14(1)] ts False by (auto split: option.splits if_splits dest!: starts_op_length)
    qed
  next
    case False
    then show ?thesis using call_args.psimps[OF 14(1)] by simp
  qed
next
  case (15 ts)
  show ?case using 15(2-) by (fastforce simp: args_loop.psimps[OF 15(1)] split: option.splits if_splits dest!: starts_op_length)
qed

text \<open>The tokens left count ten times, the height of a method in the grammar once.\<close>

abbreviation parser_size where
  "parser_size \<equiv>
    case_sum
      (case_sum (case_sum (\<lambda>ts. 10 * length ts + 8) (case_sum (\<lambda>ts. 10 * length ts + 7) (\<lambda>(n, ts). 10 * length ts)))
                (case_sum (case_sum (\<lambda>ts. 10 * length ts + 6) (\<lambda>(n, ts). 10 * length ts)) (case_sum (\<lambda>ts. 10 * length ts + 5) (\<lambda>(n, ts). 10 * length ts))))
      (case_sum (case_sum (case_sum (\<lambda>ts. 10 * length ts + 4) (\<lambda>(n, ts). 10 * length ts)) (case_sum (\<lambda>ts. 10 * length ts + 3) (\<lambda>ts. 10 * length ts + 2)))
                (case_sum (case_sum (\<lambda>(n, ts). 10 * length ts + 1) (\<lambda>ts. 10 * length ts + 1)) (case_sum (\<lambda>ts. 10 * length ts + 0) (\<lambda>ts. 10 * length ts + 9))))"

termination p_comparison
proof (relation "measure parser_size", goal_cases)
qed (auto simp del: length_tl dest!: parser_consumes[rule_format, rotated] starts_op_length)

lemmas parser_simps = p_comparison.simps p_concat.simps concat_loop.simps p_additive.simps additive_loop.simps
  p_multiplicative.simps multiplicative_loop.simps p_power.simps power_loop.simps p_unary.simps p_postfix.simps
  postfix_loop.simps p_primary.simps call_args.simps args_loop.simps

declare parser_simps [simp del] scan.simps(2) [simp del]

definition parse :: "tok list \<Rightarrow> string + node" where
  "parse ts = (case p_comparison ts of Some (n, []) \<Rightarrow> Inr n | _ \<Rightarrow> Inl ''#ERR'')"

text \<open>\<open>parseFormula (tokenize body)\<close>: the text after the sign of equality.\<close>

definition tokenize :: "string \<Rightarrow> string + tok list" where
  "tokenize src = scan None None src"

definition parseFormula :: "string \<Rightarrow> string + node" where
  "parseFormula body = (case tokenize body of Inl e \<Rightarrow> Inl e | Inr ts \<Rightarrow> parse ts)"

end
