(* ===== verification/Sheet_Rewrite.thy ===== *)
theory Sheet_Rewrite
  imports Sheet_Parser
begin

text \<open>
  Rewriting the references of a formula against the lexer and the parser: the tokens and the syntax tree
  of the rewritten text.
\<close>

section \<open>Letters and numbers of an address\<close>

lemma digit_not_alpha: "is_digit c \<Longrightarrow> \<not> is_alpha c"
  by (auto simp: is_digit_def is_alpha_def is_upper_def is_lower_def Let_def)

lemma dollar_class [simp]: "\<not> is_alpha CHR ''$''" "\<not> is_digit CHR ''$''" "\<not> is_upper CHR ''$''"
  by (simp_all add: is_digit_def is_alpha_def is_upper_def is_lower_def)

lemma upper_alpha: "is_upper c \<Longrightarrow> is_alpha c"
  by (simp add: is_alpha_def)

lemma digit_not_upper: "is_digit c \<Longrightarrow> \<not> is_upper c"
  using digit_not_alpha upper_alpha by blast

lemma is_upper_to_upper: "is_upper (to_upper c) = is_alpha c"
  by (auto simp: is_upper_def to_upper_def is_alpha_def is_lower_def Let_def)

lemma to_upper_id: "\<not> is_lower c \<Longrightarrow> to_upper c = c"
  by (simp add: to_upper_def)

lemma to_upper_upper: "is_upper c \<Longrightarrow> to_upper c = c"
  by (auto simp: is_upper_def to_upper_def is_lower_def Let_def)

lemma to_upper_digit: "is_digit c \<Longrightarrow> to_upper c = c"
  by (auto simp: is_digit_def to_upper_def is_lower_def Let_def)

lemma to_upper_dollar [simp]: "to_upper CHR ''$'' = CHR ''$''"
  by (simp add: to_upper_def is_lower_def)

lemma is_digit_to_upper: "is_digit (to_upper c) = is_digit c"
  by (auto simp: is_digit_def to_upper_def is_lower_def Let_def)

lemma to_upper_dollar_iff: "to_upper c = CHR ''$'' \<longleftrightarrow> c = CHR ''$''"
  by (auto simp: to_upper_def is_lower_def Let_def dest: arg_cong[where f = "of_char :: char \<Rightarrow> nat"])

definition col_value :: "string \<Rightarrow> int \<Rightarrow> int" where
  "col_value s = fold (\<lambda>ch n. n * 26 + (of_char ch - 64)) s"

lemma col_value_simps [simp]: "col_value [] n = n" "col_value (c # s) n = col_value s (n * 26 + (of_char c - 64))"
  "col_value (s @ t) n = col_value t (col_value s n)"
  by (simp_all add: col_value_def)

lemma colToIndex_value: "colToIndex w = col_value w 0 - 1"
  by (simp add: colToIndex_def col_value_def)

lemma col_value_loop: "0 \<le> n \<Longrightarrow> col_value (col_loop n s) 0 = col_value s n"
proof (induction n s rule: col_loop.induct)
  case (1 n s)
  show ?case
  proof (cases "0 < n")
    case True
    have r: "0 \<le> (n - 1) mod 26" "(n - 1) mod 26 < 26" by simp_all
    then have ch: "(of_char (char_of (65 + nat ((n - 1) mod 26)) :: char) :: int) = 65 + (n - 1) mod 26"
      by (simp add: of_char_int of_char_of nat_less_iff)
    have "col_value (col_loop n s) 0 = col_value s ((n - 1) div 26 * 26 + (1 + (n - 1) mod 26))"
      using 1 True ch by (subst col_loop.simps) (simp add: pos_imp_zdiv_nonneg_iff algebra_simps)
    also have "(n - 1) div 26 * 26 + (1 + (n - 1) mod 26) = n" by (metis add.assoc add.commute diff_add_cancel div_mult_mod_eq)
    finally show ?thesis .
  next
    case False
    then show ?thesis using 1(2) by (subst col_loop.simps) simp
  qed
qed

theorem colToIndex_indexToCol: "0 \<le> i \<Longrightarrow> colToIndex (indexToCol i) = i"
  by (simp add: colToIndex_value indexToCol_def col_value_loop)

lemma col_loop_letters: "list_all is_upper s \<Longrightarrow> list_all is_upper (col_loop n s)"
proof (induction n s rule: col_loop.induct)
  case (1 n s)
  have "nat ((n - 1) mod 26) < 26" by (simp add: nat_less_iff)
  then have "is_upper (char_of (65 + nat ((n - 1) mod 26)))" by (simp add: is_upper_def of_char_of)
  then show ?case using 1 by (subst col_loop.simps) simp
qed

lemma indexToCol_letters: "list_all is_upper (indexToCol i)"
  by (simp add: indexToCol_def col_loop_letters)

lemma col_loop_nonempty: "s \<noteq> [] \<Longrightarrow> col_loop n s \<noteq> []"
proof (induction n s rule: col_loop.induct)
  case (1 n s)
  then show ?case by (subst col_loop.simps) simp
qed

lemma indexToCol_nonempty: "0 \<le> i \<Longrightarrow> indexToCol i \<noteq> []"
  unfolding indexToCol_def by (subst col_loop.simps) (simp add: col_loop_nonempty)

lemma col_value_pos: "list_all is_upper w \<Longrightarrow> 0 \<le> n \<Longrightarrow> 0 \<le> col_value w n"
proof (induction w arbitrary: n)
  case (Cons c w)
  then have "64 \<le> (of_char c :: nat)" by (simp add: is_upper_def Let_def)
  then have "0 \<le> n * 26 + (of_char c - 64)" using Cons.prems(2) unfolding of_char_int by linarith
  then show ?case using Cons by simp
qed simp

lemma col_loop_value: "list_all is_upper w \<Longrightarrow> col_loop (col_value w 0) s = w @ s"
proof (induction w arbitrary: s rule: rev_induct)
  case Nil
  then show ?case by (subst col_loop.simps) simp
next
  case (snoc ch u)
  let ?v = "col_value u 0"
  have v: "0 \<le> ?v" using snoc.prems by (simp add: col_value_pos)
  have ch: "65 \<le> (of_char ch :: nat)" "(of_char ch :: nat) \<le> 90" using snoc.prems by (simp_all add: is_upper_def Let_def)
  define d where "d = (of_char ch :: int) - 65"
  have d: "0 \<le> d" "d < 26" "nat d + 65 = of_char ch" using ch unfolding d_def of_char_int by linarith+
  have n: "col_value (u @ [ch]) 0 = 26 * ?v + d + 1" by (simp add: d_def)
  have "(26 * ?v + d) div 26 = ?v" "(26 * ?v + d) mod 26 = d" using d by simp_all
  then have "col_loop (col_value (u @ [ch]) 0) s = col_loop ?v (char_of (65 + nat d) # s)"
    using v d unfolding n by (subst col_loop.simps) simp
  also have "char_of (65 + nat d) = ch" using d(3) by (metis add.commute char_of_char)
  finally show ?case using snoc by simp
qed

lemma indexToCol_colToIndex: "list_all is_upper w \<Longrightarrow> indexToCol (colToIndex w) = w"
  by (simp add: indexToCol_def colToIndex_value col_loop_value)

section \<open>Splitting an address\<close>

definition is_dollar :: "string \<Rightarrow> bool" where
  "is_dollar d \<longleftrightarrow> d = [] \<or> d = ''$''"

definition letter_class :: "(char \<Rightarrow> bool) \<Rightarrow> bool" where
  "letter_class letter \<longleftrightarrow> \<not> letter CHR ''$'' \<and> (\<forall>c. is_digit c \<longrightarrow> \<not> letter c)"

lemma letter_classes [simp]: "letter_class is_alpha" "letter_class is_upper"
  by (auto simp: letter_class_def dest: digit_not_alpha digit_not_upper)

lemma dollar_append: "is_dollar d \<Longrightarrow> s = [] \<or> hd s \<noteq> CHR ''$'' \<Longrightarrow> dollar (d @ s) = (d, s)"
  by (cases s) (auto simp: is_dollar_def dollar_def)

lemma dollar_split: "dollar s = (d, t) \<Longrightarrow> s = d @ t \<and> is_dollar d"
  by (auto simp: dollar_def is_dollar_def split: list.splits if_splits)

lemma split_address_intro:
  assumes "letter_class letter" "is_dollar d1" "is_dollar d2" "list_all letter ls" "ls \<noteq> []" "list_all is_digit ds" "ds \<noteq> []"
  shows "split_address letter (d1 @ ls @ d2 @ ds) = Some (d1, ls, d2, ds)"
proof -
  obtain a ls' where ls: "ls = a # ls'" using assms(5) by (cases ls) auto
  obtain b ds' where ds: "ds = b # ds'" using assms(7) by (cases ds) auto
  have ab: "letter a" "is_digit b" using assms(4,6) by (simp_all add: ls ds)
  then have h: "hd ls \<noteq> CHR ''$''" "hd ds \<noteq> CHR ''$''" "\<not> letter b" "\<not> letter CHR ''$''" using assms(1) by (auto simp: letter_class_def ls ds)
  have all: "\<And>x. x \<in> set ls \<Longrightarrow> letter x" using assms(4) by (simp add: list_all_iff)
  have "takeWhile letter (ls @ d2 @ ds) = ls" "dropWhile letter (ls @ d2 @ ds) = d2 @ ds"
    using assms(3) h(3,4) by (auto simp: takeWhile_append2[OF all] dropWhile_append2[OF all] is_dollar_def ds)
  moreover have "dollar (d1 @ ls @ d2 @ ds) = (d1, ls @ d2 @ ds)" using assms(2,5) h by (intro dollar_append) auto
  moreover have "dollar (d2 @ ds) = (d2, ds)" using assms(3) h by (intro dollar_append) auto
  ultimately show ?thesis using assms by (simp add: split_address_def)
qed

lemma split_address_elim:
  assumes "split_address letter w = Some (d1, ls, d2, ds)"
  shows "w = d1 @ ls @ d2 @ ds \<and> is_dollar d1 \<and> is_dollar d2 \<and> list_all letter ls \<and> ls \<noteq> [] \<and> list_all is_digit ds \<and> ds \<noteq> []"
proof -
  obtain s1 where d: "dollar w = (d1, s1)" "ls = takeWhile letter s1" "dollar (dropWhile letter s1) = (d2, ds)"
      "ls \<noteq> []" "ds \<noteq> []" "list_all is_digit ds"
    using assms by (auto simp: split_address_def Let_def split: prod.splits if_splits)
  have "s1 = ls @ d2 @ ds" using dollar_split[OF d(3)] d(2) by (metis takeWhile_dropWhile_id)
  moreover have "list_all letter ls" unfolding d(2) list_all_iff by (meson set_takeWhileD)
  ultimately show ?thesis using dollar_split[OF d(1)] dollar_split[OF d(3)] d by simp
qed

lemma map_upper_digits: "list_all is_digit ds \<Longrightarrow> map to_upper ds = ds"
  by (induction ds) (auto simp: to_upper_digit)

lemma map_upper_dollar: "is_dollar d \<Longrightarrow> map to_upper d = d"
  by (auto simp: is_dollar_def)

lemma split_address_upper:
  assumes "split_address is_alpha w = Some (d1, ls, d2, ds)"
  shows "split_address is_upper (map to_upper w) = Some (d1, map to_upper ls, d2, ds)"
  using split_address_elim[OF assms] split_address_intro[of is_upper d1 d2 "map to_upper ls" ds]
  by (simp add: map_upper_digits map_upper_dollar list_all_iff is_upper_to_upper)

lemma map_append_split: "map f xs = ys @ zs \<Longrightarrow> \<exists>us vs. xs = us @ vs \<and> map f us = ys \<and> map f vs = zs"
  unfolding map_eq_append_conv by metis

lemma split_address_upper_None:
  assumes "split_address is_alpha w = None"
  shows "split_address is_upper (map to_upper w) = None"
proof (rule ccontr)
  assume "split_address is_upper (map to_upper w) \<noteq> None"
  then obtain d1 ls d2 ds where "split_address is_upper (map to_upper w) = Some (d1, ls, d2, ds)" by (cases "split_address is_upper (map to_upper w)") auto
  note e = split_address_elim[OF this]
  then have "map to_upper w = d1 @ ls @ d2 @ ds" by blast
  then obtain a w1 where w1: "w = a @ w1" "map to_upper a = d1" "map to_upper w1 = ls @ d2 @ ds"
    using map_append_split by blast
  then obtain b w2 where w2: "w1 = b @ w2" "map to_upper b = ls" "map to_upper w2 = d2 @ ds"
    using map_append_split by blast
  then obtain c d where w3: "w2 = c @ d" "map to_upper c = d2" "map to_upper d = ds"
    using map_append_split by blast
  note w = w1(1)[unfolded w2(1) w3(1)] w1(2) w2(2) w3(2,3)
  have "is_dollar a" "is_dollar c" using e w by (auto simp: is_dollar_def map_eq_Cons_conv to_upper_dollar_iff)
  moreover have "list_all is_alpha b" using e w(3) by (auto simp: list_all_iff is_upper_to_upper)
  moreover have "list_all is_digit d" using e w(5) by (auto simp: list_all_iff is_digit_to_upper)
  ultimately have "split_address is_alpha w = Some (a, b, c, d)" unfolding w(1) using e w(3,5) by (intro split_address_intro) auto
  then show False using assms by simp
qed

lemma is_ref_alpha: "is_ref w \<longleftrightarrow> split_address is_alpha w \<noteq> None"
  using split_address_upper split_address_upper_None by (cases "split_address is_alpha w") (fastforce simp: is_ref_def)+

text \<open>The address printed for a position is read back as this position.\<close>

theorem parseRef_cellRef: "0 \<le> c \<Longrightarrow> 0 \<le> r \<Longrightarrow> parseRef (cellRef c r) = Some (c, r)"
  using split_address_intro[of is_upper "[]" "[]" "indexToCol c" "int_text (r + 1)"] int_text_digits[of "r + 1"]
  by (simp add: parseRef_def cellRef_def is_dollar_def indexToCol_letters indexToCol_nonempty colToIndex_indexToCol parse_int_text)

lemma cellRef_inj: "cellRef c r = cellRef c' r' \<Longrightarrow> 0 \<le> c \<Longrightarrow> 0 \<le> r \<Longrightarrow> 0 \<le> c' \<Longrightarrow> 0 \<le> r' \<Longrightarrow> c = c' \<and> r = r'"
  using parseRef_cellRef by (metis option.inject prod.inject)

section \<open>A rewritten address\<close>

text \<open>What becomes of an address: it stays, dies, or moves.\<close>

lemma rewriteAddr_cases:
  assumes "rewriteAddr m an q w \<noteq> w" "rewriteAddr m an q w \<noteq> dead_ref"
  obtains d1 ls d2 ds pc pr col row where
    "split_address is_alpha w = Some (d1, ls, d2, ds)" "parseRef (map to_upper w) = Some (pc, pr)" "0 \<le> col" "0 \<le> row"
    "rewriteAddr m an q w = d1 @ indexToCol col @ d2 @ int_text (row + 1)" "\<not> q \<or> an"
  using assms by (auto simp: rewriteAddr_def Let_def not_less split: option.splits if_splits)

lemma rewritten_split:
  "is_dollar d1 \<Longrightarrow> is_dollar d2 \<Longrightarrow> 0 \<le> col \<Longrightarrow> 0 \<le> row \<Longrightarrow>
   split_address is_alpha (d1 @ indexToCol col @ d2 @ int_text (row + 1)) = Some (d1, indexToCol col, d2, int_text (row + 1))"
  using indexToCol_letters[of col] int_text_digits[of "row + 1"]
  by (intro split_address_intro) (auto simp: indexToCol_nonempty list_all_iff upper_alpha)

definition is_word :: "string \<Rightarrow> bool" where
  "is_word w \<longleftrightarrow> w \<noteq> [] \<and> word_start (hd w) \<and> list_all word_char w"

lemma digit_word: "is_digit c \<Longrightarrow> word_char c"
  by (simp add: word_char_def)

lemma alpha_word: "is_alpha c \<Longrightarrow> word_start c"
  by (simp add: word_start_def)

lemma start_word: "word_start c \<Longrightarrow> word_char c"
  by (simp add: word_char_def)

lemma address_word: "split_address is_alpha w = Some (d1, ls, d2, ds) \<Longrightarrow> is_word w"
proof -
  assume "split_address is_alpha w = Some (d1, ls, d2, ds)"
  note e = split_address_elim[OF this]
  have d: "word_start CHR ''$''" by (simp add: word_start_def)
  have "list_all word_char w" using e d by (auto simp: list_all_iff is_dollar_def intro: digit_word start_word alpha_word)
  moreover have "word_start (hd w)" using e d by (cases ls) (auto simp: is_dollar_def alpha_word)
  ultimately show ?thesis using e by (auto simp: is_word_def)
qed

lemma rewriteAddr_word: "is_word w \<Longrightarrow> rewriteAddr m an q w \<noteq> dead_ref \<Longrightarrow> is_word (rewriteAddr m an q w)"
  by (cases "rewriteAddr m an q w = w") (auto elim!: rewriteAddr_cases dest: split_address_elim simp: address_word[OF rewritten_split])

section \<open>The lexer on rewritten texts\<close>

definition hot :: "tok option \<Rightarrow> char option \<Rightarrow> bool" where
  "hot l p \<longleftrightarrow> (case l of Some (Id _) \<Rightarrow> True | _ \<Rightarrow> False) \<and>
     (case p of None \<Rightarrow> False | Some c \<Rightarrow> is_alpha c \<or> is_digit c \<or> c = CHR ''$'')"

definition no_letter :: "string \<Rightarrow> bool" where
  "no_letter s \<longleftrightarrow> (case s of [] \<Rightarrow> True | d # _ \<Rightarrow> \<not> is_alpha d)"

lemma spill_sign_hot: "spill_sign l p s \<longleftrightarrow> hot l p \<and> no_letter s"
  by (simp add: spill_sign_def hot_def no_letter_def)

definition blank :: "char \<Rightarrow> bool" where "blank c \<longleftrightarrow> c = CHR '' '' \<or> c = CHR 9"

lemma blank_cold [simp]: "blank c \<Longrightarrow> \<not> hot l (Some c)"
  by (auto simp: blank_def hot_def is_alpha_def is_upper_def is_lower_def is_digit_def)

lemma scan_blank: "blank c \<Longrightarrow> scan l p (c # s) = scan l (Some c) s"
  by (simp add: scan.simps(2) blank_def)

text \<open>The lexer's memory matters through one bit.\<close>

lemma scan_cong: "hot l p = hot l' p' \<Longrightarrow> scan l p s = scan l' p' s"
proof (induction s arbitrary: p p')
  case (Cons c cs)
  show ?case
  proof (cases "blank c")
    case True
    then show ?thesis using Cons.IH[of "Some c" "Some c"] by (simp add: scan_blank)
  next
    case False
    then show ?thesis using Cons.prems by (simp add: scan.simps(2)[of _ _ c cs] blank_def spill_sign_hot)
  qed
qed simp

definition stops :: "(char \<Rightarrow> bool) \<Rightarrow> string \<Rightarrow> bool" where
  "stops P s \<longleftrightarrow> s = [] \<or> \<not> P (hd s)"

lemma stops_dropWhile [simp]: "stops P (dropWhile P s)"
  using hd_dropWhile[of P s] by (auto simp: stops_def)

lemma take_drop_stops: "list_all P w \<Longrightarrow> stops P X \<Longrightarrow> takeWhile P (w @ X) = w \<and> dropWhile P (w @ X) = X"
  by (induction w) (cases X; auto simp: stops_def)+

text \<open>The first character of a word is none of the others the lexer looks for.\<close>

lemma word_start_code: "word_start c \<Longrightarrow> (of_char c :: nat) \<in> {36} \<union> {65..90} \<union> {95} \<union> {97..122}"
  by (auto simp: word_start_def is_alpha_def is_upper_def is_lower_def Let_def)

lemma word_start_plain:
  assumes "word_start c"
  shows "c \<noteq> CHR '' ''" "c \<noteq> CHR 9" "c \<noteq> CHR 34" "c \<noteq> CHR 39" "\<not> is_digit c" "c \<noteq> CHR ''.''" "c \<noteq> CHR ''!''" "c \<noteq> CHR ''#''" "\<not> num_char c"
  using word_start_code[OF assms] by (auto simp: is_digit_def num_char_def Let_def)

lemma scan_word:
  assumes "is_word w" "stops word_char X"
  shows "scan l p (w @ X) = push (Id w) (scan (Some (Id w)) (Some (last w)) X)"
proof -
  obtain c cs where w: "w = c # cs" using assms by (cases w) (auto simp: is_word_def)
  then have c: "word_start c" "list_all word_char cs" using assms by (auto simp: is_word_def)
  note plain = word_start_plain[OF c(1)]
  show ?thesis using take_drop_stops[OF c(2) assms(2)] plain c(1) unfolding w
    by (simp add: scan.simps(2) num_start_def Let_def)
qed

lemma scan_dead: "scan l p (dead_ref @ X) = Inl ''#REF''"
  by (simp add: dead_ref_def scan.simps(2) num_start_def is_digit_def word_start_def is_alpha_def is_upper_def is_lower_def
      spill_sign_def is_op_char_def)

lemma scan_space: "js_space c \<Longrightarrow> \<not> blank c \<Longrightarrow> scan l p (c # s) = Inl ''#ERR''"
proof -
  assume c: "js_space c" "\<not> blank c"
  then have "(of_char c :: nat) \<noteq> of_char CHR 32" "(of_char c :: nat) \<noteq> of_char CHR 9" by (simp_all only: of_char_eq_iff blank_def) blast+
  then have "(of_char c :: nat) \<noteq> 32" "(of_char c :: nat) \<noteq> 9" by simp_all
  then have n: "(of_char c :: nat) \<in> {10, 11, 12, 13, 160}" using c(1) unfolding js_space_def Let_def by auto
  then have "\<not> num_start c s" "\<not> word_start c" "\<not> is_op_char c" "c \<noteq> CHR 34" "c \<noteq> CHR 39" "c \<noteq> CHR ''<''" "c \<noteq> CHR ''>''"
      "c \<noteq> CHR '';''" "c \<noteq> CHR ''#''"
    by (auto simp: num_start_def is_digit_def word_start_def is_alpha_def is_upper_def is_lower_def is_op_char_def Let_def)
  then show ?thesis using c(2) by (simp add: scan.simps(2) blank_def)
qed

lemma scan_gap: "scan l p s = Inr ts \<Longrightarrow> list_all blank (takeWhile js_space s)"
proof (induction s arbitrary: p)
  case (Cons c s)
  show ?case
  proof (cases "js_space c")
    case True
    then have b: "blank c" using scan_space[of c l p s] Cons.prems by auto
    then have "scan l (Some c) s = Inr ts" using Cons.prems by (simp add: scan_blank)
    then show ?thesis using Cons.IH b True by simp
  qed simp
qed simp

lemma scan_blanks: "list_all blank g \<Longrightarrow> scan l p (g @ s) = scan l (if g = [] then p else Some (last g)) s"
  by (induction g arbitrary: p) (auto simp: scan_blank)

lemma push_Inr [simp]: "push t r = Inr ts \<longleftrightarrow> (\<exists>ts'. r = Inr ts' \<and> ts = t # ts')"
  by (cases r) (auto simp: push_def)

lemma Inr_push [simp]: "Inr ts = push t r \<longleftrightarrow> (\<exists>ts'. r = Inr ts' \<and> ts = t # ts')"
  by (cases r) (auto simp: push_def)

definition op_start :: "char \<Rightarrow> bool" where
  "op_start c \<longleftrightarrow> c = CHR ''#'' \<or> c = CHR '';'' \<or> is_op_char c"

lemma op_start_plain: "op_start c \<Longrightarrow> c \<noteq> CHR 34 \<and> c \<noteq> CHR 39 \<and> \<not> word_start c \<and> \<not> blank c \<and> \<not> is_digit c \<and> c \<noteq> CHR ''.''"
  by (auto simp: op_start_def is_op_char_def blank_def word_start_def is_alpha_def is_upper_def is_lower_def is_digit_def)

definition two_op :: "char \<Rightarrow> string \<Rightarrow> bool" where
  "two_op c cs \<longleftrightarrow> take 2 (c # cs) \<in> {''<='', ''>='', ''<>''}"

lemma scan_op:
  assumes "op_start c"
  shows "scan l p (c # cs) =
    (if two_op c cs then push (Op (take 2 (c # cs))) (scan (Some (Op (take 2 (c # cs)))) (Some (cs ! 0)) (drop 1 cs))
     else if c = CHR '';'' then push (Op '','') (scan (Some (Op '','')) (Some c) cs)
     else if c = CHR ''#'' then (if hot l p \<and> no_letter cs then push (Op ''#'') (scan (Some (Op ''#'')) (Some c) cs) else Inl ''#REF'')
     else push (Op [c]) (scan (Some (Op [c])) (Some c) cs))"
proof -
  have "\<not> is_op_char CHR ''#''" by (simp add: is_op_char_def)
  then show ?thesis using op_start_plain[OF assms] assms
    by (auto simp: scan.simps(2)[of l p c cs] num_start_def two_op_def op_start_def spill_sign_hot blank_def)
qed

lemma scan_other:
  assumes "\<not> blank c" "\<not> num_start c cs" "c \<noteq> CHR 34" "c \<noteq> CHR 39" "\<not> word_start c" "\<not> op_start c"
  shows "scan l p (c # cs) = Inl ''#ERR''"
proof -
  have "c \<noteq> CHR ''<''" "c \<noteq> CHR ''>''" using assms(6) by (auto simp: op_start_def is_op_char_def)
  then show ?thesis using assms by (simp add: scan.simps(2) blank_def op_start_def)
qed

text \<open>A token that is a one-character operator is that character.\<close>

lemma scan_first_op:
  assumes "scan l p (c # cs) = Inr ts" "\<not> blank c" "c \<noteq> CHR '';''" "starts_op [[v]] ts"
  shows "c = v"
proof -
  note unf = scan.simps(2)[of l p c cs]
  have nb: "c \<noteq> CHR '' ''" "c \<noteq> CHR 9" using assms(2) by (auto simp: blank_def)
  consider "num_start c cs" | "c = CHR 34" | "c = CHR 39" | "word_start c" | "op_start c"
    | "\<not> num_start c cs" "c \<noteq> CHR 34" "c \<noteq> CHR 39" "\<not> word_start c" "\<not> op_start c" by blast
  then show ?thesis
  proof cases
    case 1
    then show ?thesis using assms(1,4) nb by (auto simp: unf Let_def split: if_splits)
  next
    case 2
    then show ?thesis using assms(1,4) unfolding unf by (auto simp: Let_def num_start_def is_digit_def split: if_splits)
  next
    case 3
    then show ?thesis using assms(1,4) unfolding unf by (auto simp: num_start_def is_digit_def split: if_splits)
  next
    case 4
    then show ?thesis using assms(1,4) word_start_plain[OF 4] nb by (auto simp: unf Let_def num_start_def)
  next
    case 5
    then show ?thesis using assms(1,3,4) unfolding scan_op[OF 5] by (auto simp: two_op_def split: if_splits)
  next
    case 6
    then show ?thesis using assms(1) scan_other[OF assms(2) 6] by simp
  qed
qed

lemma starts_after_spaces:
  assumes "scan l p s = Inr ts" "v = CHR ''('' \<or> v = CHR ''!''"
  shows "starts_op [[v]] ts \<longleftrightarrow> after_spaces s = Some v"
  using assms(1)
proof (induction s arbitrary: p)
  case Nil
  then show ?case by (simp add: after_spaces_def)
next
  case (Cons c cs)
  show ?case
  proof (cases "js_space c")
    case True
    then have b: "blank c" using scan_space[of c l p cs] Cons.prems by auto
    then show ?thesis using Cons.IH[of "Some c"] Cons.prems True by (simp add: after_spaces_def scan_blank)
  next
    case False
    then have b: "\<not> blank c" by (auto simp: blank_def js_space_def)
    have o: "op_start v" "v \<noteq> CHR '';''" "v \<noteq> CHR ''#''" "\<not> two_op v cs" using assms(2) by (auto simp: op_start_def is_op_char_def two_op_def)
    have "starts_op [[v]] ts \<longleftrightarrow> c = v"
    proof
      assume "c = v"
      then show "starts_op [[v]] ts" using Cons.prems o(2-4) scan_op[OF o(1)] by auto
    next
      assume s: "starts_op [[v]] ts"
      have "c \<noteq> CHR '';''"
      proof
        assume "c = CHR '';''"
        then have "starts_op ['','']  ts" using Cons.prems scan_op[of c l p cs] by (auto simp: op_start_def two_op_def)
        then show False using s assms(2) by (auto elim!: starts_op.elims)
      qed
      then show "c = v" using scan_first_op[OF Cons.prems b _ s] by simp
    qed
    then show ?thesis using False by (simp add: after_spaces_def)
  qed
qed

lemma rewriteRefs_plain: "c \<noteq> CHR 34 \<Longrightarrow> c \<noteq> CHR 39 \<Longrightarrow> \<not> word_start c \<Longrightarrow> rewriteRefs m an (c # cs) = c # rewriteRefs m an cs"
  by (simp add: rewriteRefs.simps(2))

lemma num_char_plain: "num_char c \<Longrightarrow> c \<noteq> CHR 34 \<and> c \<noteq> CHR 39 \<and> \<not> word_start c"
  using word_start_plain(9)[of c] by (auto simp: num_char_def is_digit_def)

lemma rewriteRefs_nums: "list_all num_char t \<Longrightarrow> rewriteRefs m an (t @ r) = t @ rewriteRefs m an r"
  by (induction t) (auto simp: rewriteRefs_plain num_char_plain)

text \<open>The first character of a rewritten text.\<close>

lemma rewriteAddr_head:
  assumes "is_word w"
  shows "\<exists>d t. rewriteAddr m an q w = d # t \<and> (d = CHR ''#'' \<or> d = hd w \<or> is_alpha d \<and> is_alpha (hd w))"
proof (cases "rewriteAddr m an q w = w \<or> rewriteAddr m an q w = dead_ref")
  case True
  then show ?thesis using assms by (cases w) (auto simp: dead_ref_def is_word_def)
next
  case False
  then obtain d1 ls d2 ds pc pr col row where r: "split_address is_alpha w = Some (d1, ls, d2, ds)" "0 \<le> col"
      "rewriteAddr m an q w = d1 @ indexToCol col @ d2 @ int_text (row + 1)"
    by (auto elim: rewriteAddr_cases)
  note e = split_address_elim[OF r(1)]
  obtain a t where a: "indexToCol col = a # t" "is_alpha a"
    using indexToCol_nonempty[OF r(2)] indexToCol_letters[of col] by (cases "indexToCol col") (auto simp: upper_alpha)
  show ?thesis using e r(3) a by (cases ls) (auto simp: is_dollar_def)
qed

lemma rewriteRefs_head:
  "\<exists>d t. rewriteRefs m an (c # cs) = d # t \<and> (d = CHR ''#'' \<and> word_start c \<or> d = c \<or> is_alpha d \<and> is_alpha c)"
proof (cases "word_start c")
  case True
  let ?w = "c # takeWhile word_char cs"
  have "is_word ?w" using True by (auto simp: is_word_def start_word list_all_iff dest: set_takeWhileD)
  from rewriteAddr_head[OF this, of m an False] show ?thesis using True word_start_plain[OF True]
    by (auto simp: rewriteRefs.simps(2) Let_def)
qed (simp add: rewriteRefs.simps(2) Let_def)

lemma rewriteRefs_stops: "stops word_char s \<Longrightarrow> stops word_char (rewriteRefs m an s)"
  using rewriteRefs_head[of m an "hd s" "tl s"] using start_word[OF alpha_word] by (cases s) (auto simp: stops_def dest: start_word)

lemma hash_class: "\<not> is_alpha CHR ''#''" "\<not> num_char CHR ''#''"
  by (simp_all add: is_alpha_def is_upper_def is_lower_def num_char_def is_digit_def)

lemma rewriteRefs_stops_num: "stops num_char s \<Longrightarrow> stops num_char (rewriteRefs m an s)"
  using rewriteRefs_head[of m an "hd s" "tl s"] word_start_plain(9)[OF alpha_word] hash_class by (cases s) (auto simp: stops_def)

lemma rewriteRefs_no_letter: "no_letter s \<Longrightarrow> no_letter (rewriteRefs m an s)"
  using rewriteRefs_head[of m an "hd s" "tl s"] hash_class by (cases s) (auto simp: no_letter_def)

lemma rewriteRefs_first: "x \<noteq> CHR ''#'' \<Longrightarrow> \<not> is_alpha x \<Longrightarrow> stops (\<lambda>c. c = x) s \<Longrightarrow> stops (\<lambda>c. c = x) (rewriteRefs m an s)"
  using rewriteRefs_head[of m an "hd s" "tl s"] by (cases s) (auto simp: stops_def)

text \<open>A sign \<open>!\<close> outside the texts directly precedes the address it qualifies.\<close>

function tight :: "string \<Rightarrow> bool" where
  "tight [] = True"
| "tight (c # cs) =
     (if c = CHR 34 then tight (drop 1 (dropWhile (\<lambda>x. x \<noteq> CHR 34) cs))
      else if c = CHR 39 then tight (snd (quoted cs))
      else if c = CHR ''!'' then stops (\<lambda>x. \<not> word_start x) cs \<and> tight cs
      else tight cs)"
  by pat_completeness auto
termination
  by (relation "measure length") (simp_all add: le_imp_less_Suc length_snd_quoted length_literal)

lemma tight_plain: "c \<noteq> CHR 34 \<Longrightarrow> c \<noteq> CHR 39 \<Longrightarrow> c \<noteq> CHR ''!'' \<Longrightarrow> tight (c # cs) = tight cs"
  by simp

lemma tight_append: "(\<And>c. c \<in> set w \<Longrightarrow> c \<noteq> CHR 34 \<and> c \<noteq> CHR 39 \<and> c \<noteq> CHR ''!'') \<Longrightarrow> tight (w @ s) = tight s"
  by (induction w) auto

lemma word_char_plain: "word_char c \<Longrightarrow> c \<noteq> CHR 34 \<and> c \<noteq> CHR 39 \<and> c \<noteq> CHR ''!''"
  using word_start_plain[of c] by (auto simp: word_char_def is_digit_def)

lemma blank_plain: "blank c \<Longrightarrow> c \<noteq> CHR 34 \<and> c \<noteq> CHR 39 \<and> c \<noteq> CHR ''!''"
  by (auto simp: blank_def)

section \<open>Rewriting tokens\<close>

text \<open>A word followed by a parenthesis is the name of a function; one followed by \<open>!\<close> names a sheet, and the address behind it
  is qualified.\<close>

fun rewrite_toks :: "ref_map \<Rightarrow> bool \<Rightarrow> tok list \<Rightarrow> tok list" where
  "rewrite_toks m an [] = []"
| "rewrite_toks m an (t # ts) =
     (case t of
        Id w \<Rightarrow>
          if starts_op [''(''] ts then t # rewrite_toks m an ts
          else if starts_op [''!''] ts then
            (case ts of v # Id a # r \<Rightarrow> t # v # Id (rewriteAddr m an True a) # rewrite_toks m an r | _ \<Rightarrow> t # rewrite_toks m an ts)
          else Id (rewriteAddr m an False w) # rewrite_toks m an ts
      | Sheet _ \<Rightarrow>
          if starts_op [''!''] ts then
            (case ts of v # Id a # r \<Rightarrow> t # v # Id (rewriteAddr m an True a) # rewrite_toks m an r | _ \<Rightarrow> t # rewrite_toks m an ts)
          else t # rewrite_toks m an ts
      | _ \<Rightarrow> t # rewrite_toks m an ts)"

declare rewrite_toks.simps(2) [simp del]

definition outcome :: "tok list \<Rightarrow> string + tok list" where
  "outcome ts = (if Id dead_ref \<in> set ts then Inl ''#REF'' else Inr ts)"

lemma outcome_Cons: "t \<noteq> Id dead_ref \<Longrightarrow> outcome (t # ts) = push t (outcome ts)"
  by (auto simp: outcome_def push_def)

definition follows :: "ref_map \<Rightarrow> bool \<Rightarrow> string \<Rightarrow> bool" where
  "follows m an s \<longleftrightarrow>
     (\<forall>l p ts. scan l p s = Inr ts \<longrightarrow> tight s \<longrightarrow> scan l p (rewriteRefs m an s) = outcome (rewrite_toks m an ts))"

lemma followsD: "follows m an s \<Longrightarrow> scan l p s = Inr ts \<Longrightarrow> tight s \<Longrightarrow> scan l p (rewriteRefs m an s) = outcome (rewrite_toks m an ts)"
  by (simp add: follows_def)

text \<open>A rewritten word, whatever follows it.\<close>

lemma last_digits: "list_all is_digit ds \<Longrightarrow> ds \<noteq> [] \<Longrightarrow> is_digit (last ds)"
  by (simp add: list_all_iff)

lemma scan_rewritten_word:
  assumes "is_word w" "stops word_char X" "scan (Some (Id w)) (Some (last w)) X = outcome ts"
  shows "scan l p (rewriteAddr m an q w @ X) = outcome (Id (rewriteAddr m an q w) # ts)"
proof (cases "rewriteAddr m an q w = dead_ref")
  case True
  then show ?thesis by (simp add: scan_dead outcome_def)
next
  case False
  let ?w = "rewriteAddr m an q w"
  have "hot (Some (Id ?w)) (Some (last ?w)) = hot (Some (Id w)) (Some (last w))"
  proof (cases "?w = w")
    case moved: False
    obtain d1 ls d2 ds pc pr col row where r: "split_address is_alpha w = Some (d1, ls, d2, ds)" "0 \<le> row"
        "?w = d1 @ indexToCol col @ d2 @ int_text (row + 1)"
      using rewriteAddr_cases[OF moved False] by metis
    note e = split_address_elim[OF r(1)]
    have "is_digit (last w)" using e last_digits by auto
    moreover have "is_digit (last ?w)" unfolding r(3) using int_text_digits[of "row + 1"] r(2) last_digits by auto
    ultimately show ?thesis by (simp add: hot_def)
  qed simp
  then have "scan (Some (Id ?w)) (Some (last ?w)) X = outcome ts" using scan_cong assms(3) by metis
  then show ?thesis using scan_word[OF rewriteAddr_word[OF assms(1) False] assms(2)] False by (simp add: outcome_Cons)
qed

text \<open>A sheet or a word, the sign \<open>!\<close> and the address behind it.\<close>

lemma scan_bang: "scan l p (CHR ''!'' # s) = push (Op ''!'') (scan (Some (Op ''!'')) (Some CHR ''!'') s)"
  by (simp add: scan.simps(2) num_start_def is_digit_def word_start_def is_alpha_def is_upper_def is_lower_def is_op_char_def)

lemma split_bang:
  assumes "after_spaces s = Some CHR ''!''"
  shows "s = takeWhile js_space s @ CHR ''!'' # drop 1 (dropWhile js_space s)"
proof -
  have "dropWhile js_space s = CHR ''!'' # drop 1 (dropWhile js_space s)"
    using assms by (auto simp: after_spaces_def split: list.splits)
  then show ?thesis by (metis takeWhile_dropWhile_id)
qed

lemma follows_qualified:
  assumes ih: "\<And>s'. length s' < length s \<Longrightarrow> follows m an s'"
    and s: "after_spaces s = Some CHR ''!''" "scan l p s = Inr ts" "tight s"
  defines "b \<equiv> drop 1 (dropWhile js_space s)"
  shows "\<exists>v r. ts = v # r \<and> scan l p (takeWhile js_space s @ ''!'' @ rewriteAddr m an True (takeWhile word_char b) @ rewriteRefs m an (dropWhile word_char b)) =
    outcome (v # (case r of Id a # r' \<Rightarrow> Id (rewriteAddr m an True a) # rewrite_toks m an r' | _ \<Rightarrow> rewrite_toks m an r))"
proof -
  let ?g = "takeWhile js_space s"
  have s': "s = ?g @ CHR ''!'' # b" unfolding b_def by (rule split_bang[OF s(1)])
  have g: "list_all blank ?g" by (rule scan_gap[OF s(2)])
  have "tight (CHR ''!'' # b)" using s(3) tight_append[of ?g "CHR ''!'' # b"] g blank_plain by (subst (asm) s') (auto simp: list_all_iff)
  then have t: "stops (\<lambda>x. \<not> word_start x) b" "tight b" by simp_all
  obtain r where r: "ts = Op ''!'' # r" "scan (Some (Op ''!'')) (Some CHR ''!'') b = Inr r"
    using s(2) by (subst (asm) s') (auto simp: scan_blanks[OF g] scan_bang)
  let ?X = "rewriteRefs m an (dropWhile word_char b)"
  have "scan (Some (Op ''!'')) (Some CHR ''!'') (rewriteAddr m an True (takeWhile word_char b) @ ?X) =
      outcome (case r of Id a # r' \<Rightarrow> Id (rewriteAddr m an True a) # rewrite_toks m an r' | _ \<Rightarrow> rewrite_toks m an r)"
  proof (cases b)
    case Nil
    then show ?thesis using r(2) by (simp add: outcome_def rewriteAddr_def split_address_def dollar_def)
  next
    case (Cons c cs)
    let ?w = "takeWhile word_char b"
    have c: "word_start c" using t(1) Cons by (simp add: stops_def)
    have w: "is_word ?w" using Cons c by (auto simp: is_word_def start_word list_all_iff dest: set_takeWhileD)
    have "scan (Some (Op ''!'')) (Some CHR ''!'') (?w @ dropWhile word_char b) = Inr r" using r(2) by simp
    then obtain r' where r': "r = Id ?w # r'" "scan (Some (Id ?w)) (Some (last ?w)) (dropWhile word_char b) = Inr r'"
      unfolding scan_word[OF w stops_dropWhile] by auto
    have "length (dropWhile word_char b) < length s" using length_dropWhile_le[of word_char b] by (subst s') simp
    moreover have "tight (dropWhile word_char b)"
      using t(2) tight_append[of ?w "dropWhile word_char b"] word_char_plain by (auto dest: set_takeWhileD)
    ultimately have "scan (Some (Id ?w)) (Some (last ?w)) ?X = outcome (rewrite_toks m an r')" using followsD[OF ih r'(2)] by blast
    from scan_rewritten_word[OF w rewriteRefs_stops[OF stops_dropWhile] this] show ?thesis by (simp add: r'(1))
  qed
  then have "scan l p (?g @ ''!'' @ rewriteAddr m an True (takeWhile word_char b) @ ?X) =
      push (Op ''!'') (outcome (case r of Id a # r' \<Rightarrow> Id (rewriteAddr m an True a) # rewrite_toks m an r' | _ \<Rightarrow> rewrite_toks m an r))"
    by (simp add: scan_blanks[OF g] scan_bang)
  then show ?thesis using r(1) by (simp add: outcome_Cons)
qed

lemma follows_word:
  assumes ih: "\<And>s'. length s' < length (c # cs) \<Longrightarrow> follows m an s'" and c: "word_start c"
  shows "follows m an (c # cs)"
  unfolding follows_def
proof (intro allI impI)
  fix l p ts assume s: "scan l p (c # cs) = Inr ts" "tight (c # cs)"
  let ?w = "c # takeWhile word_char cs" and ?r = "dropWhile word_char cs"
  have w: "is_word ?w" using c by (auto simp: is_word_def start_word list_all_iff dest: set_takeWhileD)
  have cs: "c # cs = ?w @ ?r" by simp
  obtain rs where rs: "ts = Id ?w # rs" "scan (Some (Id ?w)) (Some (last ?w)) ?r = Inr rs"
    using s(1) unfolding cs scan_word[OF w stops_dropWhile] by auto
  have len: "length ?r < length (c # cs)" by (simp add: le_imp_less_Suc length_dropWhile_le)
  have tr: "tight ?r" using s(2) tight_append[of ?w ?r] word_char_plain c start_word unfolding cs by (auto dest: set_takeWhileD)
  have F: "scan (Some (Id ?w)) (Some (last ?w)) (rewriteRefs m an ?r) = outcome (rewrite_toks m an rs)" by (rule followsD[OF ih[OF len] rs(2) tr])
  have paren: "starts_op [''(''] rs \<longleftrightarrow> after_spaces ?r = Some CHR ''(''" and bang: "starts_op [''!''] rs \<longleftrightarrow> after_spaces ?r = Some CHR ''!''"
    using starts_after_spaces[OF rs(2)] by auto
  note plain = word_start_plain[OF c]
  consider "after_spaces ?r = Some CHR ''(''" | "after_spaces ?r = Some CHR ''!''"
    | "after_spaces ?r \<noteq> Some CHR ''(''" "after_spaces ?r \<noteq> Some CHR ''!''" by blast
  then show "scan l p (rewriteRefs m an (c # cs)) = outcome (rewrite_toks m an ts)"
  proof cases
    case 1
    have "rewriteRefs m an (c # cs) = ?w @ rewriteRefs m an ?r" using 1 plain c by (simp add: rewriteRefs.simps(2) Let_def)
    moreover have "rewrite_toks m an ts = Id ?w # rewrite_toks m an rs" using 1 paren by (simp add: rewrite_toks.simps(2) rs(1))
    moreover have "Id ?w \<noteq> Id dead_ref" using plain by (simp add: dead_ref_def)
    ultimately show ?thesis using F scan_word[OF w rewriteRefs_stops[OF stops_dropWhile]] by (simp add: outcome_Cons)
  next
    case 2
    let ?b = "drop 1 (dropWhile js_space ?r)"
    have "rewriteRefs m an (c # cs) = ?w @ takeWhile js_space ?r @ ''!'' @ rewriteAddr m an True (takeWhile word_char ?b) @ rewriteRefs m an (dropWhile word_char ?b)"
      using 2 plain c by (simp add: rewriteRefs.simps(2) Let_def)
    moreover obtain v r where vr: "rs = v # r"
        "scan (Some (Id ?w)) (Some (last ?w)) (takeWhile js_space ?r @ ''!'' @ rewriteAddr m an True (takeWhile word_char ?b) @ rewriteRefs m an (dropWhile word_char ?b)) =
           outcome (v # (case r of Id a # r' \<Rightarrow> Id (rewriteAddr m an True a) # rewrite_toks m an r' | _ \<Rightarrow> rewrite_toks m an r))"
      using follows_qualified[OF ih 2 rs(2) tr] len by auto
    moreover have "stops word_char (takeWhile js_space ?r @ ''!'' @ rewriteAddr m an True (takeWhile word_char ?b) @ rewriteRefs m an (dropWhile word_char ?b))"
    proof (cases "takeWhile js_space ?r")
      case Nil
      then show ?thesis by (simp add: stops_def word_char_def word_start_def is_alpha_def is_upper_def is_lower_def is_digit_def)
    next
      case (Cons x xs)
      then have h: "?r \<noteq> []" "hd ?r = x" by (cases ?r; simp split: if_splits)+
      have "\<not> word_char x" using hd_dropWhile[OF h(1)] h(2) by simp
      then show ?thesis using Cons by (simp add: stops_def)
    qed
    moreover have "rewrite_toks m an ts = Id ?w # v # (case r of Id a # r' \<Rightarrow> Id (rewriteAddr m an True a) # rewrite_toks m an r' | _ \<Rightarrow> rewrite_toks m an r)"
    proof -
      obtain x where v: "v = Op x" "x = ''!''" using bang 2 vr(1) by (cases v) auto
      have "rewrite_toks m an (v # r) = v # rewrite_toks m an r" for r by (simp add: v rewrite_toks.simps(2))
      then show ?thesis unfolding rs(1) vr(1) by (subst rewrite_toks.simps(2)) (simp add: v split: list.splits tok.splits)
    qed
    moreover have "Id ?w \<noteq> Id dead_ref" using plain by (simp add: dead_ref_def)
    ultimately show ?thesis using scan_word[OF w] by (simp add: outcome_Cons del: append_assoc)
  next
    case 3
    have "rewriteRefs m an (c # cs) = rewriteAddr m an False ?w @ rewriteRefs m an ?r" using 3 plain c by (simp add: rewriteRefs.simps(2) Let_def)
    moreover have "rewrite_toks m an ts = Id (rewriteAddr m an False ?w) # rewrite_toks m an rs"
      using 3 paren bang by (simp add: rewrite_toks.simps(2) rs(1))
    ultimately show ?thesis using scan_rewritten_word[OF w rewriteRefs_stops[OF stops_dropWhile] F] by simp
  qed
qed

lemma quoted_append:
  "closed cs \<Longrightarrow> stops (\<lambda>c. c = CHR 39) X \<Longrightarrow>
   closed (fst (quoted cs) @ X) \<and> quoted_name (fst (quoted cs) @ X) = quoted_name cs \<and> snd (quoted (fst (quoted cs) @ X)) = X"
proof (induction cs rule: quoted.induct)
  case (2 c cs)
  show ?case
  proof (cases "c = CHR 39")
    case True
    show ?thesis
    proof (cases cs)
      case Nil
      then show ?thesis using True 2(4) by (cases X) (auto simp: stops_def)
    next
      case (Cons d ds)
      show ?thesis
      proof (cases "d = CHR 39")
        case q: True
        have "closed ds" using 2(3) True Cons q by simp
        then show ?thesis using 2(1)[OF True Cons q _ 2(4)] True Cons q by (simp add: Let_def case_prod_unfold)
      next
        case False
        then show ?thesis using True Cons 2(4) by (cases X) (auto simp: stops_def)
      qed
    qed
  next
    case False
    then show ?thesis using 2 by (simp add: Let_def case_prod_unfold)
  qed
qed simp

lemma quoted_stops: "closed cs \<Longrightarrow> stops (\<lambda>c. c = CHR 39) (snd (quoted cs))"
proof (induction cs rule: quoted.induct)
  case (2 c cs)
  then show ?case by (cases cs) (auto simp: Let_def case_prod_unfold stops_def split: if_splits)
qed simp

lemma scan_sheet:
  "closed cs \<Longrightarrow> stops (\<lambda>c. c = CHR 39) X \<Longrightarrow>
   scan l p (CHR 39 # fst (quoted cs) @ X) = push (Sheet (quoted_name cs)) (scan (Some (Sheet (quoted_name cs))) (Some CHR 39) X)"
  using quoted_append[of cs X] by (simp add: scan.simps(2) num_start_def is_digit_def)

lemma rewrite_toks_sheet:
  assumes "starts_op [''!''] (v # r)"
  shows "rewrite_toks m an (Sheet n # v # r) =
    Sheet n # v # (case r of Id a # r' \<Rightarrow> Id (rewriteAddr m an True a) # rewrite_toks m an r' | _ \<Rightarrow> rewrite_toks m an r)"
proof -
  obtain x where v: "v = Op x" "x = ''!''" using assms by (cases v) auto
  have "rewrite_toks m an (v # r) = v # rewrite_toks m an r" for r by (simp add: v rewrite_toks.simps(2))
  then show ?thesis by (subst rewrite_toks.simps(2)) (simp add: v split: list.splits tok.splits)
qed

lemma follows_sheet:
  assumes ih: "\<And>s'. length s' < length (CHR 39 # cs) \<Longrightarrow> follows m an s'"
  shows "follows m an (CHR 39 # cs)"
  unfolding follows_def
proof (intro allI impI)
  fix l p ts assume s: "scan l p (CHR 39 # cs) = Inr ts" "tight (CHR 39 # cs)"
  let ?r = "snd (quoted cs)" and ?n = "Sheet (quoted_name cs)"
  have q: "closed cs" using s(1) by (simp add: scan.simps(2) num_start_def is_digit_def split: if_splits)
  then obtain rs where rs: "ts = ?n # rs" "scan (Some ?n) (Some CHR 39) ?r = Inr rs"
    using s(1) by (auto simp: scan.simps(2) num_start_def is_digit_def)
  have len: "length ?r < length (CHR 39 # cs)" by (simp add: le_imp_less_Suc length_snd_quoted)
  have tr: "tight ?r" using s(2) by simp
  have bang: "starts_op [''!''] rs \<longleftrightarrow> after_spaces ?r = Some CHR ''!''" using starts_after_spaces[OF rs(2)] by auto
  show "scan l p (rewriteRefs m an (CHR 39 # cs)) = outcome (rewrite_toks m an ts)"
  proof (cases "after_spaces ?r = Some CHR ''!''")
    case True
    let ?b = "drop 1 (dropWhile js_space ?r)"
    let ?X = "takeWhile js_space ?r @ ''!'' @ rewriteAddr m an True (takeWhile word_char ?b) @ rewriteRefs m an (dropWhile word_char ?b)"
    have "rewriteRefs m an (CHR 39 # cs) = CHR 39 # fst (quoted cs) @ ?X" using True by (simp add: rewriteRefs.simps(2) Let_def)
    moreover have "stops (\<lambda>c. c = CHR 39) ?X"
      using scan_gap[OF rs(2)] blank_plain by (cases "takeWhile js_space ?r") (auto simp: stops_def)
    moreover obtain v r where vr: "rs = v # r" "scan (Some ?n) (Some CHR 39) ?X =
        outcome (v # (case r of Id a # r' \<Rightarrow> Id (rewriteAddr m an True a) # rewrite_toks m an r' | _ \<Rightarrow> rewrite_toks m an r))"
      using follows_qualified[OF ih True rs(2) tr] len by auto
    moreover have "rewrite_toks m an ts = ?n # v # (case r of Id a # r' \<Rightarrow> Id (rewriteAddr m an True a) # rewrite_toks m an r' | _ \<Rightarrow> rewrite_toks m an r)"
      unfolding rs(1) vr(1) using bang True vr(1) by (intro rewrite_toks_sheet) simp
    ultimately show ?thesis using scan_sheet[OF q] by (simp add: outcome_Cons)
  next
    case False
    have "rewriteRefs m an (CHR 39 # cs) = CHR 39 # fst (quoted cs) @ rewriteRefs m an ?r" using False by (simp add: rewriteRefs.simps(2) Let_def)
    moreover have "stops (\<lambda>c. c = CHR 39) (rewriteRefs m an ?r)"
      by (rule rewriteRefs_first[OF _ _ quoted_stops[OF q]]) (simp_all add: is_alpha_def is_upper_def is_lower_def)
    moreover have "rewrite_toks m an ts = ?n # rewrite_toks m an rs" using False bang by (simp add: rewrite_toks.simps(2) rs(1))
    ultimately show ?thesis using scan_sheet[OF q] followsD[OF ih[OF len] rs(2) tr] by (simp add: outcome_Cons)
  qed
qed

lemma follows_text:
  assumes ih: "\<And>s'. length s' < length (CHR 34 # cs) \<Longrightarrow> follows m an s'"
  shows "follows m an (CHR 34 # cs)"
  unfolding follows_def
proof (intro allI impI)
  fix l p ts assume s: "scan l p (CHR 34 # cs) = Inr ts" "tight (CHR 34 # cs)"
  let ?P = "\<lambda>x. x \<noteq> CHR 34"
  let ?b = "takeWhile ?P cs"
  have step: "scan l p (CHR 34 # cs) = (if dropWhile ?P cs = [] then Inl ''#ERR''
      else push (Str (takeWhile ?P cs)) (scan (Some (Str (takeWhile ?P cs))) (Some CHR 34) (drop 1 (dropWhile ?P cs))))" for cs
    by (simp add: scan.simps(2) num_start_def is_digit_def Let_def)
  obtain r where r: "dropWhile ?P cs = CHR 34 # r"
    using s(1) hd_dropWhile[of ?P cs] unfolding step by (cases "dropWhile ?P cs") auto
  obtain rs where rs: "ts = Str ?b # rs" "scan (Some (Str ?b)) (Some CHR 34) r = Inr rs" using s(1) unfolding step by (auto simp: r)
  have len: "length r < length (CHR 34 # cs)" using length_dropWhile_le[of ?P cs] by (simp add: r)
  have X: "takeWhile ?P (?b @ CHR 34 # X) = ?b \<and> dropWhile ?P (?b @ CHR 34 # X) = CHR 34 # X" for X
    by (rule take_drop_stops) (auto simp: list_all_iff stops_def dest: set_takeWhileD)
  have "rewriteRefs m an (CHR 34 # cs) = CHR 34 # ?b @ CHR 34 # rewriteRefs m an r" by (simp add: rewriteRefs.simps(2) Let_def r)
  moreover have "scan l p (CHR 34 # ?b @ CHR 34 # X) = push (Str ?b) (scan (Some (Str ?b)) (Some CHR 34) X)" for X
    unfolding step using X[of X] by simp
  moreover have "tight r" using s(2) by (simp add: r)
  ultimately show "scan l p (rewriteRefs m an (CHR 34 # cs)) = outcome (rewrite_toks m an ts)"
    using followsD[OF ih[OF len] rs(2)] by (simp add: rs(1) rewrite_toks.simps(2) outcome_Cons)
qed

lemma follows_num:
  assumes ih: "\<And>s'. length s' < length (c # cs) \<Longrightarrow> follows m an s'" and c: "num_start c cs"
  shows "follows m an (c # cs)"
  unfolding follows_def
proof (intro allI impI)
  fix l p ts assume s: "scan l p (c # cs) = Inr ts" "tight (c # cs)"
  let ?t = "takeWhile num_char cs" and ?r = "dropWhile num_char cs"
  have nb: "c \<noteq> CHR '' ''" "c \<noteq> CHR 9" using c by (auto simp: num_start_def is_digit_def)
  have cn: "num_char c" using c by (auto simp: num_start_def num_char_def)
  have step: "scan l p (c # ?t @ X) = (if 1 < length (filter (\<lambda>x. x = CHR ''.'') (c # ?t)) then Inl ''#NUM''
      else push (Num (c # ?t)) (scan (Some (Num (c # ?t))) (Some (last (c # ?t))) X))" if "stops num_char X" for X
  proof -
    have "num_start c (?t @ X)"
      using c by (cases cs) (auto simp: num_start_def num_char_def)
    moreover have "takeWhile num_char (?t @ X) = ?t \<and> dropWhile num_char (?t @ X) = X"
      using that by (intro take_drop_stops) (auto simp: list_all_iff dest: set_takeWhileD)
    ultimately show ?thesis using nb by (simp add: scan.simps(2) Let_def)
  qed
  have dots: "\<not> 1 < length (filter (\<lambda>x. x = CHR ''.'') (c # ?t))"
  proof
    assume "1 < length (filter (\<lambda>x. x = CHR ''.'') (c # ?t))"
    then show False using s(1) step[OF stops_dropWhile[of num_char cs]] by simp
  qed
  then obtain rs where rs: "ts = Num (c # ?t) # rs" "scan (Some (Num (c # ?t))) (Some (last (c # ?t))) ?r = Inr rs"
    using s(1) step[OF stops_dropWhile[of num_char cs]] by auto
  have len: "length ?r < length (c # cs)" by (simp add: le_imp_less_Suc length_dropWhile_le)
  have all: "list_all num_char (c # ?t)" using cn by (auto simp: list_all_iff dest: set_takeWhileD)
  have "tight ?r"
  proof -
    have "tight ((c # ?t) @ ?r) = tight ?r"
    proof (rule tight_append)
      fix x assume "x \<in> set (c # ?t)"
      then have "num_char x" using all unfolding list_all_iff by blast
      then show "x \<noteq> CHR 34 \<and> x \<noteq> CHR 39 \<and> x \<noteq> CHR ''!''" by (auto simp: num_char_def is_digit_def)
    qed
    moreover have "(c # ?t) @ ?r = c # cs" by simp
    ultimately show ?thesis using s(2) by metis
  qed
  moreover have "rewriteRefs m an (c # cs) = c # ?t @ rewriteRefs m an ?r" using rewriteRefs_nums[OF all, of m an ?r] by simp
  ultimately show "scan l p (rewriteRefs m an (c # cs)) = outcome (rewrite_toks m an ts)"
    using step[OF rewriteRefs_stops_num[OF stops_dropWhile]] dots followsD[OF ih[OF len] rs(2)]
    by (simp add: rs(1) rewrite_toks.simps(2) outcome_Cons)
qed

lemma follows_blank:
  assumes ih: "\<And>s'. length s' < length (c # cs) \<Longrightarrow> follows m an s'" and c: "blank c"
  shows "follows m an (c # cs)"
proof -
  have "\<not> word_start c" using word_start_plain(1,2)[of c] c by (auto simp: blank_def)
  then have "rewriteRefs m an (c # cs) = c # rewriteRefs m an cs" using blank_plain[OF c] by (intro rewriteRefs_plain) auto
  moreover have "tight (c # cs) = tight cs" using blank_plain[OF c] by simp
  ultimately show ?thesis using ih[of cs] c by (simp add: follows_def scan_blank)
qed

lemma two_op_rewrite: "two_op c (rewriteRefs m an cs) \<longleftrightarrow> two_op c cs"
proof (cases cs)
  case (Cons b r)
  obtain d t where d: "rewriteRefs m an (b # r) = d # t" "d = CHR ''#'' \<and> word_start b \<or> d = b \<or> is_alpha d \<and> is_alpha b"
    using rewriteRefs_head by blast
  have "\<not> is_alpha x \<and> \<not> word_start x" if "x = CHR ''='' \<or> x = CHR ''>''" for x
    using that by (auto simp: word_start_def is_alpha_def is_upper_def is_lower_def)
  then show ?thesis using d unfolding Cons by (auto simp: two_op_def)
qed simp

lemma follows_op:
  assumes ih: "\<And>s'. length s' < length (c # cs) \<Longrightarrow> follows m an s'" and c: "op_start c"
  shows "follows m an (c # cs)"
  unfolding follows_def
proof (intro allI impI)
  fix l p ts assume s: "scan l p (c # cs) = Inr ts" "tight (c # cs)"
  note plain = op_start_plain[OF c]
  have R: "rewriteRefs m an (c # cs) = c # rewriteRefs m an cs" using plain by (simp add: rewriteRefs_plain)
  have op: "rewrite_toks m an (Op x # r) = Op x # rewrite_toks m an r" for x r by (simp add: rewrite_toks.simps(2))
  have tcs: "tight cs" using s(2) plain by (simp split: if_splits)
  have F: "scan l' p' (rewriteRefs m an cs) = outcome (rewrite_toks m an r)" if "scan l' p' cs = Inr r" for l' p' r
    by (rule followsD[OF ih that tcs]) simp
  show "scan l p (rewriteRefs m an (c # cs)) = outcome (rewrite_toks m an ts)"
  proof (cases "two_op c cs")
    case True
    then obtain b r where cs: "cs = b # r" "b = CHR ''='' \<or> b = CHR ''>''" by (cases cs) (auto simp: two_op_def)
    then have b: "b \<noteq> CHR 34" "b \<noteq> CHR 39" "\<not> word_start b" "b \<noteq> CHR ''!''"
      by (auto simp: word_start_def is_alpha_def is_upper_def is_lower_def)
    then have R': "rewriteRefs m an cs = b # rewriteRefs m an r" by (simp add: cs(1) rewriteRefs_plain)
    have "tight r" using tcs b by (simp add: cs(1))
    then have "scan l' p' (rewriteRefs m an r) = outcome (rewrite_toks m an q)" if "scan l' p' r = Inr q" for l' p' q
      using followsD[OF ih that] by (simp add: cs(1))
    then show ?thesis using s(1) True two_op_rewrite[of c m an cs] unfolding R scan_op[OF c] R'
      by (auto simp: cs(1) op outcome_Cons)
  next
    case False
    have nl: "no_letter cs \<Longrightarrow> no_letter (rewriteRefs m an cs)" by (rule rewriteRefs_no_letter)
    show ?thesis using s(1) False two_op_rewrite[of c m an cs] nl unfolding R scan_op[OF c]
      by (auto simp: F op outcome_Cons split: if_splits)
  qed
qed

lemma follows_all: "follows m an s"
proof (induction s rule: measure_induct_rule[of length])
  case (less s)
  show ?case
  proof (cases s)
    case Nil
    then show ?thesis by (simp add: follows_def outcome_def)
  next
    case (Cons c cs)
    have ih: "\<And>s'. length s' < length (c # cs) \<Longrightarrow> follows m an s'" using less Cons by simp
    have "follows m an (c # cs)"
    proof -
      consider "blank c" | "num_start c cs" | "c = CHR 34" | "c = CHR 39" | "word_start c" | "op_start c"
        | "\<not> blank c" "\<not> num_start c cs" "c \<noteq> CHR 34" "c \<noteq> CHR 39" "\<not> word_start c" "\<not> op_start c" by blast
      then show ?thesis
      proof cases
        case 7
        then show ?thesis using scan_other[OF 7] by (simp add: follows_def)
      next
        case 1
        from ih this show ?thesis by (rule follows_blank)
      next
        case 2
        from ih this show ?thesis by (rule follows_num)
      next
        case 3
        from ih show ?thesis unfolding 3 by (rule follows_text)
      next
        case 4
        from ih show ?thesis unfolding 4 by (rule follows_sheet)
      next
        case 5
        from ih this show ?thesis by (rule follows_word)
      next
        case 6
        from ih this show ?thesis by (rule follows_op)
      qed
    qed
    then show ?thesis by (simp add: Cons)
  qed
qed

theorem tokenize_rewriteRefs:
  assumes "tokenize s = Inr ts" "tight s"
  shows "tokenize (rewriteRefs m an s) = (if Id dead_ref \<in> set (rewrite_toks m an ts) then Inl ''#REF'' else Inr (rewrite_toks m an ts))"
  using followsD[OF follows_all] assms by (simp add: tokenize_def outcome_def)

end
