(* ===== verification/Sheet_Trees.thy ===== *)
theory Sheet_Trees
  imports Sheet_Rewrite
begin

text \<open>
  Rewriting the references of a formula against the parser: the syntax tree of the rewritten formula is the tree of
  the formula with its references moved.
\<close>

section \<open>Moving the references of a tree\<close>

definition shift_ref :: "ref_map \<Rightarrow> string \<Rightarrow> string" where
  "shift_ref m v = (case parseRef v of None \<Rightarrow> v | Some (c, r) \<Rightarrow> (case m c r of None \<Rightarrow> v | Some (c', r') \<Rightarrow> cellRef c' r'))"

text \<open>A reference to another sheet stays; of a range on another sheet only the first corner does.\<close>

primrec shift_node :: "ref_map \<Rightarrow> node \<Rightarrow> node" where
  "shift_node m (NNum v) = NNum v"
| "shift_node m (NStr v) = NStr v"
| "shift_node m (NBool b) = NBool b"
| "shift_node m (NRef v sheet) = NRef (if sheet = None then shift_ref m v else v) sheet"
| "shift_node m (NRange a b sheet) = NRange (if sheet = None then shift_ref m a else a) (shift_ref m b) sheet"
| "shift_node m (NName v) = NName v"
| "shift_node m (NSpill v sheet) = NSpill (if sheet = None then shift_ref m v else v) sheet"
| "shift_node m (NNeg n) = NNeg (shift_node m n)"
| "shift_node m (NPct n) = NPct (shift_node m n)"
| "shift_node m (NBin v l r) = NBin v (shift_node m l) (shift_node m r)"
| "shift_node m (NCall f args) = NCall f (map (shift_node m) args)"
| "shift_node m (NInvoke n args) = NInvoke (shift_node m n) (map (shift_node m) args)"

lemma ref_name_split:
  "split_address is_alpha w = Some (d1, ls, d2, ds) \<Longrightarrow> ref_name w = map to_upper ls @ ds"
proof -
  assume "split_address is_alpha w = Some (d1, ls, d2, ds)"
  note e = split_address_elim[OF this]
  have "filter (\<lambda>c. c \<noteq> CHR ''$'') (map to_upper ls) = map to_upper ls"
    using e by (auto simp: filter_id_conv list_all_iff to_upper_dollar_iff)
  moreover have "filter (\<lambda>c. c \<noteq> CHR ''$'') ds = ds" using e by (auto simp: filter_id_conv list_all_iff)
  moreover have "filter (\<lambda>c. c \<noteq> CHR ''$'') d = []" if "is_dollar d" for d using that by (auto simp: is_dollar_def)
  ultimately show ?thesis using e by (simp add: ref_name_def map_upper_digits map_upper_dollar)
qed

lemma parseRef_ref_name: "split_address is_alpha w = Some (d1, ls, d2, ds) \<Longrightarrow> parseRef (ref_name w) = parseRef (map to_upper w)"
proof -
  assume s: "split_address is_alpha w = Some (d1, ls, d2, ds)"
  note e = split_address_elim[OF s]
  have "split_address is_upper ([] @ map to_upper ls @ [] @ ds) = Some ([], map to_upper ls, [], ds)"
    using e by (intro split_address_intro) (auto simp: is_dollar_def list_all_iff is_upper_to_upper)
  then show ?thesis using split_address_upper[OF s] by (simp add: parseRef_def ref_name_split[OF s])
qed

lemma ref_name_cellRef: "is_dollar d1 \<Longrightarrow> is_dollar d2 \<Longrightarrow> 0 \<le> c \<Longrightarrow> 0 \<le> r \<Longrightarrow>
    ref_name (d1 @ indexToCol c @ d2 @ int_text (r + 1)) = cellRef c r"
  using ref_name_split[OF rewritten_split, of d1 d2 c r] indexToCol_letters[of c]
  by (simp add: cellRef_def list_all_iff map_idI to_upper_upper)

lemma rewriteAddr_ref:
  assumes "is_ref w" "rewriteAddr m False False w \<noteq> dead_ref"
  shows "is_ref (rewriteAddr m False False w) \<and> ref_name (rewriteAddr m False False w) = shift_ref m (ref_name w)"
proof -
  obtain d1 ls d2 ds where s: "split_address is_alpha w = Some (d1, ls, d2, ds)" using assms(1) is_ref_alpha by (cases "split_address is_alpha w") auto
  note e = split_address_elim[OF s]
  obtain pc pr where p: "parseRef (map to_upper w) = Some (pc, pr)" using split_address_upper[OF s] by (simp add: parseRef_def)
  obtain nc nr where n: "m pc pr = Some (nc, nr)" "0 \<le> nc" "0 \<le> nr" "rewriteAddr m False False w = d1 @ indexToCol nc @ d2 @ int_text (nr + 1)"
    using assms(2) by (auto simp: rewriteAddr_def s p Let_def not_less split: option.splits prod.splits if_splits)
  have "is_ref (rewriteAddr m False False w)" using rewritten_split[of d1 d2 nc nr] e n by (simp add: is_ref_alpha)
  moreover have "ref_name (rewriteAddr m False False w) = cellRef nc nr" using ref_name_cellRef e n by simp
  ultimately show ?thesis by (simp add: shift_ref_def parseRef_ref_name[OF s] p n)
qed

lemma rewriteAddr_nonref: "\<not> is_ref w \<Longrightarrow> rewriteAddr m an q w = w"
  by (cases "split_address is_alpha w") (auto simp: is_ref_alpha rewriteAddr_def)

lemma rewriteAddr_qualified: "rewriteAddr m False True w = w"
  by (auto simp: rewriteAddr_def split: option.splits)

section \<open>The parser on rewritten tokens\<close>

definition alive :: "ref_map \<Rightarrow> tok list \<Rightarrow> bool" where
  "alive m ts \<longleftrightarrow> Id dead_ref \<notin> set (rewrite_toks m False ts)"

definition stop_at :: "tok list \<Rightarrow> bool" where
  "stop_at ts \<longleftrightarrow> \<not> starts_op [''('', ''!''] ts"

definition keeps :: "ref_map \<Rightarrow> (tok list \<Rightarrow> node parsed) \<Rightarrow> tok list \<Rightarrow> bool" where
  "keeps m f ts \<longleftrightarrow> (\<forall>n r. f ts = Some (n, r) \<longrightarrow> alive m ts \<longrightarrow> stop_at r \<longrightarrow>
     f (rewrite_toks m False ts) = Some (shift_node m n, rewrite_toks m False r) \<and>
     set (rewrite_toks m False r) \<subseteq> set (rewrite_toks m False ts))"

abbreviation keeps_loop :: "ref_map \<Rightarrow> (node \<Rightarrow> tok list \<Rightarrow> node parsed) \<Rightarrow> node \<Rightarrow> tok list \<Rightarrow> bool" where
  "keeps_loop m g n ts \<equiv> \<forall>n' r. g n ts = Some (n', r) \<longrightarrow> alive m ts \<longrightarrow> stop_at r \<longrightarrow>
     g (shift_node m n) (rewrite_toks m False ts) = Some (shift_node m n', rewrite_toks m False r) \<and>
     set (rewrite_toks m False r) \<subseteq> set (rewrite_toks m False ts)"

lemma alive_mono: "alive m ts \<Longrightarrow> set (rewrite_toks m False r) \<subseteq> set (rewrite_toks m False ts) \<Longrightarrow> alive m r"
  by (auto simp: alive_def)

lemma starts_op_rewrite [simp]: "starts_op vs (rewrite_toks m an ts) = starts_op vs ts"
proof (cases ts)
  case (Cons t r)
  show ?thesis
  proof (cases t)
    case (Id w)
    then show ?thesis unfolding Cons by (subst rewrite_toks.simps(2)) (auto split: list.splits tok.splits)
  next
    case (Sheet w)
    then show ?thesis unfolding Cons by (subst rewrite_toks.simps(2)) (auto split: list.splits tok.splits)
  qed (simp_all add: Cons rewrite_toks.simps(2))
qed simp

lemma rewrite_op: "starts_op vs ts \<Longrightarrow> rewrite_toks m an ts = hd ts # rewrite_toks m an (tl ts)"
  by (auto elim: starts_op.elims simp: rewrite_toks.simps(2))

lemma starts_hd: "starts_op vs ts \<Longrightarrow> starts_op vs (hd ts # x)"
  by (auto elim: starts_op.elims)

lemma rewrite_tl: "starts_op vs ts \<Longrightarrow> set (rewrite_toks m an (tl ts)) \<subseteq> set (rewrite_toks m an ts)"
  using rewrite_op[of vs ts m an] by auto

lemma alive_op: "starts_op vs ts \<Longrightarrow> alive m ts \<Longrightarrow> alive m (tl ts)"
  by (simp add: alive_def rewrite_op)

lemma stop_op: "starts_op vs ts \<Longrightarrow> ''('' \<notin> set vs \<Longrightarrow> ''!'' \<notin> set vs \<Longrightarrow> stop_at ts"
  by (auto elim!: starts_op.elims simp: stop_at_def)

text \<open>A level of the grammar, and its loop.\<close>

lemma keeps_level:
  assumes eq: "\<And>ts. p ts = (case q ts of None \<Rightarrow> None | Some (n, r) \<Rightarrow> g n r)" and idle: "\<And>n r. \<not> stop_at r \<Longrightarrow> g n r = Some (n, r)"
    and q: "keeps m q ts" and g: "\<And>n r. q ts = Some (n, r) \<Longrightarrow> keeps_loop m g n r"
  shows "keeps m p ts"
  unfolding keeps_def
proof (intro allI impI)
  fix n r assume p: "p ts = Some (n, r)" "alive m ts" "stop_at r"
  obtain n1 r1 where q1: "q ts = Some (n1, r1)" "g n1 r1 = Some (n, r)" using p(1) eq[of ts] by (auto split: option.splits)
  have s: "stop_at r1" using idle[of r1 n1] q1(2) p(3) by auto
  have k: "q (rewrite_toks m False ts) = Some (shift_node m n1, rewrite_toks m False r1)" "set (rewrite_toks m False r1) \<subseteq> set (rewrite_toks m False ts)"
    using q q1(1) p(2) s by (simp_all add: keeps_def)
  show "p (rewrite_toks m False ts) = Some (shift_node m n, rewrite_toks m False r) \<and>
     set (rewrite_toks m False r) \<subseteq> set (rewrite_toks m False ts)"
    using g[OF q1(1)] q1(2) p(3) alive_mono[OF p(2) k(2)] k eq by force
qed

lemma keeps_loop_step:
  assumes eq: "\<And>n ts. g n ts = (if starts_op vs ts then (case q (tl ts) of None \<Rightarrow> None | Some (k, r) \<Rightarrow> g (mk (hd ts) n k) r) else Some (n, ts))"
    and mk: "\<And>t n k. shift_node m (mk t n k) = mk t (shift_node m n) (shift_node m k)"
    and idle: "\<And>n r. \<not> stop_at r \<Longrightarrow> g n r = Some (n, r)"
    and q: "starts_op vs ts \<Longrightarrow> keeps m q (tl ts)"
    and ih: "\<And>k r. starts_op vs ts \<Longrightarrow> q (tl ts) = Some (k, r) \<Longrightarrow> keeps_loop m g (mk (hd ts) n k) r"
  shows "keeps_loop m g n ts"
proof (intro allI impI)
  fix n' r assume g: "g n ts = Some (n', r)" "alive m ts" "stop_at r"
  show "g (shift_node m n) (rewrite_toks m False ts) = Some (shift_node m n', rewrite_toks m False r) \<and>
     set (rewrite_toks m False r) \<subseteq> set (rewrite_toks m False ts)"
  proof (cases "starts_op vs ts")
    case True
    obtain k r1 where q1: "q (tl ts) = Some (k, r1)" "g (mk (hd ts) n k) r1 = Some (n', r)" using g(1) eq[of n ts] True by (auto split: option.splits)
    have s: "stop_at r1" using idle[of r1 "mk (hd ts) n k"] q1(2) g(3) by auto
    note a = alive_op[OF True g(2)]
    have k: "q (rewrite_toks m False (tl ts)) = Some (shift_node m k, rewrite_toks m False r1)"
        "set (rewrite_toks m False r1) \<subseteq> set (rewrite_toks m False (tl ts))"
      using q[OF True] q1(1) a s by (simp_all add: keeps_def)
    have "g (shift_node m n) (rewrite_toks m False ts) = g (mk (hd ts) (shift_node m n) (shift_node m k)) (rewrite_toks m False r1)"
      using eq[of "shift_node m n" "rewrite_toks m False ts"] True k(1) starts_hd[OF True] by (simp add: rewrite_op[OF True])
    then show ?thesis using ih[OF True q1(1)] q1(2) g(3) alive_mono[OF a k(2)] k(2) by (auto simp: mk rewrite_op[OF True])
  next
    case False
    then show ?thesis using g(1) eq[of n ts] eq[of "shift_node m n" "rewrite_toks m False ts"] by simp
  qed
qed

lemma idle_loops:
  assumes "\<not> stop_at r"
  shows "concat_loop n r = Some (n, r)" "additive_loop n r = Some (n, r)" "multiplicative_loop n r = Some (n, r)" "power_loop n r = Some (n, r)"
  using assms by (subst parser_simps; auto simp: stop_at_def elim!: starts_op.elims)+

lemma spill_shift [simp]: "spill_node (shift_node m n) = map_option (shift_node m) (spill_node n)"
  by (cases n) (simp_all add: spill_node_def)

lemma callable_shift [simp]: "callable (shift_node m n) = callable n"
  by (cases n) (simp_all add: callable_def)

lemma callable_spill: "callable n \<Longrightarrow> spill_node n = None"
  by (cases n) (simp_all add: callable_def spill_node_def)

text \<open>A reference and what may follow it.\<close>

lemma maybeRange_rewrite:
  assumes "maybeRange a sheet ts = (n, r)" "alive m ts" "stop_at r"
  shows "maybeRange (if sheet = None then shift_ref m a else a) sheet (rewrite_toks m False ts) = (shift_node m n, rewrite_toks m False r) \<and>
    set (rewrite_toks m False r) \<subseteq> set (rewrite_toks m False ts)"
proof (cases "\<exists>w rest. ts = Op '':'' # Id w # rest \<and> is_ref w")
  case True
  then obtain w rest where ts: "ts = Op '':'' # Id w # rest" "is_ref w" by blast
  have n: "n = NRange a (ref_name w) sheet" "r = rest" using assms(1) ts by (simp_all add: maybeRange_def)
  have R: "rewrite_toks m False ts = Op '':'' # Id (rewriteAddr m False False w) # rewrite_toks m False rest"
  proof -
    have "\<not> starts_op [''(''] rest" "\<not> starts_op [''!''] rest" using assms(3) n(2) by (auto simp: stop_at_def elim!: starts_op.elims)
    then show ?thesis by (simp add: ts(1) rewrite_toks.simps(2))
  qed
  have "rewriteAddr m False False w \<noteq> dead_ref" using assms(2) by (auto simp: alive_def R)
  from rewriteAddr_ref[OF ts(2) this] show ?thesis by (auto simp: maybeRange_def R n)
next
  case False
  then have n: "n = NRef a sheet" "r = ts" using assms(1) by (auto simp: maybeRange_def split: list.splits tok.splits if_splits)
  have "\<nexists>w rest. rewrite_toks m False ts = Op '':'' # Id w # rest \<and> is_ref w"
  proof
    assume "\<exists>w rest. rewrite_toks m False ts = Op '':'' # Id w # rest \<and> is_ref w"
    then obtain w rest where R: "rewrite_toks m False ts = Op '':'' # Id w # rest" "is_ref w" by blast
    have "starts_op ['':''] ts" using starts_op_rewrite[of "['':'']" m False ts] by (simp add: R(1))
    then obtain r1 where ts: "ts = Op '':'' # r1" by (auto elim: starts_op.elims)
    then have "rewrite_toks m False r1 = Id w # rest" using R(1) by (simp add: rewrite_toks.simps(2))
    then obtain w0 r2 where r1: "r1 = Id w0 # r2" "w = w0 \<or> w = rewriteAddr m False False w0"
      by (cases r1) (auto simp: rewrite_toks.simps(2) split: tok.splits list.splits if_splits)
    then have "\<not> is_ref w0" using False ts by auto
    then have "w = w0" using r1(2) rewriteAddr_nonref by auto
    then show False using R(2) \<open>\<not> is_ref w0\<close> by simp
  qed
  then show ?thesis by (auto simp: maybeRange_def n split: list.splits tok.splits)
qed

lemma qualifiedRef_rewrite:
  assumes "qualifiedRef v ts = Some (n, r)" "t = Sheet x \<or> t = Id x" "alive m (t # ts)" "stop_at r"
  shows "\<exists>ts'. rewrite_toks m False (t # ts) = t # ts' \<and> qualifiedRef v ts' = Some (shift_node m n, rewrite_toks m False r) \<and>
    set (rewrite_toks m False r) \<subseteq> set (rewrite_toks m False (t # ts)) \<and> starts_op [''!''] ts' \<and> \<not> starts_op [''(''] ts'"
proof -
  obtain w rest where ts: "ts = Op ''!'' # Id w # rest" "is_ref w" "maybeRange (ref_name w) (Some v) rest = (n, r)"
    using assms(1) by (auto simp: qualifiedRef_def split: list.splits tok.splits if_splits)
  have R: "rewrite_toks m False (t # ts) = t # Op ''!'' # Id w # rewrite_toks m False rest"
    using assms(2) by (auto simp: ts(1) rewrite_toks.simps(2)[of _ _ "Id x"] rewrite_toks.simps(2)[of _ _ "Sheet x"] rewriteAddr_qualified)
  have "alive m rest" using assms(3) by (simp add: alive_def R)
  from maybeRange_rewrite[OF ts(3) this assms(4)] show ?thesis using ts(2) by (auto simp: R qualifiedRef_def)
qed

definition keeps_primary :: "ref_map \<Rightarrow> tok list \<Rightarrow> bool" where
  "keeps_primary m ts \<longleftrightarrow> (\<forall>n r. p_primary ts = Some (n, r) \<longrightarrow> alive m ts \<longrightarrow> stop_at r \<or> callable n \<longrightarrow>
     p_primary (rewrite_toks m False ts) = Some (shift_node m n, rewrite_toks m False r) \<and>
     set (rewrite_toks m False r) \<subseteq> set (rewrite_toks m False ts))"

definition keeps_list :: "ref_map \<Rightarrow> (tok list \<Rightarrow> node list parsed) \<Rightarrow> tok list \<Rightarrow> bool" where
  "keeps_list m f ts \<longleftrightarrow> (\<forall>ns r. f ts = Some (ns, r) \<longrightarrow> alive m ts \<longrightarrow>
     f (rewrite_toks m False ts) = Some (map (shift_node m) ns, rewrite_toks m False r) \<and>
     set (rewrite_toks m False r) \<subseteq> set (rewrite_toks m False ts))"

definition keeps_args :: "ref_map \<Rightarrow> tok list \<Rightarrow> bool" where
  "keeps_args m ts \<longleftrightarrow> (\<forall>ns r. args_loop ts = Some (ns, r) \<longrightarrow> alive m ts \<longrightarrow> stop_at r \<longrightarrow>
     args_loop (rewrite_toks m False ts) = Some (map (shift_node m) ns, rewrite_toks m False r) \<and>
     set (rewrite_toks m False r) \<subseteq> set (rewrite_toks m False ts))"

lemma keeps_comparison_step:
  assumes q: "keeps m p_concat ts" and q': "\<And>n r. p_concat ts = Some (n, r) \<Longrightarrow> starts_op COMPARE_OPS r \<Longrightarrow> keeps m p_concat (tl r)"
  shows "keeps m p_comparison ts"
  unfolding keeps_def
proof (intro allI impI)
  fix n r assume p: "p_comparison ts = Some (n, r)" "alive m ts" "stop_at r"
  obtain n1 r1 where c: "p_concat ts = Some (n1, r1)" using p(1) by (auto simp: p_comparison.simps[of ts] split: option.splits)
  show "p_comparison (rewrite_toks m False ts) = Some (shift_node m n, rewrite_toks m False r) \<and>
      set (rewrite_toks m False r) \<subseteq> set (rewrite_toks m False ts)"
  proof (cases "starts_op COMPARE_OPS r1")
    case True
    then obtain n2 where c2: "p_concat (tl r1) = Some (n2, r)" "n = NBin (op_text (hd r1)) n1 n2"
      using p(1) c by (auto simp: p_comparison.simps[of ts] split: option.splits)
    have k: "p_concat (rewrite_toks m False ts) = Some (shift_node m n1, rewrite_toks m False r1)" "set (rewrite_toks m False r1) \<subseteq> set (rewrite_toks m False ts)"
      using q c p(2) stop_op[OF True] by (simp_all add: keeps_def COMPARE_OPS_def)
    note a = alive_op[OF True alive_mono[OF p(2) k(2)]]
    have "p_concat (rewrite_toks m False (tl r1)) = Some (shift_node m n2, rewrite_toks m False r)"
        "set (rewrite_toks m False r) \<subseteq> set (rewrite_toks m False (tl r1))"
      using q'[OF c True] c2(1) a p(3) by (simp_all add: keeps_def)
    then show ?thesis using k True starts_hd[OF True]
      by (auto simp: p_comparison.simps[of "rewrite_toks m False ts"] c2(2) rewrite_op[OF True])
  next
    case False
    then show ?thesis using p c q by (auto simp: p_comparison.simps keeps_def)
  qed
qed

lemma keeps_unary_step:
  assumes neg: "starts_op [''-''] ts \<Longrightarrow> keeps m p_unary (tl ts)"
    and pos: "\<not> starts_op [''-''] ts \<Longrightarrow> starts_op [''+''] ts \<Longrightarrow> keeps m p_unary (tl ts)"
    and post: "\<not> starts_op [''-''] ts \<Longrightarrow> \<not> starts_op [''+''] ts \<Longrightarrow> keeps m p_postfix ts"
  shows "keeps m p_unary ts"
proof -
  consider (neg) "starts_op [''-''] ts" | (pos) "\<not> starts_op [''-''] ts" "starts_op [''+''] ts" | (post) "\<not> starts_op [''-''] ts" "\<not> starts_op [''+''] ts"
    by blast
  then show ?thesis
  proof cases
    case neg
    show ?thesis unfolding keeps_def
    proof (intro allI impI)
      fix n r assume p: "p_unary ts = Some (n, r)" "alive m ts" "stop_at r"
      obtain k where k: "p_unary (tl ts) = Some (k, r)" "n = NNeg k" using p(1) neg by (auto simp: p_unary.simps[of ts] split: option.splits)
      then show "p_unary (rewrite_toks m False ts) = Some (shift_node m n, rewrite_toks m False r) \<and>
          set (rewrite_toks m False r) \<subseteq> set (rewrite_toks m False ts)"
        using assms(1)[OF neg] p(3) alive_op[OF neg p(2)] starts_hd[OF neg]
        by (auto simp: p_unary.simps[of "hd ts # rewrite_toks m False (tl ts)"] keeps_def rewrite_op[OF neg])
    qed
  next
    case pos
    have e: "p_unary ts = p_unary (tl ts)" using pos by (simp add: p_unary.simps[of ts])
    have e': "p_unary (rewrite_toks m False ts) = p_unary (rewrite_toks m False (tl ts))"
      using pos starts_op_rewrite[of _ m False ts] by (simp add: p_unary.simps[of "rewrite_toks m False ts"] del: starts_op_rewrite) (simp add: rewrite_op[OF pos(2)])
    show ?thesis using assms(2)[OF pos] alive_op[OF pos(2)] rewrite_tl[OF pos(2), of m False] unfolding keeps_def e e' by blast
  next
    case post
    then show ?thesis using assms(3)[OF post] by (simp add: keeps_def p_unary.simps)
  qed
qed

lemma keeps_postfix_step:
  assumes q: "keeps_primary m ts" and g: "\<And>n r. p_primary ts = Some (n, r) \<Longrightarrow> keeps_loop m postfix_loop n r"
  shows "keeps m p_postfix ts"
  unfolding keeps_def
proof (intro allI impI)
  fix n r assume p: "p_postfix ts = Some (n, r)" "alive m ts" "stop_at r"
  obtain n1 r1 where q1: "p_primary ts = Some (n1, r1)" "postfix_loop n1 r1 = Some (n, r)"
    using p(1) by (auto simp: p_postfix.simps[of ts] split: option.splits)
  have s: "stop_at r1 \<or> callable n1"
  proof (rule ccontr)
    assume "\<not> (stop_at r1 \<or> callable n1)"
    then have s: "\<not> stop_at r1" "\<not> callable n1" by blast+
    then have "postfix_loop n1 r1 = Some (n1, r1)" by (subst postfix_loop.simps) (auto simp: stop_at_def elim!: starts_op.elims)
    then show False using q1(2) p(3) s(1) by simp
  qed
  have k: "p_primary (rewrite_toks m False ts) = Some (shift_node m n1, rewrite_toks m False r1)" "set (rewrite_toks m False r1) \<subseteq> set (rewrite_toks m False ts)"
    using q q1(1) p(2) s unfolding keeps_primary_def by blast+
  show "p_postfix (rewrite_toks m False ts) = Some (shift_node m n, rewrite_toks m False r) \<and>
      set (rewrite_toks m False r) \<subseteq> set (rewrite_toks m False ts)"
    using g[OF q1(1)] q1(2) p(3) alive_mono[OF p(2) k(2)] k by (force simp: p_postfix.simps[of "rewrite_toks m False ts"])
qed

lemma keeps_postfix_loop_step:
  assumes pct: "starts_op [''%''] ts \<Longrightarrow> keeps_loop m postfix_loop (NPct n) (tl ts)"
    and spill: "\<not> starts_op [''%''] ts \<Longrightarrow> starts_op [''#''] ts \<and> spill_node n \<noteq> None \<Longrightarrow> keeps_loop m postfix_loop (the (spill_node n)) (tl ts)"
    and args: "\<not> starts_op [''%''] ts \<Longrightarrow> \<not> (starts_op [''#''] ts \<and> spill_node n \<noteq> None) \<Longrightarrow> starts_op [''(''] ts \<and> callable n \<Longrightarrow> keeps_list m call_args ts"
    and invoke: "\<And>a r. \<not> starts_op [''%''] ts \<Longrightarrow> \<not> (starts_op [''#''] ts \<and> spill_node n \<noteq> None) \<Longrightarrow> starts_op [''(''] ts \<and> callable n \<Longrightarrow>
      call_args ts = Some (a, r) \<Longrightarrow> keeps_loop m postfix_loop (NInvoke n a) r"
  shows "keeps_loop m postfix_loop n ts"
proof -
  note unf = postfix_loop.simps[of n ts] postfix_loop.simps[of "shift_node m n" "rewrite_toks m False ts"]
  consider (pct) "starts_op [''%''] ts" | (spill) "\<not> starts_op [''%''] ts" "starts_op [''#''] ts \<and> spill_node n \<noteq> None"
    | (invoke) "\<not> starts_op [''%''] ts" "\<not> (starts_op [''#''] ts \<and> spill_node n \<noteq> None)" "starts_op [''(''] ts \<and> callable n"
    | (idle) "\<not> starts_op [''%''] ts" "\<not> (starts_op [''#''] ts \<and> spill_node n \<noteq> None)" "\<not> (starts_op [''(''] ts \<and> callable n)"
    by blast
  then show ?thesis
  proof cases
    case pct
    have e: "postfix_loop n ts = postfix_loop (NPct n) (tl ts)"
        "postfix_loop (shift_node m n) (rewrite_toks m False ts) = postfix_loop (NPct (shift_node m n)) (rewrite_toks m False (tl ts))"
      using pct by (simp_all add: unf) (simp add: rewrite_op[OF pct])
    show ?thesis using assms(1)[OF pct] alive_op[OF pct] rewrite_tl[OF pct, of m False] unfolding e shift_node.simps by blast
  next
    case spill
    then obtain k where k: "spill_node n = Some k" by auto
    have h: "starts_op [''#''] ts" using spill by simp
    have e: "postfix_loop n ts = postfix_loop k (tl ts)"
        "postfix_loop (shift_node m n) (rewrite_toks m False ts) = postfix_loop (shift_node m k) (rewrite_toks m False (tl ts))"
      using spill k by (simp_all add: unf) (simp add: rewrite_op[OF h])
    show ?thesis using assms(2)[OF spill] alive_op[OF h] rewrite_tl[OF h, of m False] unfolding e k option.sel by blast
  next
    case invoke
    show ?thesis
    proof (intro allI impI)
      fix n' r assume p: "postfix_loop n ts = Some (n', r)" "alive m ts" "stop_at r"
      obtain a r1 where a: "call_args ts = Some (a, r1)" "postfix_loop (NInvoke n a) r1 = Some (n', r)"
        using p(1) invoke by (auto simp: unf split: option.splits)
      have k: "call_args (rewrite_toks m False ts) = Some (map (shift_node m) a, rewrite_toks m False r1)"
          "set (rewrite_toks m False r1) \<subseteq> set (rewrite_toks m False ts)"
        using assms(3)[OF invoke] a(1) p(2) by (simp_all add: keeps_list_def)
      have "postfix_loop (shift_node m n) (rewrite_toks m False ts) = postfix_loop (shift_node m (NInvoke n a)) (rewrite_toks m False r1)"
        using invoke k(1) by (auto simp: unf)
      then show "postfix_loop (shift_node m n) (rewrite_toks m False ts) = Some (shift_node m n', rewrite_toks m False r) \<and>
          set (rewrite_toks m False r) \<subseteq> set (rewrite_toks m False ts)"
        using assms(4)[OF invoke a(1)] a(2) p(3) alive_mono[OF p(2) k(2)] k(2) by force
    qed
  next
    case idle
    then have "postfix_loop n ts = Some (n, ts)" "postfix_loop (shift_node m n) (rewrite_toks m False ts) = Some (shift_node m n, rewrite_toks m False ts)"
      by (auto simp: unf)
    then show ?thesis by simp
  qed
qed

lemma rewrite_toks_call: "starts_op [''(''] r \<Longrightarrow> rewrite_toks m an (Id v # r) = Id v # rewrite_toks m an r"
  by (simp add: rewrite_toks.simps(2))

lemma keeps_primary_step:
  assumes args: "\<And>v r. ts = Id v # r \<Longrightarrow> starts_op [''(''] r \<Longrightarrow> keeps_list m call_args r"
    and paren: "\<And>r. ts = Op ''('' # r \<Longrightarrow> keeps m p_comparison r"
  shows "keeps_primary m ts"
  unfolding keeps_primary_def
proof (intro allI impI)
  fix n r assume p: "p_primary ts = Some (n, r)" "alive m ts" "stop_at r \<or> callable n"
  obtain t rest where ts: "ts = t # rest" using p(1) by (cases ts) (auto simp: p_primary.simps)
  show "p_primary (rewrite_toks m False ts) = Some (shift_node m n, rewrite_toks m False r) \<and>
      set (rewrite_toks m False r) \<subseteq> set (rewrite_toks m False ts)"
  proof (cases t)
    case (Num v)
    then show ?thesis using p(1) by (auto simp: p_primary.simps ts rewrite_toks.simps(2))
  next
    case (Str v)
    then show ?thesis using p(1) by (auto simp: p_primary.simps ts rewrite_toks.simps(2))
  next
    case (Sheet v)
    have q: "qualifiedRef v rest = Some (n, r)" using p(1) by (simp add: p_primary.simps ts Sheet)
    then have "\<not> callable n" by (auto simp: qualifiedRef_def maybeRange_def callable_def split: list.splits tok.splits if_splits)
    then have "stop_at r" using p(3) by simp
    from qualifiedRef_rewrite[OF q _ _ this, of "Sheet v" v m] p(2) show ?thesis by (auto simp: ts Sheet p_primary.simps[of "_ # _"])
  next
    case (Op v)
    obtain r1 where v: "v = ''(''" "p_comparison rest = Some (n, r1)" "starts_op ['')''] r1" "r = tl r1"
      using p(1) by (auto simp: p_primary.simps[of "_ # _"] ts Op split: if_splits option.splits)
    have R: "rewrite_toks m False ts = Op ''('' # rewrite_toks m False rest" by (simp add: ts Op v(1) rewrite_toks.simps(2))
    have "alive m rest" using p(2) by (simp add: alive_def R)
    then have k: "p_comparison (rewrite_toks m False rest) = Some (shift_node m n, rewrite_toks m False r1)"
        "set (rewrite_toks m False r1) \<subseteq> set (rewrite_toks m False rest)"
      using paren[of rest] v stop_op[OF v(3)] by (simp_all add: keeps_def ts Op)
    then show ?thesis using v starts_hd[OF v(3)] by (auto simp: R p_primary.simps[of "_ # _"] rewrite_op[OF v(3)])
  next
    case (Id v)
    consider (call) "starts_op [''(''] rest" | (bang) "\<not> starts_op [''(''] rest" "starts_op [''!''] rest"
      | (ref) "\<not> starts_op [''(''] rest" "\<not> starts_op [''!''] rest" "is_ref v" | (name) "\<not> starts_op [''(''] rest" "\<not> starts_op [''!''] rest" "\<not> is_ref v"
      by blast
    then show ?thesis
    proof cases
      case call
      note R = rewrite_toks_call[OF call, of m False v]
      obtain a where a: "call_args rest = Some (a, r)" "n = NCall (map to_upper v) a"
        using p(1) call by (auto simp: p_primary.simps[of "_ # _"] ts Id split: option.splits)
      have "alive m rest" using p(2) by (simp add: alive_def R ts Id)
      then show ?thesis using args[OF ts[unfolded Id] call] a call by (auto simp: keeps_list_def ts Id R p_primary.simps[of "_ # _"])
    next
      case bang
      have q: "qualifiedRef v rest = Some (n, r)" using p(1) bang by (simp add: p_primary.simps ts Id)
      then have "\<not> callable n" by (auto simp: qualifiedRef_def maybeRange_def callable_def split: list.splits tok.splits if_splits)
      then have "stop_at r" using p(3) by simp
      from qualifiedRef_rewrite[OF q _ _ this, of "Id v" v m] p(2) show ?thesis by (auto simp: ts Id p_primary.simps[of "_ # _"])
    next
      case ref
      have R: "rewrite_toks m False ts = Id (rewriteAddr m False False v) # rewrite_toks m False rest"
        using ref by (simp add: ts Id rewrite_toks.simps(2))
      have q: "maybeRange (ref_name v) None rest = (n, r)" using p(1) ref by (simp add: p_primary.simps ts Id)
      then have "\<not> callable n" by (auto simp: maybeRange_def callable_def split: list.splits tok.splits if_splits)
      then have s: "stop_at r" using p(3) by simp
      have a: "alive m rest" "rewriteAddr m False False v \<noteq> dead_ref" using p(2) by (auto simp: alive_def R)
      from maybeRange_rewrite[OF q a(1) s] rewriteAddr_ref[OF ref(3) a(2)] ref show ?thesis
        by (auto simp: R p_primary.simps[of "_ # _"])
    next
      case name
      have R: "rewrite_toks m False ts = Id v # rewrite_toks m False rest"
        using name by (simp add: ts Id rewrite_toks.simps(2) rewriteAddr_nonref)
      then show ?thesis using p(1) name by (auto simp: R ts Id p_primary.simps[of "_ # _"] split: if_splits)
    qed
  qed
qed

lemma keeps_call_step:
  assumes args: "starts_op [''(''] ts \<Longrightarrow> \<not> starts_op ['')''] (tl ts) \<Longrightarrow> keeps_args m (tl ts)"
  shows "keeps_list m call_args ts"
  unfolding keeps_list_def
proof (intro allI impI)
  fix a r assume p: "call_args ts = Some (a, r)" "alive m ts"
  have o: "starts_op [''(''] ts" using p(1) by (simp add: call_args.simps[of ts] split: if_splits)
  note R = rewrite_op[OF o, of m False] and tl = alive_op[OF o p(2)]
  show "call_args (rewrite_toks m False ts) = Some (map (shift_node m) a, rewrite_toks m False r) \<and>
      set (rewrite_toks m False r) \<subseteq> set (rewrite_toks m False ts)"
  proof (cases "starts_op ['')''] (tl ts)")
    case True
    then show ?thesis using p(1) o starts_hd[OF o] by (auto simp: call_args.simps[of ts] call_args.simps[of "_ # _"] R rewrite_op[OF True] starts_hd[OF True])
  next
    case False
    obtain r1 where k: "args_loop (tl ts) = Some (a, r1)" "starts_op ['')''] r1" "r = tl r1"
      using p(1) o False by (auto simp: call_args.simps[of ts] split: option.splits if_splits)
    have "args_loop (rewrite_toks m False (tl ts)) = Some (map (shift_node m) a, rewrite_toks m False r1)"
        "set (rewrite_toks m False r1) \<subseteq> set (rewrite_toks m False (tl ts))"
      using args[OF o False] k(1) tl stop_op[OF k(2)] by (simp_all add: keeps_args_def)
    then show ?thesis using k starts_hd[OF o] False
      by (auto simp: call_args.simps[of "_ # _"] R rewrite_op[OF k(2)] starts_hd[OF k(2)])
  qed
qed

lemma keeps_args_step:
  assumes c: "keeps m p_comparison ts"
    and ih: "\<And>n r. p_comparison ts = Some (n, r) \<Longrightarrow> starts_op ['',''] r \<Longrightarrow> keeps_args m (tl r)"
  shows "keeps_args m ts"
  unfolding keeps_args_def
proof (intro allI impI)
  fix a r assume p: "args_loop ts = Some (a, r)" "alive m ts" "stop_at r"
  obtain n r1 where c1: "p_comparison ts = Some (n, r1)" using p(1) by (auto simp: args_loop.simps[of ts] split: option.splits)
  show "args_loop (rewrite_toks m False ts) = Some (map (shift_node m) a, rewrite_toks m False r) \<and>
      set (rewrite_toks m False r) \<subseteq> set (rewrite_toks m False ts)"
  proof (cases "starts_op ['',''] r1")
    case True
    obtain b where b: "args_loop (tl r1) = Some (b, r)" "a = n # b"
      using p(1) c1 True by (auto simp: args_loop.simps[of ts] split: option.splits)
    have k: "p_comparison (rewrite_toks m False ts) = Some (shift_node m n, rewrite_toks m False r1)" "set (rewrite_toks m False r1) \<subseteq> set (rewrite_toks m False ts)"
      using c c1 p(2) stop_op[OF True] by (simp_all add: keeps_def)
    note al = alive_op[OF True alive_mono[OF p(2) k(2)]]
    have "args_loop (rewrite_toks m False (tl r1)) = Some (map (shift_node m) b, rewrite_toks m False r)"
        "set (rewrite_toks m False r) \<subseteq> set (rewrite_toks m False (tl r1))"
      using ih[OF c1 True] b(1) al p(3) by (simp_all add: keeps_args_def)
    then show ?thesis using k True b(2) starts_hd[OF True] rewrite_op[OF True, of m False]
      by (auto simp: args_loop.simps[of "rewrite_toks m False ts"])
  next
    case False
    then show ?thesis using p c1 c by (auto simp: args_loop.simps keeps_def)
  qed
qed

lemma parser_keeps:
  "keeps m p_comparison ts1" "keeps m p_concat ts2" "keeps_loop m concat_loop n3 ts3" "keeps m p_additive ts4"
  "keeps_loop m additive_loop n5 ts5" "keeps m p_multiplicative ts6" "keeps_loop m multiplicative_loop n7 ts7" "keeps m p_power ts8"
  "keeps_loop m power_loop n9 ts9" "keeps m p_unary ts10" "keeps m p_postfix ts11" "keeps_loop m postfix_loop n12 ts12"
  "keeps_primary m ts13" "keeps_list m call_args ts14" "keeps_args m ts15"
proof (induction ts1 and ts2 and n3 ts3 and ts4 and n5 ts5 and ts6 and n7 ts7 and ts8 and n9 ts9 and ts10 and ts11 and n12 ts12 and ts13 and ts14 and ts15
    rule: p_comparison_p_concat_concat_loop_p_additive_additive_loop_p_multiplicative_multiplicative_loop_p_power_power_loop_p_unary_p_postfix_postfix_loop_p_primary_call_args_args_loop.induct)
  case (1 ts)
  show ?case by (rule keeps_comparison_step[OF 1(1) 1(2)[OF _ refl]])
next
  case (2 ts)
  show ?case by (rule keeps_level[OF p_concat.simps idle_loops(1) 2(1) 2(2)[OF _ refl]])
next
  case (3 n ts)
  show ?case
    by (rule keeps_loop_step[where mk = "\<lambda>_. NBin ''&''" and g = concat_loop, OF concat_loop.simps shift_node.simps(10) idle_loops(1) 3(1) 3(2)[OF _ _ refl]])
next
  case (4 ts)
  show ?case by (rule keeps_level[OF p_additive.simps idle_loops(2) 4(1) 4(2)[OF _ refl]])
next
  case (5 n ts)
  show ?case
    by (rule keeps_loop_step[where mk = "\<lambda>t. NBin (op_text t)" and g = additive_loop, OF additive_loop.simps shift_node.simps(10) idle_loops(2) 5(1) 5(2)[OF _ _ refl]])
next
  case (6 ts)
  show ?case by (rule keeps_level[OF p_multiplicative.simps idle_loops(3) 6(1) 6(2)[OF _ refl]])
next
  case (7 n ts)
  show ?case
    by (rule keeps_loop_step[where mk = "\<lambda>t. NBin (op_text t)" and g = multiplicative_loop, OF multiplicative_loop.simps shift_node.simps(10) idle_loops(3) 7(1) 7(2)[OF _ _ refl]])
next
  case (8 ts)
  show ?case by (rule keeps_level[OF p_power.simps idle_loops(4) 8(1) 8(2)[OF _ refl]])
next
  case (9 n ts)
  show ?case
    by (rule keeps_loop_step[where mk = "\<lambda>_. NBin ''^''" and g = power_loop, OF power_loop.simps shift_node.simps(10) idle_loops(4) 9(1) 9(2)[OF _ _ refl]])
next
  case (10 ts)
  show ?case by (rule keeps_unary_step[OF 10])
next
  case (11 ts)
  show ?case by (rule keeps_postfix_step[OF 11(1) 11(2)[OF _ refl]])
next
  case (12 n ts)
  show ?case by (rule keeps_postfix_loop_step[OF 12(1,2,3) 12(4)[OF _ _ _ _ refl]])
next
  case (13 ts)
  show ?case
  proof (rule keeps_primary_step)
    show "keeps_list m call_args r" if "ts = Id v # r" "starts_op [''(''] r" for v r by (rule 13(1)[OF that(1) refl that(2)])
    show "keeps m p_comparison r" if "ts = Op ''('' # r" for r by (rule 13(2)[OF that refl refl])
  qed
next
  case (14 ts)
  show ?case by (rule keeps_call_step, rule 14) simp_all
next
  case (15 ts)
  show ?case by (rule keeps_args_step[OF 15(1) 15(2)[OF _ refl]])
qed

text \<open>C0: rewriting the references of a formula follows its syntax tree. When the text \<open>s\<close> lexes to \<open>ts\<close> and parses to
  \<open>n\<close>, the rewritten text is read as \<open>#REF\<close> when the target of a reference was deleted, and otherwise parses to the same tree
  with its references moved by the map: names, functions, texts, numbers and references to other sheets stay.\<close>

theorem rewriteRefs_follows:
  assumes "tokenize s = Inr ts" "parse ts = Inr n" "tight s"
  shows "parseFormula (rewriteRefs m False s) =
    (if Id dead_ref \<in> set (rewrite_toks m False ts) then Inl ''#REF'' else Inr (shift_node m n))"
proof (cases "alive m ts")
  case False
  then show ?thesis using tokenize_rewriteRefs[OF assms(1,3)] by (simp add: parseFormula_def alive_def)
next
  case True
  have "p_comparison ts = Some (n, [])" using assms(2) by (auto simp: parse_def split: option.splits list.splits)
  then have "p_comparison (rewrite_toks m False ts) = Some (shift_node m n, [])"
    using parser_keeps(1)[of m ts] True by (simp add: keeps_def stop_at_def)
  then show ?thesis using tokenize_rewriteRefs[OF assms(1,3), of m False] True by (simp add: parseFormula_def alive_def parse_def)
qed

end
