(* ===== verification/Sheet_Structural.thy ===== *)
theory Sheet_Structural
  imports Sheet_Trees
begin

text \<open>
  Insertion and deletion of rows and columns, \<^verbatim>\<open>web-studio/src/sheet/structural.ts\<close>. The objects of a
  sheet are association lists; of a sheet only the fields these operations touch are modelled, the others are copied.
\<close>

record 's sheet =
  sh_name :: string
  sh_rows :: int
  sh_cols :: int
  sh_cells :: "(string \<times> string) list"
  sh_styles :: "(string \<times> 's) list option"
  sh_notes :: "(string \<times> string) list option"
  sh_colWidths :: "(int \<times> int) list option"
  sh_rowHeights :: "(int \<times> int) list option"

section \<open>Operations\<close>

definition reindex_entry :: "ref_map \<Rightarrow> ('a \<Rightarrow> 'a) \<Rightarrow> string \<times> 'a \<Rightarrow> (string \<times> 'a) list \<Rightarrow> (string \<times> 'a) list" where
  "reindex_entry fn rewrite = (\<lambda>(ref, v) out.
     (case parseRef ref of
        None \<Rightarrow> out
      | Some (c, r) \<Rightarrow> (case fn c r of None \<Rightarrow> out | Some (nc, nr) \<Rightarrow> AList.update (cellRef nc nr) (rewrite v) out)))"

definition reindexCells :: "(string \<times> 'a) list \<Rightarrow> ref_map \<Rightarrow> ('a \<Rightarrow> 'a) \<Rightarrow> (string \<times> 'a) list" where
  "reindexCells cells fn rewrite = fold (reindex_entry fn rewrite) cells []"

definition reindexRefMap :: "(string \<times> 'a) list option \<Rightarrow> ref_map \<Rightarrow> (string \<times> 'a) list option" where
  "reindexRefMap m fn = map_option (\<lambda>xs. reindexCells xs fn (\<lambda>v. v)) m"

definition reindexAxis :: "(int \<times> int) list option \<Rightarrow> (int \<Rightarrow> int option) \<Rightarrow> (int \<times> int) list option" where
  "reindexAxis m fn =
     map_option (\<lambda>xs. fold (\<lambda>(k, w) out. case fn k of None \<Rightarrow> out | Some k' \<Rightarrow> AList.update k' w out) xs []) m"

definition rewrite_cell :: "ref_map \<Rightarrow> string \<Rightarrow> string" where
  "rewrite_cell fn v = (case v of [] \<Rightarrow> v | c # _ \<Rightarrow> if c = CHR ''='' then rewriteRefs fn False v else v)"

definition structural :: "'s sheet \<Rightarrow> ref_map \<Rightarrow> int \<Rightarrow> int \<Rightarrow> (int \<Rightarrow> int option) \<Rightarrow> (int \<Rightarrow> int option) \<Rightarrow> 's sheet" where
  "structural sheet fn dCols dRows colFn rowFn =
     sheet\<lparr>sh_cols := max 1 (sh_cols sheet + dCols), sh_rows := max 1 (sh_rows sheet + dRows),
           sh_cells := reindexCells (sh_cells sheet) fn (rewrite_cell fn),
           sh_styles := reindexRefMap (sh_styles sheet) fn, sh_notes := reindexRefMap (sh_notes sheet) fn,
           sh_colWidths := reindexAxis (sh_colWidths sheet) colFn, sh_rowHeights := reindexAxis (sh_rowHeights sheet) rowFn\<rparr>"

definition shiftInsert :: "int \<Rightarrow> int \<Rightarrow> int" where
  "shiftInsert at i = (if i \<ge> at then i + 1 else i)"

definition shiftDelete :: "int \<Rightarrow> int \<Rightarrow> int option" where
  "shiftDelete at i = (if i = at then None else if i > at then Some (i - 1) else Some i)"

definition insertRow :: "'s sheet \<Rightarrow> int \<Rightarrow> 's sheet" where
  "insertRow sheet at = structural sheet (\<lambda>c r. Some (c, shiftInsert at r)) 0 1 Some (\<lambda>r. Some (shiftInsert at r))"

definition deleteRow :: "'s sheet \<Rightarrow> int \<Rightarrow> 's sheet" where
  "deleteRow sheet at = structural sheet (\<lambda>c r. map_option (\<lambda>nr. (c, nr)) (shiftDelete at r)) 0 (- 1) Some (shiftDelete at)"

definition insertCol :: "'s sheet \<Rightarrow> int \<Rightarrow> 's sheet" where
  "insertCol sheet at = structural sheet (\<lambda>c r. Some (shiftInsert at c, r)) 1 0 (\<lambda>c. Some (shiftInsert at c)) Some"

definition deleteCol :: "'s sheet \<Rightarrow> int \<Rightarrow> 's sheet" where
  "deleteCol sheet at = structural sheet (\<lambda>c r. map_option (\<lambda>nc. (nc, r)) (shiftDelete at c)) (- 1) 0 (shiftDelete at) Some"

section \<open>Relocation plans\<close>

text \<open>A plan sends positions of the grid to positions of the grid and no two to the same.\<close>

definition plan :: "ref_map \<Rightarrow> bool" where
  "plan fn \<longleftrightarrow>
     (\<forall>c r c' r'. 0 \<le> c \<longrightarrow> 0 \<le> r \<longrightarrow> fn c r = Some (c', r') \<longrightarrow> 0 \<le> c' \<and> 0 \<le> r') \<and>
     (\<forall>c r d q p. fn c r = Some p \<longrightarrow> fn d q = Some p \<longrightarrow> c = d \<and> r = q)"

lemma plan_grid: "plan fn \<Longrightarrow> 0 \<le> c \<Longrightarrow> 0 \<le> r \<Longrightarrow> fn c r = Some (c', r') \<Longrightarrow> 0 \<le> c' \<and> 0 \<le> r'"
  unfolding plan_def by blast

lemma plan_inj: "plan fn \<Longrightarrow> fn c r = Some p \<Longrightarrow> fn d q = Some p \<Longrightarrow> c = d \<and> r = q"
  unfolding plan_def by blast

lemma shift_simps:
  "shiftInsert at i = shiftInsert at j \<longleftrightarrow> i = j" "0 \<le> i \<Longrightarrow> 0 \<le> shiftInsert at i"
  "shiftDelete at i = Some k \<Longrightarrow> shiftDelete at j = Some k \<Longrightarrow> i = j" "0 \<le> i \<Longrightarrow> shiftDelete at i = Some k \<Longrightarrow> 0 \<le> at \<Longrightarrow> 0 \<le> k"
  "shiftDelete at (shiftInsert at i) = Some i"
  by (auto simp: shiftInsert_def shiftDelete_def split: if_splits)

lemma plans:
  "plan (\<lambda>c r. Some (c, shiftInsert at r))" "0 \<le> at \<Longrightarrow> plan (\<lambda>c r. map_option (\<lambda>nr. (c, nr)) (shiftDelete at r))"
  "plan (\<lambda>c r. Some (shiftInsert at c, r))" "0 \<le> at \<Longrightarrow> plan (\<lambda>c r. map_option (\<lambda>nc. (nc, r)) (shiftDelete at c))"
  by (auto simp: plan_def shift_simps(1,2) dest: shift_simps(3,4))

text \<open>The keys of an object of cells: addresses as the editor writes them, each once.\<close>

definition cell_keys :: "(string \<times> 'a) list \<Rightarrow> bool" where
  "cell_keys xs \<longleftrightarrow> distinct (map fst xs) \<and> (\<forall>k\<in>set (map fst xs). \<exists>c r. 0 \<le> c \<and> 0 \<le> r \<and> k = cellRef c r)"

lemma cell_keys_Cons: "cell_keys ((k, v) # xs) \<longleftrightarrow> (\<exists>c r. 0 \<le> c \<and> 0 \<le> r \<and> k = cellRef c r) \<and> k \<notin> fst ` set xs \<and> cell_keys xs"
  by (auto simp: cell_keys_def)

lemma reindex_entry_eq: "0 \<le> c \<Longrightarrow> 0 \<le> r \<Longrightarrow> reindex_entry fn rw (cellRef c r, v) out =
    (case fn c r of None \<Rightarrow> out | Some (nc, nr) \<Rightarrow> AList.update (cellRef nc nr) (rw v) out)"
  by (simp add: reindex_entry_def parseRef_cellRef)

lemma reindex_fold:
  assumes "plan fn" "cell_keys xs" "0 \<le> c" "0 \<le> r" "fn c r = Some (nc, nr)"
  shows "map_of (fold (reindex_entry fn rw) xs out) (cellRef nc nr) =
    (case map_of xs (cellRef c r) of None \<Rightarrow> map_of out (cellRef nc nr) | Some v \<Rightarrow> Some (rw v))"
  using assms(2)
proof (induction xs arbitrary: out)
  case (Cons x xs)
  obtain k v where x: "x = (k, v)" by (cases x)
  obtain d q where k: "0 \<le> d" "0 \<le> q" "k = cellRef d q" "k \<notin> fst ` set xs" and xs: "cell_keys xs" using Cons.prems by (auto simp: x cell_keys_Cons)
  have n: "0 \<le> nc" "0 \<le> nr" using plan_grid[OF assms(1,3,4,5)] by blast+
  show ?case
  proof (cases "cellRef c r = k")
    case True
    have "map_of xs (cellRef c r) = None" using k(4) True by (simp add: map_of_eq_None_iff)
    moreover have "x = (cellRef c r, v)" using x True by simp
    ultimately show ?thesis using Cons.IH[OF xs] by (simp add: reindex_entry_eq[OF assms(3,4)] assms(5) update_conv)
  next
    case False
    have "map_of (reindex_entry fn rw x out) (cellRef nc nr) = map_of out (cellRef nc nr)"
    proof (cases "fn d q")
      case (Some p)
      obtain mc mr where p: "p = (mc, mr)" by (cases p)
      have "cellRef mc mr \<noteq> cellRef nc nr"
      proof
        assume e: "cellRef mc mr = cellRef nc nr"
        have "0 \<le> mc" "0 \<le> mr" using plan_grid[OF assms(1) k(1,2)] Some p by blast+
        then have "mc = nc \<and> mr = nr" using cellRef_inj[OF e] n by blast
        then have "d = c \<and> q = r" using plan_inj[OF assms(1)] assms(5) Some p by blast
        then show False using False k(3) by simp
      qed
      then show ?thesis using Some p unfolding x k(3) reindex_entry_eq[OF k(1,2)] by (simp add: update_conv)
    next
      case None
      then show ?thesis unfolding x k(3) reindex_entry_eq[OF k(1,2)] by simp
    qed
    then show ?thesis using Cons.IH[OF xs, of "reindex_entry fn rw (k, v) out"] False by (simp add: x split: option.split)
  qed
qed simp

lemma reindex_moved:
  "plan fn \<Longrightarrow> cell_keys xs \<Longrightarrow> 0 \<le> c \<Longrightarrow> 0 \<le> r \<Longrightarrow> fn c r = Some (nc, nr) \<Longrightarrow>
   map_of (reindexCells xs fn rw) (cellRef nc nr) = map_option rw (map_of xs (cellRef c r))"
  by (simp add: reindexCells_def reindex_fold split: option.splits)

lemma reindex_fold_keys:
  assumes "plan fn" "cell_keys xs" "distinct (map fst out)" "\<forall>k\<in>fst ` set out. \<exists>c r. 0 \<le> c \<and> 0 \<le> r \<and> k = cellRef c r"
  shows "cell_keys (fold (reindex_entry fn rw) xs out) \<and>
    (\<forall>k\<in>fst ` set (fold (reindex_entry fn rw) xs out).
       k \<in> fst ` set out \<or> (\<exists>c r nc nr. 0 \<le> c \<and> 0 \<le> r \<and> cellRef c r \<in> fst ` set xs \<and> fn c r = Some (nc, nr) \<and> k = cellRef nc nr))"
  using assms(2-)
proof (induction xs arbitrary: out)
  case Nil
  then show ?case by (auto simp: cell_keys_def)
next
  case (Cons x xs)
  obtain k v where x: "x = (k, v)" by (cases x)
  obtain d q where k: "0 \<le> d" "0 \<le> q" "k = cellRef d q" "cell_keys xs" using Cons.prems(1) by (auto simp: x cell_keys_Cons)
  show ?case
  proof (cases "fn d q")
    case None
    then have e: "reindex_entry fn rw x out = out" unfolding x k(3) reindex_entry_eq[OF k(1,2)] by simp
    show ?thesis using Cons.IH[OF k(4) Cons.prems(2,3)] unfolding fold_simps e list.set(2) image_insert by blast
  next
    case (Some p)
    obtain mc mr where p: "p = (mc, mr)" by (cases p)
    have g: "0 \<le> mc" "0 \<le> mr" using plan_grid[OF assms(1) k(1,2)] Some p by blast+
    let ?o = "AList.update (cellRef mc mr) (rw v) out"
    have e: "reindex_entry fn rw x out = ?o" using Some p unfolding x k(3) reindex_entry_eq[OF k(1,2)] by simp
    have ks: "fst ` set ?o = insert (cellRef mc mr) (fst ` set out)" by (simp add: dom_update)
    have o: "distinct (map fst ?o)" "\<forall>k\<in>fst ` set ?o. \<exists>c r. 0 \<le> c \<and> 0 \<le> r \<and> k = cellRef c r"
    proof -
      show "distinct (map fst ?o)" using Cons.prems(2) by (simp add: distinct_update)
      show "\<forall>k\<in>fst ` set ?o. \<exists>c r. 0 \<le> c \<and> 0 \<le> r \<and> k = cellRef c r"
      proof
        fix j assume "j \<in> fst ` set ?o"
        then consider "j = cellRef mc mr" | "j \<in> fst ` set out" unfolding ks by blast
        then show "\<exists>c r. 0 \<le> c \<and> 0 \<le> r \<and> j = cellRef c r" using g Cons.prems(3) by cases blast+
      qed
    qed
    have m: "cellRef d q \<in> fst ` set (x # xs)" by (simp add: x k(3))
    note ih = Cons.IH[OF k(4) o, unfolded ks]
    show ?thesis unfolding fold_simps e
    proof (intro conjI ballI)
      show "cell_keys (fold (reindex_entry fn rw) xs ?o)" using ih by blast
      fix j assume "j \<in> fst ` set (fold (reindex_entry fn rw) xs ?o)"
      then consider "j = cellRef mc mr" | "j \<in> fst ` set out"
        | "\<exists>c r nc nr. 0 \<le> c \<and> 0 \<le> r \<and> cellRef c r \<in> fst ` set xs \<and> fn c r = Some (nc, nr) \<and> j = cellRef nc nr"
        using ih by blast
      then show "j \<in> fst ` set out \<or> (\<exists>c r nc nr. 0 \<le> c \<and> 0 \<le> r \<and> cellRef c r \<in> fst ` set (x # xs) \<and> fn c r = Some (nc, nr) \<and> j = cellRef nc nr)"
      proof cases
        case 1
        then show ?thesis using m Some k(1,2) unfolding p by blast
      next
        case 3
        then show ?thesis unfolding list.set(2) image_insert by blast
      qed simp
    qed
  qed
qed

lemma reindex_keys: "plan fn \<Longrightarrow> cell_keys xs \<Longrightarrow> cell_keys (reindexCells xs fn rw)"
  using reindex_fold_keys[of fn xs "[]" rw] by (simp add: reindexCells_def)

text \<open>Nothing appears that was not moved there.\<close>

lemma reindex_none:
  assumes "plan fn" "cell_keys xs" "\<And>c r. 0 \<le> c \<Longrightarrow> 0 \<le> r \<Longrightarrow> fn c r \<noteq> Some (nc, nr)" "0 \<le> nc" "0 \<le> nr"
  shows "map_of (reindexCells xs fn rw) (cellRef nc nr) = None"
proof (rule ccontr)
  assume "map_of (reindexCells xs fn rw) (cellRef nc nr) \<noteq> None"
  then have "cellRef nc nr \<in> fst ` set (reindexCells xs fn rw)" by (simp add: map_of_eq_None_iff)
  then obtain c r mc mr where m: "0 \<le> c" "0 \<le> r" "fn c r = Some (mc, mr)" "cellRef nc nr = cellRef mc mr"
    using reindex_fold_keys[of fn xs "[]" rw] assms(1,2) unfolding reindexCells_def by auto
  then have "mc = nc \<and> mr = nr" using cellRef_inj[OF m(4) assms(4,5)] plan_grid[OF assms(1) m(1-3)] by blast
  then show False using assms(3) m by blast
qed

text \<open>What a cell holds after each operation.\<close>

lemma insertRow_cells:
  assumes "cell_keys (sh_cells sheet)" "0 \<le> at" "0 \<le> c" "0 \<le> r"
  shows "map_of (sh_cells (insertRow sheet at)) (cellRef c r) =
    (if r < at then map_option (rewrite_cell (\<lambda>c r. Some (c, shiftInsert at r))) (map_of (sh_cells sheet) (cellRef c r))
     else if r = at then None
     else map_option (rewrite_cell (\<lambda>c r. Some (c, shiftInsert at r))) (map_of (sh_cells sheet) (cellRef c (r - 1))))"
proof -
  let ?f = "\<lambda>c r. Some (c, shiftInsert at r)"
  have cells: "sh_cells (insertRow sheet at) = reindexCells (sh_cells sheet) ?f (rewrite_cell ?f)" by (simp add: insertRow_def structural_def)
  consider "r < at" | "r = at" | "at < r" by linarith
  then show ?thesis
  proof cases
    case 1
    then have "?f c r = Some (c, r)" by (simp add: shiftInsert_def)
    from reindex_moved[OF plans(1) assms(1,3,4) this] show ?thesis using 1 by (simp add: cells)
  next
    case 2
    have "?f d q \<noteq> Some (c, r)" for d q using 2 by (auto simp: shiftInsert_def)
    from reindex_none[OF plans(1) assms(1) this assms(3,4)] show ?thesis using 2 by (simp add: cells)
  next
    case 3
    then have "?f c (r - 1) = Some (c, r)" "0 \<le> r - 1" using assms(2) by (simp_all add: shiftInsert_def)
    from reindex_moved[OF plans(1) assms(1,3) this(2,1)] show ?thesis using 3 by (simp add: cells)
  qed
qed

section \<open>The four operations\<close>

datatype edit = InsertRow int | DeleteRow int | InsertCol int | DeleteCol int

primrec apply_edit :: "edit \<Rightarrow> 's sheet \<Rightarrow> 's sheet" where
  "apply_edit (InsertRow at) sheet = insertRow sheet at"
| "apply_edit (DeleteRow at) sheet = deleteRow sheet at"
| "apply_edit (InsertCol at) sheet = insertCol sheet at"
| "apply_edit (DeleteCol at) sheet = deleteCol sheet at"

primrec moved :: "edit \<Rightarrow> ref_map" where
  "moved (InsertRow at) = (\<lambda>c r. Some (c, shiftInsert at r))"
| "moved (DeleteRow at) = (\<lambda>c r. map_option (\<lambda>nr. (c, nr)) (shiftDelete at r))"
| "moved (InsertCol at) = (\<lambda>c r. Some (shiftInsert at c, r))"
| "moved (DeleteCol at) = (\<lambda>c r. map_option (\<lambda>nc. (nc, r)) (shiftDelete at c))"

primrec edit_at :: "edit \<Rightarrow> int" where
  "edit_at (InsertRow at) = at" | "edit_at (DeleteRow at) = at" | "edit_at (InsertCol at) = at" | "edit_at (DeleteCol at) = at"

lemma plan_moved: "0 \<le> edit_at e \<Longrightarrow> plan (moved e)"
  by (cases e) (simp_all add: plans del: option.map_sel)

lemma cells_edit: "sh_cells (apply_edit e sheet) = reindexCells (sh_cells sheet) (moved e) (rewrite_cell (moved e))"
  by (cases e) (simp_all add: insertRow_def deleteRow_def insertCol_def deleteCol_def structural_def)



section \<open>Inserting, then deleting\<close>


definition axis_ok :: "(int \<times> int) list option \<Rightarrow> bool" where
  "axis_ok m \<longleftrightarrow> (case m of None \<Rightarrow> True | Some xs \<Rightarrow> distinct (map fst xs))"

definition keys_ok :: "(string \<times> 'a) list option \<Rightarrow> bool" where
  "keys_ok m \<longleftrightarrow> (case m of None \<Rightarrow> True | Some xs \<Rightarrow> cell_keys xs)"



lemma axis_keys_fold: "distinct (map fst out) \<Longrightarrow> distinct (map fst (fold (\<lambda>(k, w) out. case fn k of None \<Rightarrow> out | Some k' \<Rightarrow> AList.update k' w out) xs out))"
  by (induction xs arbitrary: out) (auto simp: distinct_update split: option.split)

lemma axis_ok_reindex: "axis_ok (reindexAxis m fn)"
  by (simp add: axis_ok_def reindexAxis_def axis_keys_fold split: option.split)


lemma keys_ok_reindex: "keys_ok m \<Longrightarrow> plan fn \<Longrightarrow> keys_ok (reindexRefMap m fn)"
  by (cases m) (simp_all add: keys_ok_def reindexRefMap_def reindex_keys)

definition sheet_ok :: "'s sheet \<Rightarrow> bool" where
  "sheet_ok sheet \<longleftrightarrow> cell_keys (sh_cells sheet) \<and> keys_ok (sh_styles sheet) \<and> keys_ok (sh_notes sheet) \<and>
     axis_ok (sh_colWidths sheet) \<and> axis_ok (sh_rowHeights sheet) \<and> 1 \<le> sh_rows sheet \<and> 1 \<le> sh_cols sheet"

lemma edit_fields:
  "sh_styles (apply_edit e sheet) = reindexRefMap (sh_styles sheet) (moved e)" "sh_notes (apply_edit e sheet) = reindexRefMap (sh_notes sheet) (moved e)"
  by (cases e; simp add: insertRow_def deleteRow_def insertCol_def deleteCol_def structural_def)+

lemma edit_axes:
  "axis_ok (sh_colWidths (apply_edit e sheet))" "axis_ok (sh_rowHeights (apply_edit e sheet))" "1 \<le> sh_rows (apply_edit e sheet)" "1 \<le> sh_cols (apply_edit e sheet)"
  by (cases e; simp add: insertRow_def deleteRow_def insertCol_def deleteCol_def structural_def axis_ok_reindex)+

text \<open>C36: every insertion or deletion of a row or a column keeps a sheet well formed: its cells, styles and notes are keyed by
  addresses of the grid, each once, its widths and heights once per column and row, and it keeps at least one row and one column.\<close>

theorem edit_keeps_sheet_ok:
  assumes "sheet_ok sheet" "0 \<le> edit_at e"
  shows "sheet_ok (apply_edit e sheet)"
  using assms(1) edit_axes[of e sheet]
  by (simp add: sheet_ok_def cells_edit edit_fields reindex_keys[OF plan_moved[OF assms(2)]] keys_ok_reindex[OF _ plan_moved[OF assms(2)]])






section \<open>Samples\<close>

definition sample_sheet :: "nat sheet" where
  "sample_sheet = \<lparr>sh_name = ''Feuille 1'', sh_rows = 20, sh_cols = 8,
     sh_cells = [(''A1'', ''12''), (''B2'', ''=SUM(A1:A5)*2''), (''A5'', ''=LEFT($A$1)'')], sh_styles = Some [(''A5'', 1)], sh_notes = None,
     sh_colWidths = Some [(0, 90)], sh_rowHeights = Some [(4, 30)]\<rparr>"

lemma sample_refs: "cellRef 0 0 = ''A1''" "cellRef 1 1 = ''B2''" "cellRef 0 4 = ''A5''"
  by code_simp+

lemma sample_sheet_ok: "sheet_ok sample_sheet"
proof -
  have d: "cellRef 0 0 \<noteq> cellRef 1 1" "cellRef 0 0 \<noteq> cellRef 0 4" "cellRef 1 1 \<noteq> cellRef 0 4" by (simp_all add: sample_refs)
  have e: "\<exists>c r. 0 \<le> c \<and> 0 \<le> r \<and> cellRef p q = cellRef c r" if "0 \<le> p" "0 \<le> q" for p q using that by blast
  have "cell_keys [(cellRef 0 0, a), (cellRef 1 1, b), (cellRef 0 4, c)]" for a b c :: string
    using d e[of 0 0] e[of 1 1] e[of 0 4] unfolding cell_keys_def by simp
  moreover have "cell_keys [(cellRef 0 4, a)]" for a :: nat using e[of 0 4] unfolding cell_keys_def by simp
  ultimately show ?thesis by (simp add: sheet_ok_def sample_sheet_def keys_ok_def axis_ok_def sample_refs)
qed




theorem edit_keeps_sheet_ok_witness: "sheet_ok (apply_edit (DeleteRow 0) sample_sheet)"
  by (rule edit_keeps_sheet_ok[OF sample_sheet_ok]) simp



end
