(* ===== verification/Sheet_Csv.thy ===== *)
theory Sheet_Csv
  imports Sheet_Refs
begin

text \<open>
  CSV files, \<^verbatim>\<open>web-studio/src/sheet/csv.ts\<close>, with the recognition of numbers of
  \<^verbatim>\<open>web-studio/src/sheet/numeric.ts\<close> and the export of \<^verbatim>\<open>web-studio/src/views/SheetView.tsx\<close>.
\<close>

section \<open>Numbers typed in a cell\<close>

text \<open>The exact value a decimal text denotes, a mantissa and a power of ten, before it is rounded to a double.\<close>

type_synonym decimal = "int \<times> int"

definition signed :: "string \<Rightarrow> int \<times> string" where
  "signed s = (case s of [] \<Rightarrow> (1, []) | c # cs \<Rightarrow> if c = CHR ''-'' then (- 1, cs) else if c = CHR ''+'' then (1, cs) else (1, s))"

text \<open>\<open>[eE][+-]?\d+\<close> or nothing.\<close>

definition exponent :: "string \<Rightarrow> int option" where
  "exponent s =
     (case s of
        [] \<Rightarrow> Some 0
      | c # cs \<Rightarrow>
          (let (sg, ds) = signed cs
           in if (c = CHR ''e'' \<or> c = CHR ''E'') \<and> ds \<noteq> [] \<and> list_all is_digit ds then Some (sg * parse_dec ds) else None))"

text \<open>The regular expressions of a decimal number, the points those of \<open>points\<close>.\<close>

definition decimal_text :: "string \<Rightarrow> string \<Rightarrow> decimal option" where
  "decimal_text points s =
     (let (sg, s1) = signed s;
          ip = takeWhile is_digit s1;
          r1 = dropWhile is_digit s1;
          dotted = (r1 \<noteq> [] \<and> hd r1 \<in> set points);
          fp = (if dotted then takeWhile is_digit (tl r1) else []);
          r2 = (if dotted then dropWhile is_digit (tl r1) else r1)
      in if ip = [] \<and> fp = [] then None
         else map_option (\<lambda>e. (sg * parse_dec (ip @ fp), e - int (length fp))) (exponent r2))"

text \<open>\<^verbatim>\<open>Number.isFinite\<close> of the nearest double.\<close>

definition finite_double :: "decimal \<Rightarrow> bool" where
  "finite_double = (\<lambda>(m, e). if 0 \<le> e then \<bar>m\<bar> * 10 ^ nat e < 2 ^ 1024 - 2 ^ 970 else \<bar>m\<bar> < (2 ^ 1024 - 2 ^ 970) * 10 ^ nat (- e))"

definition group_space :: "char \<Rightarrow> bool" where
  "group_space c \<longleftrightarrow> c = CHR '' '' \<or> c = CHR 160"

fun digit_groups :: "string \<Rightarrow> bool" where
  "digit_groups [] = True"
| "digit_groups (s # a # b # c # cs) = (group_space s \<and> is_digit a \<and> is_digit b \<and> is_digit c \<and> digit_groups cs)"
| "digit_groups _ = False"

definition FR_NUMBER :: "string \<Rightarrow> bool" where
  "FR_NUMBER t =
     (let s = snd (signed t);
          ip = takeWhile (\<lambda>c. c \<noteq> CHR '','') s;
          r = dropWhile (\<lambda>c. c \<noteq> CHR '','') s;
          hd3 = takeWhile is_digit ip
      in (ip \<noteq> [] \<and> list_all is_digit ip \<or>
          hd3 \<noteq> [] \<and> length hd3 \<le> 3 \<and> hd hd3 \<noteq> CHR ''0'' \<and> hd3 \<noteq> ip \<and> digit_groups (dropWhile is_digit ip)) \<and>
         (r = [] \<or> tl r \<noteq> [] \<and> list_all is_digit (tl r)))"

definition leading_zero :: "string \<Rightarrow> bool" where
  "leading_zero t = (case snd (signed t) of c # d # _ \<Rightarrow> c = CHR ''0'' \<and> is_digit d | _ \<Rightarrow> False)"

definition long_integer :: "string \<Rightarrow> bool" where
  "long_integer t = (let s = snd (signed t) in 16 \<le> length s \<and> list_all is_digit s)"

definition parseCellNumber :: "string \<Rightarrow> decimal option" where
  "parseCellNumber raw =
     (let t = js_trim raw
      in if t = [] then None
         else if leading_zero t \<or> long_integer t then None
         else (case Option.bind (decimal_text ''.'' t) (\<lambda>d. if finite_double d then Some d else None) of
             Some d \<Rightarrow> Some d
           | None \<Rightarrow>
               if FR_NUMBER t
               then Option.bind (decimal_text '','' (filter (\<lambda>c. \<not> group_space c) t)) (\<lambda>d. if finite_double d then Some d else None)
               else None))"

definition literalCell :: "string \<Rightarrow> string" where
  "literalCell text =
     (if take 1 text = ''='' \<or> take 1 text = [CHR 39] \<or> parseCellNumber text \<noteq> None then CHR 39 # text else text)"

text \<open>What a content that is not a formula displays: an apostrophe marks a text.\<close>

datatype literal = LNum decimal | LText string

definition literal_value :: "string \<Rightarrow> literal" where
  "literal_value raw =
     (if take 1 raw = [CHR 39] then LText (tl raw) else case parseCellNumber raw of Some d \<Rightarrow> LNum d | None \<Rightarrow> LText raw)"

section \<open>Reading\<close>

definition occurrences :: "char \<Rightarrow> string \<Rightarrow> nat" where
  "occurrences ch s = length (js_split ch s) - 1"

definition sniffDelim :: "string \<Rightarrow> char" where
  "sniffDelim text =
     (let first = takeWhile (\<lambda>c. c \<noteq> CHR 10) text;
          tab = occurrences (CHR 9) first; semi = occurrences (CHR '';'') first; comma = occurrences (CHR '','') first
      in if tab \<ge> semi \<and> tab \<ge> comma \<and> tab > 0 then CHR 9 else if semi > comma then CHR '';'' else CHR '','')"

fun csv_loop :: "char \<Rightarrow> string \<Rightarrow> string list list \<Rightarrow> string list \<Rightarrow> string \<Rightarrow> bool \<Rightarrow> string list list" where
  "csv_loop delim [] rows row field inQuotes = (if field \<noteq> [] \<or> row \<noteq> [] then rows @ [row @ [field]] else rows)"
| "csv_loop delim (c # cs) rows row field inQuotes =
     (if inQuotes then
        (if c = CHR 34 then
           (case cs of
              d # ds \<Rightarrow> if d = CHR 34 then csv_loop delim ds rows row (field @ [CHR 34]) True else csv_loop delim cs rows row field False
            | [] \<Rightarrow> csv_loop delim cs rows row field False)
         else csv_loop delim cs rows row (field @ [c]) True)
      else if c = CHR 34 then csv_loop delim cs rows row field True
      else if c = delim then csv_loop delim cs rows (row @ [field]) [] False
      else if c = CHR 10 then csv_loop delim cs (rows @ [row @ [field]]) [] [] False
      else if c \<noteq> CHR 13 then csv_loop delim cs rows row (field @ [c]) False
      else csv_loop delim cs rows row field False)"

definition parseCsv :: "string \<Rightarrow> char \<Rightarrow> string list list" where
  "parseCsv text delim = csv_loop delim text [] [] [] False"

definition csvImportCell :: "string \<Rightarrow> string" where
  "csvImportCell text =
     (if parseCellNumber text \<noteq> None then text
      else if text \<noteq> [] \<and> hd text \<in> {CHR ''='', CHR ''+'', CHR ''-'', CHR 64, CHR 9, CHR 13, CHR 39} then CHR 39 # text else text)"

definition import_row :: "nat \<Rightarrow> string list \<Rightarrow> (string \<times> string) list \<Rightarrow> (string \<times> string) list" where
  "import_row ri r cells =
     fold (\<lambda>(ci, val) out. if val \<noteq> [] then AList.update (cellRef (int ci) (int ri)) (csvImportCell val) out else out) (enumerate 0 r) cells"

definition import_max :: "string list \<Rightarrow> nat \<Rightarrow> nat" where
  "import_max r m = fold (\<lambda>(ci, val) k. if val \<noteq> [] then max k ci else k) (enumerate 0 r) m"

text \<open>The single sheet of the imported workbook: its rows, its columns and its cells.\<close>

definition csvToWorkbook :: "string \<Rightarrow> nat \<times> nat \<times> (string \<times> string) list" where
  "csvToWorkbook text =
     (let rows = parseCsv text (sniffDelim text)
      in (max 20 (length rows), fold import_max rows 7 + 1,
          fold (\<lambda>(ri, r). import_row ri r) (enumerate 0 rows) []))"

section \<open>Writing\<close>

definition csv_numeric :: "string \<Rightarrow> bool" where
  "csv_numeric value \<longleftrightarrow> decimal_text ''.,'' value \<noteq> None"

definition formula_like :: "string \<Rightarrow> bool" where
  "formula_like value \<longleftrightarrow>
     (case dropWhile js_space value of [] \<Rightarrow> False | c # _ \<Rightarrow> c \<in> {CHR ''='', CHR ''+'', CHR 64, CHR ''-''})"

definition csv_safe :: "string \<Rightarrow> string" where
  "csv_safe value =
     (if value \<noteq> [] \<and> hd value \<in> {CHR 9, CHR 13, CHR 10} \<or> formula_like value \<and> \<not> csv_numeric value then CHR 39 # value else value)"

definition must_quote :: "string \<Rightarrow> bool" where
  "must_quote s \<longleftrightarrow> list_ex (\<lambda>c. c \<in> {CHR 34, CHR '','', CHR 13, CHR 10}) s"

definition csv_escape :: "string \<Rightarrow> string" where
  "csv_escape s = concat (map (\<lambda>c. if c = CHR 34 then [c, c] else [c]) s)"

definition csvSafeCell :: "string \<Rightarrow> string" where
  "csvSafeCell value = (let safe = csv_safe value in if must_quote safe then [CHR 34] @ csv_escape safe @ [CHR 34] else safe)"

text \<open>The exported file: the displayed cells of the visible rows.\<close>

definition exportCsv :: "string list list \<Rightarrow> string" where
  "exportCsv rows = js_join [CHR 13, CHR 10] (map (\<lambda>row. js_join '','' (map csvSafeCell row)) rows)"

section \<open>Round trip\<close>

lemma csv_plain:
  assumes "list_all (\<lambda>c. c \<notin> {CHR 34, delim, CHR 13, CHR 10}) v"
  shows "csv_loop delim (v @ rest) rows row f False = csv_loop delim rest rows row (f @ v) False"
  using assms by (induction v arbitrary: f) auto

lemma csv_quoted_body:
  assumes "rest = [] \<or> hd rest \<noteq> CHR 34"
  shows "csv_loop delim (csv_escape v @ CHR 34 # rest) rows row f True = csv_loop delim rest rows row (f @ v) False"
proof (induction v arbitrary: f)
  case Nil
  then show ?case using assms by (cases rest) (auto simp: csv_escape_def)
next
  case (Cons c v)
  then show ?case by (simp add: csv_escape_def)
qed

lemma csv_cell:
  assumes "rest = [] \<or> hd rest \<noteq> CHR 34"
  shows "csv_loop (CHR '','') (csvSafeCell v @ rest) rows row [] False = csv_loop (CHR '','') rest rows row (csv_safe v) False"
proof (cases "must_quote (csv_safe v)")
  case True
  then show ?thesis using csv_quoted_body[OF assms, of "CHR '',''" "csv_safe v" rows row "[]"] by (simp add: csvSafeCell_def)
next
  case False
  then have "list_all (\<lambda>c. c \<notin> {CHR 34, CHR '','', CHR 13, CHR 10}) (csv_safe v)" by (auto simp: must_quote_def list_ex_iff list_all_iff)
  then show ?thesis using csv_plain[of "CHR '',''" "csv_safe v" rest rows row "[]"] False by (simp add: csvSafeCell_def)
qed

lemma csv_row:
  assumes "cells \<noteq> []" "rest = [] \<or> hd rest = CHR 13"
  shows "csv_loop (CHR '','') (js_join '','' (map csvSafeCell cells) @ rest) rows row [] False =
    csv_loop (CHR '','') rest rows (row @ map csv_safe (butlast cells)) (csv_safe (last cells)) False"
  using assms(1)
proof (induction cells arbitrary: row rule: induct_list012)
  case (2 v)
  then show ?case using csv_cell[of rest v] assms(2) by (cases rest) auto
next
  case (3 v w vs)
  then show ?case using csv_cell[of "CHR '','' # js_join '','' (map csvSafeCell (w # vs)) @ rest" v rows row] by simp
qed simp

lemma map_safe_split: "r \<noteq> [] \<Longrightarrow> map csv_safe (butlast r) @ [csv_safe (last r)] = map csv_safe r"
  by (cases r rule: rev_cases) auto

text \<open>C23: a file written by the export is read back cell by cell as it was displayed, save the apostrophe put before the texts that a spreadsheet
  would run as formulas: commas, quotes and line ends inside the cells survive. A last row made of a single empty cell is not read.\<close>

theorem csv_roundtrip:
  assumes "rows \<noteq> []" "list_all (\<lambda>r. r \<noteq> []) rows" "last rows \<noteq> [[]]"
  shows "parseCsv (exportCsv rows) (CHR '','') = map (map csv_safe) rows"
proof -
  have safe: "csv_safe v = [] \<longleftrightarrow> v = []" for v by (auto simp: csv_safe_def formula_like_def)
  have "csv_loop (CHR '','') (exportCsv rows) out [] [] False = out @ map (map csv_safe) rows" for out
    using assms
  proof (induction rows arbitrary: out rule: induct_list012)
    case (2 r)
    have "butlast r \<noteq> [] \<or> last r \<noteq> []" using 2 by (cases r rule: rev_cases) auto
    moreover have "map csv_safe (butlast r) @ [csv_safe (last r)] = map csv_safe r"
      using 2 by (simp add: map_safe_split)
    ultimately show ?case using csv_row[of r "[]" out "[]"] 2 by (auto simp: exportCsv_def safe)
  next
    case (3 r r2 rs)
    have e: "exportCsv (r # r2 # rs) = js_join '','' (map csvSafeCell r) @ CHR 13 # CHR 10 # exportCsv (r2 # rs)" by (simp add: exportCsv_def)
    have "map csv_safe (butlast r) @ [csv_safe (last r)] = map csv_safe r"
      using 3 by (simp add: map_safe_split)
    then have "csv_loop (CHR '','') (exportCsv (r # r2 # rs)) out [] [] False =
        csv_loop (CHR '','') (exportCsv (r2 # rs)) (out @ [map csv_safe r]) [] [] False"
      using csv_row[of r "CHR 13 # CHR 10 # exportCsv (r2 # rs)" out "[]"] 3 unfolding e by simp
    then show ?case using 3 by simp
  qed simp
  then show ?thesis by (simp add: parseCsv_def)
qed

theorem csv_roundtrip_witness:
  "parseCsv (exportCsv [[''a,b'', ''=1+1''], [''say \"x\"'', []]]) (CHR '','') = [[''a,b'', CHR 39 # ''=1+1''], [''say \"x\"'', []]]"
  using csv_roundtrip[of "[[''a,b'', ''=1+1''], [''say \"x\"'', []]]"] by (auto simp: csv_safe_def formula_like_def csv_numeric_def decimal_text_def signed_def js_space_def is_digit_def)

lemma trim_head:
  assumes "\<not> js_space c"
  shows "\<exists>cs'. js_trim (c # cs) = c # cs'"
proof -
  have "dropWhile js_space (rev (c # cs)) = (if \<forall>x\<in>set cs. js_space x then [] else dropWhile js_space (rev cs)) @ [c]"
    using assms by (auto simp: dropWhile_append)
  then obtain l where "dropWhile js_space (rev (c # cs)) = l @ [c]" by blast
  then show ?thesis using assms by (simp add: js_trim_def)
qed

lemma number_head:
  assumes "parseCellNumber (c # cs) \<noteq> None" "\<not> js_space c"
  shows "is_digit c \<or> c \<in> {CHR ''+'', CHR ''-'', CHR ''.''}"
proof (rule ccontr)
  assume bad: "\<not> ?thesis"
  obtain t where t: "js_trim (c # cs) = c # t" using trim_head[OF assms(2)] by blast
  have "decimal_text ''.'' (c # t) = None" using bad by (simp add: decimal_text_def signed_def)
  moreover have "\<not> FR_NUMBER (c # t)" using bad by (simp add: FR_NUMBER_def signed_def Let_def)
  ultimately show False using assms(1) by (simp add: parseCellNumber_def t Let_def split: if_splits)
qed

text \<open>C25: an imported cell is never a formula, and it displays the text of the file: its number when it is one, and the text itself otherwise,
  whatever character it starts with.\<close>

theorem csvImportCell_inert:
  "take 1 (csvImportCell text) \<noteq> ''='' \<and>
   literal_value (csvImportCell text) = (case parseCellNumber text of Some d \<Rightarrow> LNum d | None \<Rightarrow> LText text)"
proof (cases "parseCellNumber text")
  case None
  then show ?thesis by (cases "text") (simp_all add: csvImportCell_def literal_value_def)
next
  case (Some d)
  have "take 1 text \<noteq> ''='' \<and> take 1 text \<noteq> [CHR 39]"
  proof (cases "text")
    case (Cons c cs)
    then show ?thesis using number_head[of c cs] Some by (auto simp: js_space_def is_digit_def)
  qed simp
  then show ?thesis using Some by (simp add: csvImportCell_def literal_value_def)
qed

end
