(* ===== verification/Spec2Isabelle.thy ===== *)
theory Spec2Isabelle
  imports Shamir Relay_Log Sheet_Merges Slide_Table Sheet_Virtual Rbac Second_Factor Journal Audit_Chain Drive_Forest Drive_Quota Drive_Rotation Sheet_Structural Sheet_Csv
begin

text \<open>Root of the development.\<close>

end
